(* ===== verification/Xv6_Base.thy ===== *)
theory Xv6_Base
  imports Main "HOL-Library.Word"
begin

text \<open>
  The prelude of the development: how a kernel routine that may panic, sleep or spin is
  written as a HOL function, the two Hoare-style judgements over such routines, and the
  generic facts on lists, tables and words that the components share.
\<close>

unbundle bit_operations_syntax

named_theorems run_simps \<open>equations that execute a kernel routine on a state\<close>
named_theorems frame \<open>what an operation leaves unchanged\<close>

section \<open>Kernel routines\<close>

text \<open>
  A routine of the kernel is a function from the kernel's state to an outcome. It returns a
  value and the new state; or it calls \<^verbatim>\<open>panic\<close>, which never returns; or it gives up the CPU
  inside \<^verbatim>\<open>sleep\<close>, leaving the state the scheduler takes over; or it busy-waits for a spin
  lock that another CPU holds, leaving the state in which it spins.
\<close>

datatype ('a, 's) outcome = Done 'a 's | Panics string | Sleeps 's | Spins 's

type_synonym ('s, 'a) kmon = "'s \<Rightarrow> ('a, 's) outcome"

definition returnK :: "'a \<Rightarrow> ('s, 'a) kmon" where
  "returnK x = (\<lambda>s. Done x s)"

definition bindK :: "('s, 'a) kmon \<Rightarrow> ('a \<Rightarrow> ('s, 'b) kmon) \<Rightarrow> ('s, 'b) kmon" where
  "bindK m f = (\<lambda>s. case m s of Done x t \<Rightarrow> f x t | Panics e \<Rightarrow> Panics e
                      | Sleeps t \<Rightarrow> Sleeps t | Spins t \<Rightarrow> Spins t)"

definition thenK :: "('s, 'a) kmon \<Rightarrow> ('s, 'b) kmon \<Rightarrow> ('s, 'b) kmon" where
  "thenK m k = bindK m (\<lambda>_. k)"

definition panicK :: "string \<Rightarrow> ('s, 'a) kmon" where
  "panicK e = (\<lambda>_. Panics e)"

definition getK :: "('s \<Rightarrow> 'a) \<Rightarrow> ('s, 'a) kmon" where
  "getK f = (\<lambda>s. Done (f s) s)"

definition modK :: "('s \<Rightarrow> 's) \<Rightarrow> ('s, unit) kmon" where
  "modK f = (\<lambda>s. Done () (f s))"

definition whenK :: "bool \<Rightarrow> ('s, unit) kmon \<Rightarrow> ('s, unit) kmon" where
  "whenK b m = (if b then m else returnK ())"

text \<open>A \<^verbatim>\<open>for\<close> loop over a list of indices.\<close>

primrec forK :: "'b list \<Rightarrow> ('b \<Rightarrow> ('s, unit) kmon) \<Rightarrow> ('s, unit) kmon" where
  "forK [] f = returnK ()"
| "forK (x # xs) f = thenK (f x) (forK xs f)"

text \<open>A loop over a list of indices that a \<^verbatim>\<open>return\<close> in its body may leave early.\<close>

primrec searchK :: "'b list \<Rightarrow> ('b \<Rightarrow> ('s, 'a option) kmon) \<Rightarrow> ('s, 'a option) kmon" where
  "searchK [] f = returnK None"
| "searchK (x # xs) f = bindK (f x) (\<lambda>r. case r of Some y \<Rightarrow> returnK (Some y) | None \<Rightarrow> searchK xs f)"

lemma returnK_run [simp]: "returnK x s = Done x s"
  by (simp add: returnK_def)

lemma panicK_run [simp]: "panicK e s = Panics e"
  by (simp add: panicK_def)

lemma getK_run [simp]: "getK f s = Done (f s) s"
  by (simp add: getK_def)

lemma modK_run [simp]: "modK f s = Done () (f s)"
  by (simp add: modK_def)

lemma whenK_True [simp]: "whenK True m = m"
  and whenK_False [simp]: "whenK False m = returnK ()"
  by (simp_all add: whenK_def)

lemma bindK_run [simp]:
  "bindK m f s = (case m s of Done x t \<Rightarrow> f x t | Panics e \<Rightarrow> Panics e
                   | Sleeps t \<Rightarrow> Sleeps t | Spins t \<Rightarrow> Spins t)"
  by (simp add: bindK_def)

lemma thenK_run [simp]:
  "thenK m k s = (case m s of Done x t \<Rightarrow> k t | Panics e \<Rightarrow> Panics e
                   | Sleeps t \<Rightarrow> Sleeps t | Spins t \<Rightarrow> Spins t)"
  by (simp add: thenK_def)

text \<open>The three monad laws, so that routines may be regrouped.\<close>

lemma bindK_return: "bindK (returnK x) f = f x"
  by (simp add: bindK_def returnK_def)

lemma bindK_return_right: "bindK m returnK = m"
  by (rule ext) (simp split: outcome.splits)

lemma bindK_assoc: "bindK (bindK m f) g = bindK m (\<lambda>x. bindK (f x) g)"
  by (rule ext) (simp split: outcome.splits)

lemma bindK_DoneE:
  assumes "bindK m f s = Done y t"
  obtains x u where "m s = Done x u" and "f x u = Done y t"
  using assms by (auto split: outcome.splits)

lemma thenK_DoneE:
  assumes "thenK m k s = Done y t"
  obtains x u where "m s = Done x u" and "k u = Done y t"
  using assms by (auto split: outcome.splits)

section \<open>Judgements\<close>

text \<open>
  \<open>keepsK P m Q\<close>: whenever \<open>m\<close> returns from a state satisfying \<open>P\<close>, value and state
  satisfy \<open>Q\<close>. \<open>totalK P m Q\<close>: from such a state \<open>m\<close> does return, and satisfies \<open>Q\<close>.
\<close>

definition keepsK :: "('s \<Rightarrow> bool) \<Rightarrow> ('s, 'a) kmon \<Rightarrow> ('a \<Rightarrow> 's \<Rightarrow> bool) \<Rightarrow> bool" where
  "keepsK P m Q \<longleftrightarrow> (\<forall>s x t. P s \<longrightarrow> m s = Done x t \<longrightarrow> Q x t)"

definition totalK :: "('s \<Rightarrow> bool) \<Rightarrow> ('s, 'a) kmon \<Rightarrow> ('a \<Rightarrow> 's \<Rightarrow> bool) \<Rightarrow> bool" where
  "totalK P m Q \<longleftrightarrow> (\<forall>s. P s \<longrightarrow> (\<exists>x t. m s = Done x t \<and> Q x t))"

lemma totalK_keepsK: "totalK P m Q \<Longrightarrow> keepsK P m Q"
  by (fastforce simp: totalK_def keepsK_def)

lemma keepsKD: "keepsK P m Q \<Longrightarrow> P s \<Longrightarrow> m s = Done x t \<Longrightarrow> Q x t"
  by (auto simp: keepsK_def)

lemma keepsKI: "(\<And>s x t. P s \<Longrightarrow> m s = Done x t \<Longrightarrow> Q x t) \<Longrightarrow> keepsK P m Q"
  by (auto simp: keepsK_def)

lemma keepsK_bind:
  assumes "keepsK P m R" and "\<And>x. keepsK (R x) (f x) Q"
  shows "keepsK P (bindK m f) Q"
  using assms by (fastforce simp: keepsK_def elim!: bindK_DoneE split: outcome.splits)

lemma keepsK_then:
  assumes "keepsK P m (\<lambda>_. R)" and "keepsK R k Q"
  shows "keepsK P (thenK m k) Q"
  using assms unfolding thenK_def by (blast intro: keepsK_bind)

lemma keepsK_return: "(\<And>s. P s \<Longrightarrow> Q x s) \<Longrightarrow> keepsK P (returnK x) Q"
  by (auto simp: keepsK_def)

lemma keepsK_get: "(\<And>s. P s \<Longrightarrow> Q (f s) s) \<Longrightarrow> keepsK P (getK f) Q"
  by (auto simp: keepsK_def)

lemma keepsK_mod: "(\<And>s. P s \<Longrightarrow> Q () (f s)) \<Longrightarrow> keepsK P (modK f) Q"
  by (auto simp: keepsK_def)

lemma keepsK_panic: "keepsK P (panicK e) Q"
  by (auto simp: keepsK_def)

lemma keepsK_when: "(b \<Longrightarrow> keepsK P m Q) \<Longrightarrow> (\<And>s. \<not> b \<Longrightarrow> P s \<Longrightarrow> Q () s) \<Longrightarrow> keepsK P (whenK b m) Q"
  by (cases b) (auto simp: keepsK_def)

lemma keepsK_if:
  "(b \<Longrightarrow> keepsK P m Q) \<Longrightarrow> (\<not> b \<Longrightarrow> keepsK P k Q) \<Longrightarrow> keepsK P (if b then m else k) Q"
  by simp

lemmas keepsK_rules = keepsK_bind keepsK_then keepsK_return keepsK_get keepsK_mod keepsK_panic
  keepsK_when keepsK_if

section \<open>Tables\<close>

text \<open>The loop \<^verbatim>\<open>for(p = tab; p < &tab[N]; p++) if(P(p)) goto found;\<close>: the first slot satisfying
  \<open>P\<close>.\<close>

fun find_slot :: "('a \<Rightarrow> bool) \<Rightarrow> 'a list \<Rightarrow> nat option" where
  "find_slot P [] = None"
| "find_slot P (x # xs) = (if P x then Some 0 else map_option Suc (find_slot P xs))"

lemma find_slot_Some_iff:
  "find_slot P xs = Some i \<longleftrightarrow> i < length xs \<and> P (xs ! i) \<and> (\<forall>j<i. \<not> P (xs ! j))"
proof (induction xs arbitrary: i)
  case Nil
  show ?case by simp
next
  case (Cons x xs)
  show ?case
  proof (cases i)
    case 0
    then show ?thesis by auto
  next
    case (Suc k)
    have "find_slot P (x # xs) = Some i \<longleftrightarrow> \<not> P x \<and> find_slot P xs = Some k"
      using Suc by auto
    also have "\<dots> \<longleftrightarrow> \<not> P x \<and> k < length xs \<and> P (xs ! k) \<and> (\<forall>j<k. \<not> P (xs ! j))"
      by (simp add: Cons.IH)
    also have "\<dots> \<longleftrightarrow> i < length (x # xs) \<and> P ((x # xs) ! i) \<and> (\<forall>j<i. \<not> P ((x # xs) ! j))"
      using Suc by (auto simp: less_Suc_eq_0_disj)
    finally show ?thesis .
  qed
qed

lemma find_slot_None_iff: "find_slot P xs = None \<longleftrightarrow> (\<forall>x \<in> set xs. \<not> P x)"
  by (induction xs) auto

lemma find_slot_SomeD:
  "find_slot P xs = Some i \<Longrightarrow> i < length xs \<and> P (xs ! i)"
  by (simp add: find_slot_Some_iff)

lemma find_slot_exists: "x \<in> set xs \<Longrightarrow> P x \<Longrightarrow> \<exists>i. find_slot P xs = Some i"
  by (cases "find_slot P xs") (auto simp: find_slot_None_iff)

text \<open>The update of one slot of a table in place.\<close>

definition upd_slot :: "nat \<Rightarrow> ('a \<Rightarrow> 'a) \<Rightarrow> 'a list \<Rightarrow> 'a list" where
  "upd_slot i f xs = xs[i := f (xs ! i)]"

lemma length_upd_slot [simp]: "length (upd_slot i f xs) = length xs"
  by (simp add: upd_slot_def)

lemma nth_upd_slot: "j < length xs \<Longrightarrow> upd_slot i f xs ! j = (if i = j then f (xs ! j) else xs ! j)"
  by (auto simp: upd_slot_def)

lemma nth_upd_slot_eq [simp]: "i < length xs \<Longrightarrow> upd_slot i f xs ! i = f (xs ! i)"
  by (simp add: nth_upd_slot)

lemma nth_upd_slot_neq [simp]: "i \<noteq> j \<Longrightarrow> upd_slot i f xs ! j = xs ! j"
  by (simp add: upd_slot_def)

lemma upd_slot_twice [simp]: "upd_slot i f (upd_slot i g xs) = upd_slot i (f \<circ> g) xs"
  by (cases "i < length xs") (simp_all add: upd_slot_def list_update_beyond)

lemma set_upd_slot_subset: "i < length xs \<Longrightarrow> set (upd_slot i f xs) \<subseteq> insert (f (xs ! i)) (set xs)"
  unfolding upd_slot_def by (rule set_update_subset_insert)

lemma find_slot_upd_slot [simp]:
  assumes "\<And>x. P (f x) = P x"
  shows "find_slot P (upd_slot i f xs) = find_slot P xs"
proof (induction xs arbitrary: i)
  case Nil
  show ?case by (simp add: upd_slot_def)
next
  case (Cons x xs)
  then show ?case using assms by (cases i) (simp_all add: upd_slot_def)
qed

lemma upd_slot_id [simp]: "upd_slot i (\<lambda>x. x) xs = xs"
  by (simp add: upd_slot_def)

lemma upd_slot_cong: "(i < length xs \<Longrightarrow> f (xs ! i) = g (xs ! i)) \<Longrightarrow> upd_slot i f xs = upd_slot i g xs"
  by (cases "i < length xs") (simp_all add: upd_slot_def list_update_beyond)

lemma upd_slot_same: "(i < length xs \<Longrightarrow> f (xs ! i) = xs ! i) \<Longrightarrow> upd_slot i f xs = xs"
  by (cases "i < length xs") (simp_all add: upd_slot_def list_update_beyond)

section \<open>Machine words\<close>

type_synonym u8 = "8 word"
type_synonym u16 = "16 word"
type_synonym u32 = "32 word"
type_synonym u64 = "64 word"

text \<open>The value of a C \<^verbatim>\<open>int\<close> held in a 32-bit word, and its test against zero.\<close>

abbreviation s32 :: "u32 \<Rightarrow> int" where
  "s32 w \<equiv> sint w"

definition newline :: char where "newline = CHR 0x0A"
definition NUL :: char where "NUL = CHR 0x00"

lemma unat_less_2p: "unat (w :: 'n::len word) < 2 ^ LENGTH('n)"
  by (rule unsigned_less)

lemma unat32_less [simp]: "unat (w :: u32) < 4294967296"
  using unat_less_2p [of w] by simp

lemma unat32_minus_1 [simp]: "unat (- 1 :: u32) = 4294967295"
  by (simp add: unsigned_minus_1_eq_mask mask_eq_exp_minus_1)

lemma sint_small: "unat w < 2 ^ 31 \<Longrightarrow> sint (w :: u32) = int (unat w)"
proof -
  assume w: "unat w < 2 ^ 31"
  have "uint w = int (unat w)" by (rule uint_nat)
  then have "uint w < 2 ^ 31" using w by (metis of_nat_less_iff of_nat_numeral of_nat_power)
  moreover have "- (2 ^ 31) \<le> uint w" by (rule order_trans [of _ 0]) simp_all
  ultimately have "signed_take_bit 31 (uint w) = uint w" by (intro signed_take_bit_int_eq_self)
  moreover have "sint w = signed_take_bit 31 (uint w)" by (simp add: sint_uint)
  ultimately show ?thesis using \<open>uint w = int (unat w)\<close> by metis
qed

lemma unat_add_small:
  fixes a b :: "'n::len word"
  assumes "unat a + unat b < 2 ^ LENGTH('n)"
  shows "unat (a + b) = unat a + unat b"
  using assms by (simp add: unat_word_ariths)

lemma unat_sub_le:
  fixes a b :: "'n::len word"
  assumes "b \<le> a"
  shows "unat (a - b) = unat a - unat b"
  using assms by (simp add: unat_sub)

lemma unat_of_nat_small:
  assumes "n < 2 ^ LENGTH('n)"
  shows "unat (of_nat n :: 'n::len word) = n"
  using assms by (simp add: unat_of_nat)

end
