(* ===== verification/Assignment1.thy ===== *)
theory Assignment1
  imports Xv6_Base "HOL-Library.Multiset"
begin

text \<open>
  The user-space exercises of \<^verbatim>\<open>Asg01/assignment1.c\<close>: sorting the bytes and the nibbles of a 64-bit
  number, building a linked list from a string, printing a number in hexadecimal, octal and binary,
  and drawing a figure with raw system calls. An \<^verbatim>\<open>int\<close> array is a list of integers; the contents of
  an uninitialised array are a parameter. \<^verbatim>\<open>malloc\<close> may fail: whether its \<open>k\<close>-th call succeeds is part of
  the heap.
\<close>

section \<open>Sorting\<close>

function bubble_inner :: "nat \<Rightarrow> nat \<Rightarrow> int list \<Rightarrow> int list" where
  "bubble_inner j m arr =
     (if j < m then
        bubble_inner (j + 1) m
          (if arr ! j > arr ! (j + 1) then arr[j := arr ! (j + 1), j + 1 := arr ! j] else arr)
      else arr)"
  by pat_completeness auto
termination
  by (relation "measure (\<lambda>(j, m, arr). m - j)") auto

function bubble_outer :: "nat \<Rightarrow> nat \<Rightarrow> int list \<Rightarrow> int list" where
  "bubble_outer i n arr =
     (if i < n - 1 then bubble_outer (i + 1) n (bubble_inner 0 (n - i - 1) arr) else arr)"
  by pat_completeness auto
termination
  by (relation "measure (\<lambda>(i, n, arr). n - i)") auto

definition bubble_sort :: "int list \<Rightarrow> nat \<Rightarrow> int list" where
  "bubble_sort arr n = bubble_outer 0 n arr"

definition byte_sort :: "u64 \<Rightarrow> u64" where
  "byte_sort arg =
     (let bytes = map (\<lambda>i. uint (drop_bit (i * 8) arg AND 0xff)) [0..<8];
          bytes = bubble_sort bytes 8
      in word_of_int (bytes ! 0) OR
         push_bit 8 (word_of_int (bytes ! 1)) OR
         push_bit 16 (word_of_int (bytes ! 2)) OR
         push_bit 24 (word_of_int (bytes ! 3)) OR
         push_bit 32 (word_of_int (bytes ! 4)) OR
         push_bit 40 (word_of_int (bytes ! 5)) OR
         push_bit 48 (word_of_int (bytes ! 6)) OR
         push_bit 56 (word_of_int (bytes ! 7)))"

definition nibble_sort :: "u64 \<Rightarrow> u64" where
  "nibble_sort arg =
     (let nums = map (\<lambda>i. uint (drop_bit (i * 4) arg AND 0xf)) [0..<16];
          nums = bubble_sort nums 16
      in word_of_int (nums ! 0) OR
         push_bit 4 (word_of_int (nums ! 1)) OR
         push_bit 8 (word_of_int (nums ! 2)) OR
         push_bit 12 (word_of_int (nums ! 3)) OR
         push_bit 16 (word_of_int (nums ! 4)) OR
         push_bit 20 (word_of_int (nums ! 5)) OR
         push_bit 24 (word_of_int (nums ! 6)) OR
         push_bit 28 (word_of_int (nums ! 7)) OR
         push_bit 32 (word_of_int (nums ! 8)) OR
         push_bit 36 (word_of_int (nums ! 9)) OR
         push_bit 40 (word_of_int (nums ! 10)) OR
         push_bit 44 (word_of_int (nums ! 11)) OR
         push_bit 48 (word_of_int (nums ! 12)) OR
         push_bit 52 (word_of_int (nums ! 13)) OR
         push_bit 56 (word_of_int (nums ! 14)) OR
         push_bit 60 (word_of_int (nums ! 15)))"

section \<open>Linked lists\<close>

record elt =
  val :: u8
  link :: "nat option"

text \<open>The C heap: allocated cells, the next fresh address, how many times \<^verbatim>\<open>malloc\<close> was called, which
  of its calls succeed, and what fresh memory holds.\<close>

record cheap =
  cells :: "nat \<rightharpoonup> elt"
  fresh :: nat
  calls :: nat
  grants :: "nat \<Rightarrow> bool"
  junk :: elt

definition malloc :: "cheap \<Rightarrow> nat option \<times> cheap" where
  "malloc h =
     (let h' = h\<lparr>calls := calls h + 1\<rparr> in
      if grants h (calls h) then
        (Some (fresh h), h'\<lparr>cells := (cells h)(fresh h \<mapsto> junk h), fresh := fresh h + 1\<rparr>)
      else (None, h'))"

definition free :: "nat option \<Rightarrow> cheap \<Rightarrow> cheap" where
  "free p h = (case p of None \<Rightarrow> h | Some a \<Rightarrow> h\<lparr>cells := (cells h)(a := None)\<rparr>)"

text \<open>The counters \<^verbatim>\<open>size\<close> and \<^verbatim>\<open>i\<close> are C ints: \<^verbatim>\<open>++size\<close> past \<open>INT_MAX\<close> is undefined, and the result is then \<open>None\<close>. The index \<^verbatim>\<open>i\<close> of
  the second loop stays below the size found by the first.\<close>

definition INT_MAX :: nat where "INT_MAX = 2 ^ 31 - 1"

function str_size :: "(nat \<Rightarrow> u8) \<Rightarrow> u8 \<Rightarrow> nat \<Rightarrow> nat option" where
  "str_size str currChar n =
     (if currChar \<noteq> 0 then if n < INT_MAX then str_size str (str n) (n + 1) else None
      else Some n)"
  by pat_completeness auto
termination
  by (relation "measure (\<lambda>(str, currChar, n). INT_MAX - n)") auto

primrec str_build :: "(nat \<Rightarrow> u8) \<Rightarrow> nat \<Rightarrow> nat option \<Rightarrow> cheap \<Rightarrow> nat option \<times> cheap" where
  "str_build str 0 next h = (next, h)"
| "str_build str (Suc i) next h =
     (case malloc h of
        (None, h1) \<Rightarrow> (None, free next (free None h1))
      | (Some c, h1) \<Rightarrow>
          str_build str i (Some c) (h1\<lparr>cells := (cells h1)(c \<mapsto> \<lparr>val = str i, link = next\<rparr>)\<rparr>))"

definition str_to_list :: "(nat \<Rightarrow> u8) \<Rightarrow> cheap \<Rightarrow> (nat option \<times> cheap) option" where
  "str_to_list str h =
     (case str_size str (str 0) 1 of
        None \<Rightarrow> None
      | Some n \<Rightarrow> Some (str_build str (n - 1) None h))"

section \<open>Number conversion\<close>

text \<open>The first loop of the \<^verbatim>\<open>convert_\<close> functions, with the array it fills and the value of \<^verbatim>\<open>i\<close> it
  leaves; the second loop; and the third, over the \<^verbatim>\<open>switch\<close> of the function.\<close>

function digit_loop :: "u64 \<Rightarrow> nat \<Rightarrow> nat \<Rightarrow> u64 \<Rightarrow> int list \<Rightarrow> nat \<times> int list" where
  "digit_loop b n i currValue arr =
     (if i < n then
        let remainder = uint (currValue mod b);
            currValue = currValue div b;
            arr = arr[i := remainder]
        in if currValue = 0 then (i, arr) else digit_loop b n (i + 1) currValue arr
      else (i, arr))"
  by pat_completeness auto
termination
  by (relation "measure (\<lambda>(b, n, i, v, arr). n - i)") auto

function zero_fill :: "nat \<Rightarrow> nat \<Rightarrow> int list \<Rightarrow> int list" where
  "zero_fill n i arr = (if i < n then zero_fill n (i + 1) (arr[i := 0]) else arr)"
  by pat_completeness auto
termination
  by (relation "measure (\<lambda>(n, i, arr). n - i)") auto

definition digit_array :: "u64 \<Rightarrow> nat \<Rightarrow> int list \<Rightarrow> u64 \<Rightarrow> int list" where
  "digit_array b n arr value =
     (case digit_loop b n 0 value arr of (i, arr) \<Rightarrow> zero_fill n (i + 1) arr)"

definition hex_case :: "int \<Rightarrow> char option" where
  "hex_case d =
     (if d = 0 then Some CHR ''0'' else if d = 1 then Some CHR ''1'' else
      if d = 2 then Some CHR ''2'' else if d = 3 then Some CHR ''3'' else
      if d = 4 then Some CHR ''4'' else if d = 5 then Some CHR ''5'' else
      if d = 6 then Some CHR ''6'' else if d = 7 then Some CHR ''7'' else
      if d = 8 then Some CHR ''8'' else if d = 9 then Some CHR ''9'' else
      if d = 10 then Some CHR ''a'' else if d = 11 then Some CHR ''b'' else
      if d = 12 then Some CHR ''c'' else if d = 13 then Some CHR ''d'' else
      if d = 14 then Some CHR ''e'' else if d = 15 then Some CHR ''f'' else None)"

definition bin_case :: "int \<Rightarrow> char option" where
  "bin_case d = (if d = 0 then Some CHR ''0'' else if d = 1 then Some CHR ''1'' else None)"

definition oct_case :: "int \<Rightarrow> char option" where
  "oct_case d =
     (if d = 0 then Some CHR ''0'' else if d = 1 then Some CHR ''1'' else
      if d = 2 then Some CHR ''2'' else if d = 3 then Some CHR ''3'' else
      if d = 4 then Some CHR ''4'' else if d = 5 then Some CHR ''5'' else
      if d = 6 then Some CHR ''6'' else if d = 7 then Some CHR ''7'' else None)"

text \<open>A digit with no case leaves the byte of the result as \<^verbatim>\<open>malloc\<close> returned it (\<open>res\<close>). The result
  \<open>None\<close> is a store through the null pointer, when \<^verbatim>\<open>malloc\<close> failed.\<close>

definition fill_chars :: "(int \<Rightarrow> char option) \<Rightarrow> int list \<Rightarrow> string \<Rightarrow> string" where
  "fill_chars sw arr res = map (\<lambda>(d, c). case sw d of Some c' \<Rightarrow> c' | None \<Rightarrow> c) (zip arr res)"

definition convert_hex :: "int list \<Rightarrow> string option \<Rightarrow> u64 \<Rightarrow> string option" where
  "convert_hex arr res value =
     (let arr = digit_array 16 16 arr value in map_option (fill_chars hex_case arr) res)"

definition convert_bin :: "int list \<Rightarrow> string option \<Rightarrow> u64 \<Rightarrow> string option" where
  "convert_bin arr res value =
     (let arr = digit_array 2 64 arr value in map_option (fill_chars bin_case arr) res)"

definition convert_oct :: "int list \<Rightarrow> string option \<Rightarrow> u64 \<Rightarrow> string option" where
  "convert_oct arr res value =
     (let arr = digit_array 8 24 arr value in map_option (fill_chars oct_case arr) res)"

datatype format_t = HEX | BIN | OCT | OtherFormat

definition nl :: string where "nl = [CHR 0x0A]"

text \<open>What \<^verbatim>\<open>convert\<close> writes to standard output; \<open>arr\<close> is the uninitialised array of the conversion
  function and \<open>res\<close> what \<^verbatim>\<open>malloc\<close> gives it.\<close>

definition convert :: "int list \<Rightarrow> string option \<Rightarrow> format_t \<Rightarrow> u64 \<Rightarrow> string option" where
  "convert arr res mode value =
     (case mode of
        HEX \<Rightarrow> map_option (\<lambda>s. rev s @ nl) (convert_hex arr res value)
      | BIN \<Rightarrow> map_option (\<lambda>s. rev s @ nl) (convert_bin arr res value)
      | OCT \<Rightarrow> map_option (\<lambda>s. rev s @ nl) (convert_oct arr res value)
      | OtherFormat \<Rightarrow> Some '''')"

section \<open>Drawing\<close>

text \<open>The raw system calls of \<^verbatim>\<open>draw_u\<close>, in order. What the operating system answers to a call after
  the calls made so far is the parameter \<open>os\<close>.\<close>

datatype sysreq = Creat string int int | Write int string int | Close int

definition draw_u :: "(sysreq list \<Rightarrow> sysreq \<Rightarrow> int) \<Rightarrow> sysreq list" where
  "draw_u os =
     (let c = Creat ''u.txt'' (2 OR 512) (64 OR 256);
          fd = os [] c;
          t0 = [c];
          t1 = (if fd = -1 then t0 @ [Close fd] else t0);
          w = Write fd (''| |'' @ nl) 4;
          line1 = os t1 w;
          t2 = t1 @ [w];
          line2 = os t2 w;
          t3 = t2 @ [w];
          w3 = Write fd ''___'' 3;
          line3 = os t3 w3;
          t4 = t3 @ [w3];
          t5 = (if line1 = -1 \<or> line2 = -1 \<or> line3 = -1 then t4 @ [Close fd] else t4)
      in t5 @ [Close fd])"

section \<open>Bubble sort sorts\<close>

declare bubble_inner.simps [simp del] bubble_outer.simps [simp del]
declare digit_loop.simps [simp del] zero_fill.simps [simp del] str_size.simps [simp del]

lemma mset_swap_adjacent:
  assumes "Suc j < length xs"
  shows "mset (xs[j := xs ! Suc j, Suc j := xs ! j]) = mset xs"
  using mset_swap [of "Suc j" xs j] assms by simp

lemma bubble_inner_props:
  assumes "m < length arr" "j \<le> m" "\<forall>k<j. arr ! k \<le> arr ! j"
  shows "length (bubble_inner j m arr) = length arr \<and> mset (bubble_inner j m arr) = mset arr
    \<and> (\<forall>k\<le>m. bubble_inner j m arr ! k \<le> bubble_inner j m arr ! m)
    \<and> (\<forall>k>m. k < length arr \<longrightarrow> bubble_inner j m arr ! k = arr ! k)
    \<and> (\<forall>k\<le>m. \<exists>k'\<le>m. bubble_inner j m arr ! k = arr ! k')"
  using assms
proof (induction j m arr rule: bubble_inner.induct)
  case (1 j m arr)
  show ?case
  proof (cases "j < m")
    case False
    then have "bubble_inner j m arr = arr" by (simp add: bubble_inner.simps [of j m arr])
    moreover have "\<forall>k\<le>m. arr ! k \<le> arr ! m" using False "1.prems" by (metis le_antisym le_less not_le)
    ultimately show ?thesis by auto
  next
    case True
    define a where "a = (if arr ! j > arr ! (j + 1) then arr[j := arr ! (j + 1), j + 1 := arr ! j] else arr)"
    have step: "bubble_inner j m arr = bubble_inner (j + 1) m a"
      using True by (simp add: bubble_inner.simps [of j m arr] a_def)
    have len: "length a = length arr" by (simp add: a_def)
    have ms: "mset a = mset arr" using True 1 by (simp add: a_def mset_swap_adjacent)
    have up: "\<forall>k<j + 1. a ! k \<le> a ! (j + 1)"
      using True "1.prems" by (auto simp: a_def nth_list_update less_Suc_eq intro: order_trans)
    have same: "\<forall>k>m. k < length arr \<longrightarrow> a ! k = arr ! k" using True by (simp add: a_def)
    have orig: "\<forall>k\<le>m. \<exists>k'\<le>m. a ! k = arr ! k'"
      using True "1.prems" by (auto simp: a_def nth_list_update intro: exI [of _ j] exI [of _ "Suc j"])
    have IH: "length (bubble_inner (j + 1) m a) = length a \<and> mset (bubble_inner (j + 1) m a) = mset a
      \<and> (\<forall>k\<le>m. bubble_inner (j + 1) m a ! k \<le> bubble_inner (j + 1) m a ! m)
      \<and> (\<forall>k>m. k < length a \<longrightarrow> bubble_inner (j + 1) m a ! k = a ! k)
      \<and> (\<forall>k\<le>m. \<exists>k'\<le>m. bubble_inner (j + 1) m a ! k = a ! k')"
      unfolding a_def by (rule "1.IH" [OF True]) (use True "1.prems" up len in \<open>auto simp: a_def\<close>)
    then show ?thesis unfolding step len ms using same orig len by metis
  qed
qed

definition tail_sorted :: "int list \<Rightarrow> nat \<Rightarrow> bool" where
  "tail_sorted xs i \<longleftrightarrow> (\<forall>k l. k \<le> l \<and> i \<le> l \<and> l < length xs \<longrightarrow> xs ! k \<le> xs ! l)"

lemma bubble_outer_props:
  assumes "n = length arr" "i \<le> n" "tail_sorted arr (n - i)"
  shows "mset (bubble_outer i n arr) = mset arr \<and> sorted (bubble_outer i n arr)"
  using assms
proof (induction i n arr rule: bubble_outer.induct)
  case (1 i n arr)
  show ?case
  proof (cases "i < n - 1")
    case False
    then have "n - i \<le> 1" using "1.prems" by auto
    then have "arr ! k \<le> arr ! l" if "k \<le> l" "l < length arr" for k l
      using that "1.prems" by (cases "l = 0") (auto simp: tail_sorted_def)
    then have "sorted arr" by (simp add: sorted_iff_nth_mono)
    with False show ?thesis by (simp add: bubble_outer.simps [of i n arr])
  next
    case True
    define b where "b = bubble_inner 0 (n - i - 1) arr"
    have "n - i - 1 < length arr" using True "1.prems" by auto
    then have p: "length b = length arr \<and> mset b = mset arr \<and> (\<forall>k\<le>n - i - 1. b ! k \<le> b ! (n - i - 1))
      \<and> (\<forall>k>n - i - 1. k < length arr \<longrightarrow> b ! k = arr ! k) \<and> (\<forall>k\<le>n - i - 1. \<exists>k'\<le>n - i - 1. b ! k = arr ! k')"
      unfolding b_def by (rule bubble_inner_props) auto
    then have len: "length b = length arr" and ms: "mset b = mset arr" by auto
    have "b ! k \<le> b ! l" if kl: "k \<le> l" "n - (i + 1) \<le> l" "l < length b" for k l
    proof (cases "l = n - i - 1")
      case True
      then show ?thesis using p kl by auto
    next
      case False
      then have l: "b ! l = arr ! l" "n - i \<le> l" using p kl by auto
      have tail: "arr ! k' \<le> arr ! l" if "k' \<le> l" for k'
        using "1.prems" that l(2) kl(3) len unfolding tail_sorted_def by auto
      show ?thesis
      proof (cases "k \<le> n - i - 1")
        case True
        then obtain k' where "k' \<le> n - i - 1" "b ! k = arr ! k'" using p by blast
        then show ?thesis using tail [of k'] l by simp
      next
        case False
        then have "b ! k = arr ! k" using p kl by auto
        then show ?thesis using tail [of k] l kl(1) by simp
      qed
    qed
    then have "tail_sorted b (n - (i + 1))" by (simp add: tail_sorted_def)
    then have "mset (bubble_outer (i + 1) n b) = mset b \<and> sorted (bubble_outer (i + 1) n b)"
      unfolding b_def by (intro "1.IH" [OF True]) (use True "1.prems" len in \<open>auto simp: b_def\<close>)
    moreover have "bubble_outer i n arr = bubble_outer (i + 1) n b"
      using True by (simp add: bubble_outer.simps [of i n arr] b_def)
    ultimately show ?thesis by (simp add: ms)
  qed
qed

lemma bubble_sort_sort: "n = length arr \<Longrightarrow> bubble_sort arr n = sort arr"
  using bubble_outer_props [of n arr 0] by (auto simp: bubble_sort_def tail_sorted_def intro!: properties_for_sort [symmetric])

section \<open>Digits of a word\<close>

text \<open>The digits of width \<open>w\<close> of a 64-bit number, lowest first, and the number made of digits.\<close>

definition digits :: "nat \<Rightarrow> nat \<Rightarrow> u64 \<Rightarrow> int list" where
  "digits w n x = map (\<lambda>i. uint (take_bit w (drop_bit (i * w) x))) [0..<n]"

primrec pack :: "nat \<Rightarrow> int list \<Rightarrow> u64" where
  "pack w [] = 0"
| "pack w (d # ds) = word_of_int d OR push_bit w (pack w ds)"

locale digit_packing =
  fixes w n :: nat
  assumes wn: "w * n = 64" and w_pos: "0 < w"
begin

lemma bit_pack:
  assumes "\<forall>d\<in>set ds. 0 \<le> d \<and> d < 2 ^ w"
  shows "bit (pack w ds) k \<longleftrightarrow> k < 64 \<and> k div w < length ds \<and> bit (ds ! (k div w)) (k mod w)"
  using assms
proof (induction ds arbitrary: k)
  case Nil
  show ?case by simp
next
  case (Cons d ds)
  then have "take_bit w d = d" by (simp add: take_bit_int_eq_self)
  then have hi: "\<not> bit d k" if "w \<le> k" for k using that by (metis bit_take_bit_iff not_le)
  have "bit (pack w (d # ds)) k \<longleftrightarrow> k < 64 \<and> (bit d k \<or> w \<le> k \<and> bit (pack w ds) (k - w))"
    by (auto simp: bit_simps)
  also have "\<dots> \<longleftrightarrow> k < 64 \<and> k div w < length (d # ds) \<and> bit ((d # ds) ! (k div w)) (k mod w)"
  proof (cases "w \<le> k")
    case True
    then have "k div w = Suc ((k - w) div w)" "k mod w = (k - w) mod w"
      using w_pos by (simp_all add: le_div_geq le_mod_geq)
    then show ?thesis using Cons hi [OF True] True by auto
  next
    case False
    then show ?thesis by auto
  qed
  finally show ?case .
qed

lemma digits_pack:
  assumes "length ds = n" "\<forall>d\<in>set ds. 0 \<le> d \<and> d < 2 ^ w"
  shows "digits w n (pack w ds) = ds"
proof (rule nth_equalityI)
  show "length (digits w n (pack w ds)) = length ds" using assms by (simp add: digits_def)
  fix i assume "i < length (digits w n (pack w ds))"
  then have i: "i < n" "i < length ds" using assms by (simp_all add: digits_def)
  have "0 \<le> ds ! i" "ds ! i < 2 ^ w" using assms(2) nth_mem [OF i(2)] by auto
  then have t: "take_bit w (ds ! i) = ds ! i" by (simp add: take_bit_int_eq_self)
  have "uint (take_bit w (drop_bit (i * w) (pack w ds))) = ds ! i"
  proof (rule bit_eqI)
    fix k
    have "bit (ds ! i) k \<longleftrightarrow> k < w \<and> bit (ds ! i) k" by (subst (1) t [symmetric]) (simp add: bit_take_bit_iff)
    moreover have "i * w + k < 64" if "k < w"
    proof -
      have "i * w + k < Suc i * w" using that by simp
      also have "\<dots> \<le> n * w" using i by (intro mult_le_mono1) simp
      finally show ?thesis using wn by (simp add: mult.commute)
    qed
    ultimately show "bit (uint (take_bit w (drop_bit (i * w) (pack w ds)))) k = bit (ds ! i) k"
      using i by (auto simp: bit_simps bit_pack [OF assms(2)] div_mult_self3)
  qed
  then show "digits w n (pack w ds) ! i = ds ! i" using i by (simp add: digits_def)
qed

lemma digits_range: "\<forall>d\<in>set (digits w n x). 0 \<le> d \<and> d < 2 ^ w"
  by (auto simp: digits_def unsigned_take_bit_eq)

lemma length_digits [simp]: "length (digits w n x) = n"
  by (simp add: digits_def)

lemma digits_sorted: "digits w n (pack w (bubble_sort (digits w n x) n)) = sort (digits w n x)"
proof -
  have "bubble_sort (digits w n x) n = sort (digits w n x)" by (simp add: bubble_sort_sort)
  then show ?thesis using digits_pack [of "sort (digits w n x)"] digits_range by simp
qed

end

interpretation bytes: digit_packing 8 8 by unfold_locales simp_all
interpretation nibbles: digit_packing 4 16 by unfold_locales simp_all

lemma upt_8: "[0..<8] = [0, 1, 2, 3, 4, 5, 6, 7 :: nat]"
  by (simp add: upt_rec)

lemma upt_16: "[0..<16] = [0, 1, 2, 3, 4, 5, 6, 7, 8, 9, 10, 11, 12, 13, 14, 15 :: nat]"
  by (simp add: upt_rec)

lemma list_eq_nths: "length xs = n \<Longrightarrow> xs = map ((!) xs) [0..<n]"
  by (auto simp: map_nth)

lemma byte_sort_pack: "byte_sort x = pack 8 (bubble_sort (digits 8 8 x) 8)"
proof -
  define ds where "ds = bubble_sort (digits 8 8 x) 8"
  have "length ds = 8" by (simp add: ds_def bubble_sort_sort)
  then have ds: "ds = map ((!) ds) [0..<8]" by (rule list_eq_nths)
  have "map (\<lambda>i. uint (drop_bit (i * 8) x AND 0xff)) [0..<8] = digits 8 8 x"
    by (simp add: digits_def take_bit_eq_mask mask_eq_exp_minus_1)
  then have "byte_sort x = pack 8 (map ((!) ds) [0..<8])"
    by (simp add: byte_sort_def Let_def ds_def [symmetric] upt_8 push_bit_or)
  then show ?thesis using ds by (simp add: ds_def)
qed

lemma nibble_sort_pack: "nibble_sort x = pack 4 (bubble_sort (digits 4 16 x) 16)"
proof -
  define ds where "ds = bubble_sort (digits 4 16 x) 16"
  have "length ds = 16" by (simp add: ds_def bubble_sort_sort)
  then have ds: "ds = map ((!) ds) [0..<16]" by (rule list_eq_nths)
  have "map (\<lambda>i. uint (drop_bit (i * 4) x AND 0xf)) [0..<16] = digits 4 16 x"
    by (simp add: digits_def take_bit_eq_mask mask_eq_exp_minus_1)
  then have "nibble_sort x = pack 4 (map ((!) ds) [0..<16])"
    by (simp add: nibble_sort_def Let_def ds_def [symmetric] upt_16 push_bit_or)
  then show ?thesis using ds by (simp add: ds_def)
qed

section \<open>Number conversion prints the number\<close>

lemma zero_fill_spec:
  "length (zero_fill n i arr) = length arr \<and>
   (\<forall>k<length arr. zero_fill n i arr ! k = (if i \<le> k \<and> k < n then 0 else arr ! k))"
  by (induction n i arr rule: zero_fill.induct)
    (subst (1 2) zero_fill.simps, auto simp: nth_list_update)

lemma digit_fill_spec:
  assumes "length arr = n" "i \<le> n"
  shows "(case digit_loop b n i v arr of (i', arr') \<Rightarrow> zero_fill n (i' + 1) arr')
    = map (\<lambda>k. if k < i then arr ! k else uint v div uint b ^ (k - i) mod uint b) [0..<n]"
  using assms
proof (induction b n i v arr rule: digit_loop.induct)
  case (1 b n i v arr)
  show ?case
  proof (cases "i < n")
    case False
    with 1 have "i = n" by simp
    then show ?thesis
      using zero_fill_spec [of n "n + 1" arr] 1
      by (auto simp: digit_loop.simps [of b n n] intro!: nth_equalityI)
  next
    case True
    define r where "r = uint (v mod b)"
    define a where "a = arr[i := r]"
    have r: "r = uint v mod uint b" by (simp add: r_def uint_mod)
    show ?thesis
    proof (cases "v div b = 0")
      case stop: True
      then have "uint v div uint b = 0" by (metis unsigned_0 uint_div)
      then have z: "uint v div uint b ^ (k - i) = 0" if "i < k" for k
        using that by (cases "k - i") (auto simp: zdiv_zmult2_eq)
      show ?thesis
        using True stop "1.prems" zero_fill_spec [of n "i + 1" a] z
        by (auto simp: digit_loop.simps [of b n i] a_def r_def [symmetric] Let_def r nth_list_update intro!: nth_equalityI)
    next
      case go: False
      have step: "digit_loop b n i v arr = digit_loop b n (i + 1) (v div b) a"
        using True go by (subst digit_loop.simps) (simp add: a_def r_def Let_def)
      have "(case digit_loop b n (i + 1) (v div b) a of (i', arr') \<Rightarrow> zero_fill n (i' + 1) arr')
        = map (\<lambda>k. if k < i + 1 then a ! k else uint (v div b) div uint b ^ (k - (i + 1)) mod uint b) [0..<n]"
        unfolding a_def r_def by (rule "1.IH") (use True go "1.prems" in auto)
      also have "\<dots> = map (\<lambda>k. if k < i then arr ! k else uint v div uint b ^ (k - i) mod uint b) [0..<n]"
      proof (rule map_cong [OF refl], goal_cases)
        case (1 k)
        have "k - i = Suc (k - Suc i)" if "i < k" using that by simp
        then show ?case using 1 True "1.prems"
          by (auto simp: a_def r nth_list_update uint_div zdiv_zmult2_eq less_Suc_eq)
      qed
      finally show ?thesis unfolding step .
    qed
  qed
qed

lemma digit_array_spec:
  "length arr = n \<Longrightarrow> digit_array b n arr v = map (\<lambda>k. uint v div uint b ^ k mod uint b) [0..<n]"
  using digit_fill_spec [of arr n 0 b v] by (simp add: digit_array_def)

text \<open>The number a string of digits denotes.\<close>

definition digit_value :: "char \<Rightarrow> int" where
  "digit_value c = (let k = of_char c in if k \<le> 57 then k - 48 else k - 87)"

definition parse :: "int \<Rightarrow> string \<Rightarrow> int" where
  "parse b s = foldl (\<lambda>a c. a * b + digit_value c) 0 s"

lemma parse_rev: "parse b (rev s) = foldr (\<lambda>c a. digit_value c + b * a) s 0"
  by (simp add: parse_def foldl_conv_foldr algebra_simps)

lemma foldr_digits:
  fixes b v :: int
  assumes "0 < b"
  shows "foldr (\<lambda>d a. d + b * a) (map (\<lambda>k. v div b ^ k mod b) [0..<n]) 0 = v mod b ^ n"
proof (induction n arbitrary: v)
  case 0
  show ?case by simp
next
  case (Suc n)
  have "map (\<lambda>k. v div b ^ k mod b) [0..<Suc n] = (v mod b) # map (\<lambda>k. v div b div b ^ k mod b) [0..<n]"
    using assms by (simp add: upt_conv_Cons map_Suc_upt [symmetric] zdiv_zmult2_eq del: upt_Suc)
  then show ?case using Suc [of "v div b"] assms by (simp add: zmod_zmult2_eq)
qed

locale radix =
  fixes base :: u64 and n :: nat and sw :: "int \<Rightarrow> char option"
  assumes base: "1 < uint base" and enough: "2 ^ 64 \<le> uint base ^ n"
    and sw: "0 \<le> d \<Longrightarrow> d < uint base \<Longrightarrow> \<exists>c. sw d = Some c \<and> digit_value c = d"
begin

lemma fill_parse:
  assumes "length arr = n" "length res = n"
  shows "parse (uint base) (rev (fill_chars sw (digit_array base n arr v) res)) = uint v"
proof -
  define ds where "ds = map (\<lambda>k. uint v div uint base ^ k mod uint base) [0..<n]"
  have ds: "digit_array base n arr v = ds" using assms(1) by (simp add: digit_array_spec ds_def)
  have "map digit_value (fill_chars sw ds res) = ds"
  proof (rule nth_equalityI)
    fix i assume i: "i < length (map digit_value (fill_chars sw ds res))"
    then have "0 \<le> ds ! i" "ds ! i < uint base"
      using base assms by (auto simp: ds_def fill_chars_def)
    then obtain c where "sw (ds ! i) = Some c" "digit_value c = ds ! i" using sw by blast
    then show "map digit_value (fill_chars sw ds res) ! i = ds ! i"
      using i by (simp add: fill_chars_def)
  qed (use assms in \<open>simp add: ds_def fill_chars_def\<close>)
  then have "foldr (\<lambda>c a. digit_value c + uint base * a) (fill_chars sw ds res) 0
      = foldr (\<lambda>d a. d + uint base * a) ds 0"
    by (metis (mono_tags, lifting) comp_apply foldr_cong foldr_map)
  also have "\<dots> = uint v mod uint base ^ n" unfolding ds_def using base by (intro foldr_digits) simp
  also have "\<dots> = uint v"
    using enough uint_lt2p [of v] by (intro mod_pos_pos_trivial) auto
  finally show ?thesis by (simp add: ds parse_rev)
qed

lemma length_fill: "length arr = n \<Longrightarrow> length res = n \<Longrightarrow> length (fill_chars sw (digit_array base n arr v) res) = n"
  by (simp add: fill_chars_def digit_array_spec)

end

lemma nonneg_less_cases:
  fixes d :: int
  assumes "0 \<le> d" "d < 16"
  shows "d \<in> {0, 1, 2, 3, 4, 5, 6, 7, 8, 9, 10, 11, 12, 13, 14, 15}"
  using assms unfolding insert_iff empty_iff by presburger

interpretation hex: radix 16 16 hex_case
proof
  fix d :: int assume "0 \<le> d" "d < uint (16 :: u64)"
  then have "d \<in> {0, 1, 2, 3, 4, 5, 6, 7, 8, 9, 10, 11, 12, 13, 14, 15}" by (intro nonneg_less_cases) auto
  then show "\<exists>c. hex_case d = Some c \<and> digit_value c = d"
    by (elim insertE emptyE) (simp_all add: hex_case_def digit_value_def)
qed simp_all

interpretation oct: radix 8 24 oct_case
proof
  fix d :: int assume "0 \<le> d" "d < uint (8 :: u64)"
  then have "d \<in> {0, 1, 2, 3, 4, 5, 6, 7}" by auto
  then show "\<exists>c. oct_case d = Some c \<and> digit_value c = d"
    by (elim insertE emptyE) (simp_all add: oct_case_def digit_value_def)
qed simp_all

interpretation bin: radix 2 64 bin_case
proof
  fix d :: int assume "0 \<le> d" "d < uint (2 :: u64)"
  then have "d \<in> {0, 1}" by auto
  then show "\<exists>c. bin_case d = Some c \<and> digit_value c = d"
    by (elim insertE emptyE) (simp_all add: bin_case_def digit_value_def)
qed simp_all

section \<open>Linked lists\<close>

primrec elts :: "(nat \<rightharpoonup> elt) \<Rightarrow> nat option \<Rightarrow> u8 list \<Rightarrow> bool" where
  "elts c p [] = (p = None)"
| "elts c p (x # xs) = (\<exists>a l. p = Some a \<and> c a = Some \<lparr>val = x, link = l\<rparr> \<and> elts c l xs)"

definition heap_ok :: "cheap \<Rightarrow> bool" where
  "heap_ok h \<longleftrightarrow> (\<forall>a e. cells h a = Some e \<longrightarrow> a < fresh h)"

lemma elts_new: "elts c p xs \<Longrightarrow> a \<notin> dom c \<Longrightarrow> elts (c(a \<mapsto> e)) p xs"
  by (induction xs arbitrary: p) (auto simp: domIff)

lemma str_build_ok:
  assumes "heap_ok h" "elts (cells h) next xs" "\<forall>k<i. grants h (calls h + k)"
  shows "\<exists>p h'. str_build str i next h = (p, h') \<and> elts (cells h') p (map str [0..<i] @ xs)
    \<and> dom (cells h') = dom (cells h) \<union> {fresh h..<fresh h + i}"
  using assms
proof (induction i arbitrary: "next" h xs)
  case 0
  then show ?case by simp
next
  case (Suc i)
  define h1 where "h1 = h\<lparr>calls := calls h + 1, fresh := fresh h + 1, cells := (cells h)(fresh h \<mapsto> \<lparr>val = str i, link = next\<rparr>)\<rparr>"
  have new: "fresh h \<notin> dom (cells h)" using Suc.prems(1) by (auto simp: heap_ok_def)
  have "str_build str (Suc i) next h = str_build str i (Some (fresh h)) h1"
    using Suc.prems(3) by (auto simp: malloc_def Let_def h1_def)
  moreover have "heap_ok h1" using Suc.prems(1) by (auto simp: heap_ok_def h1_def intro: less_SucI)
  moreover have "elts (cells h1) (Some (fresh h)) (str i # xs)"
    using elts_new [OF Suc.prems(2) new] by (simp add: h1_def)
  moreover have "\<forall>k<i. grants h1 (calls h1 + k)" using Suc.prems(3) by (auto simp: h1_def)
  moreover have "dom (cells h1) \<union> {fresh h1..<fresh h1 + i} = dom (cells h) \<union> {fresh h..<fresh h + Suc i}"
    by (auto simp: h1_def)
  ultimately show ?case using Suc.IH [of h1 "Some (fresh h)" "str i # xs"] by auto
qed

text \<open>When the \<open>k\<close>-th further \<^verbatim>\<open>malloc\<close> fails, only the cell allocated last is freed.\<close>

lemma str_build_fails:
  assumes "heap_ok h" "k < i" "\<forall>j<k. grants h (calls h + j)" "\<not> grants h (calls h + k)"
    "case next of None \<Rightarrow> True | Some a \<Rightarrow> a < fresh h"
  shows "\<exists>h'. str_build str i next h = (None, h') \<and>
    dom (cells h') = (if k = 0 then dom (cells h) - set_option next else dom (cells h) \<union> {fresh h..<fresh h + k - 1})"
  using assms
proof (induction k arbitrary: i "next" h)
  case 0
  then obtain i' where "i = Suc i'" by (cases i) auto
  with 0 show ?case by (auto simp: malloc_def free_def Let_def split: option.splits)
next
  case (Suc k)
  then obtain i' where i: "i = Suc i'" "k < i'" by (cases i) auto
  define h1 where "h1 = h\<lparr>calls := calls h + 1, fresh := fresh h + 1, cells := (cells h)(fresh h \<mapsto> \<lparr>val = str i', link = next\<rparr>)\<rparr>"
  have "str_build str i next h = str_build str i' (Some (fresh h)) h1"
    using Suc.prems(3) by (auto simp: i malloc_def Let_def h1_def)
  moreover have "\<exists>h'. str_build str i' (Some (fresh h)) h1 = (None, h') \<and> dom (cells h')
    = (if k = 0 then dom (cells h1) - set_option (Some (fresh h)) else dom (cells h1) \<union> {fresh h1..<fresh h1 + k - 1})"
    by (rule Suc.IH) (use Suc.prems i in \<open>auto simp: h1_def heap_ok_def intro: less_SucI\<close>)
  moreover have "(if k = 0 then dom (cells h1) - set_option (Some (fresh h)) else dom (cells h1) \<union> {fresh h1..<fresh h1 + k - 1})
    = dom (cells h) \<union> {fresh h..<fresh h + Suc k - 1}"
  proof -
    have "fresh h \<notin> dom (cells h)" using Suc.prems(1) by (auto simp: heap_ok_def)
    then show ?thesis by (cases k) (auto simp: h1_def)
  qed
  ultimately show ?case by simp
qed

lemma str_size_first:
  assumes "str (n + k) = 0" "\<forall>i<k. str (n + i) \<noteq> 0" "n + k < INT_MAX"
  shows "str_size str (str n) (Suc n) = Some (Suc (n + k))"
  using assms
proof (induction k arbitrary: n)
  case 0
  then show ?case by (subst str_size.simps) simp
next
  case (Suc k)
  have "str_size str (str (Suc n)) (Suc (Suc n)) = Some (Suc (Suc n + k))"
    using Suc.prems by (intro Suc.IH) auto
  moreover have "str n \<noteq> 0" using Suc.prems(2) by (metis add_0_right zero_less_Suc)
  ultimately show ?case using Suc.prems(3) by (subst str_size.simps) simp
qed

lemma str_to_list_build:
  assumes "str n = 0" "\<forall>i<n. str i \<noteq> 0" "n < INT_MAX"
  shows "str_to_list str h = Some (str_build str n None h)"
  using str_size_first [of str 0 n] assms by (simp add: str_to_list_def)

text \<open>\<^verbatim>\<open>draw_u\<close> writes the three lines to the file it created and closes it, but a failed write makes it
  close the same descriptor twice.\<close>

lemma draw_u_trace:
  assumes "os [] (Creat ''u.txt'' 514 320) = fd" "fd \<noteq> -1"
  shows "\<exists>cl. draw_u os = [Creat ''u.txt'' 514 320, Write fd (''| |'' @ nl) 4, Write fd (''| |'' @ nl) 4, Write fd ''___'' 3] @ cl
    \<and> cl \<in> {[Close fd], [Close fd, Close fd]}"
  using assms by (auto simp: draw_u_def Let_def)

section \<open>Properties\<close>

text \<open>C15. \<^verbatim>\<open>byte_sort\<close> and \<^verbatim>\<open>nibble_sort\<close> return the number whose bytes, or nibbles, from the lowest to the
  highest are those of the argument in ascending order.\<close>

theorem digit_sorts_correct:
  "digits 8 8 (byte_sort x) = sort (digits 8 8 x) \<and> digits 4 16 (nibble_sort x) = sort (digits 4 16 x)"
  using bytes.digits_sorted [of x] nibbles.digits_sorted [of x] by (simp add: byte_sort_pack nibble_sort_pack)

text \<open>C16. When memory suffices, \<^verbatim>\<open>str_to_list\<close> of a string of \<open>n\<close> characters, few enough for a C int to count them, returns a list whose cells
  hold exactly these characters in order, allocates \<open>n\<close> new cells and keeps all others.\<close>

theorem str_to_list_correct:
  assumes "str n = 0" "\<forall>i<n. str i \<noteq> 0" "n < INT_MAX" "heap_ok h" "\<forall>k<n. grants h (calls h + k)"
  shows "\<exists>p h'. str_to_list str h = Some (p, h') \<and> elts (cells h') p (map str [0..<n])
    \<and> dom (cells h') = dom (cells h) \<union> {fresh h..<fresh h + n}"
  using str_build_ok [of h None "[]" n str] assms by (auto simp: str_to_list_build)

theorem str_to_list_correct_witness:
  "\<exists>p h'. str_to_list (\<lambda>i. if i < 4 then 104 + of_nat i else 0)
       \<lparr>cells = Map.empty, fresh = 1, calls = 0, grants = (\<lambda>_. True), junk = \<lparr>val = 7, link = None\<rparr>\<rparr> = Some (p, h')
     \<and> elts (cells h') p [104, 105, 106, 107] \<and> dom (cells h') = {1, 2, 3, 4}"
proof -
  have "map (\<lambda>i. if i < 4 then 104 + of_nat i else 0 :: u8) [0..<4] = [104, 105, 106, 107]" by (simp add: upt_rec)
  moreover have "{1..<1 + 4 :: nat} = {1, 2, 3, 4}" by auto
  moreover have "104 + of_nat i \<noteq> (0 :: u8)" if "i < 4" for i
  proof -
    have "i \<in> {0, 1, 2, 3}" using that by auto
    then show ?thesis by auto
  qed
  ultimately show ?thesis
    using str_to_list_correct [of "\<lambda>i. if i < 4 then 104 + of_nat i else 0" 4
      "\<lparr>cells = Map.empty, fresh = 1, calls = 0, grants = (\<lambda>_. True), junk = \<lparr>val = 7, link = None\<rparr>\<rparr>"]
    by (auto simp: heap_ok_def INT_MAX_def)
qed

text \<open>C17. When the string is short enough for a C int to count it and the allocation of the \<open>k\<close>-th cell (counted from 0) fails, \<^verbatim>\<open>str_to_list\<close> returns
  \<^verbatim>\<open>NULL\<close> but leaks: of the \<open>k\<close> cells it had allocated, all but the last remain allocated.\<close>

theorem str_to_list_leaks:
  assumes "str n = 0" "\<forall>i<n. str i \<noteq> 0" "n < INT_MAX" "heap_ok h" "k < n"
    "\<forall>j<k. grants h (calls h + j)" "\<not> grants h (calls h + k)"
  shows "\<exists>h'. str_to_list str h = Some (None, h') \<and> dom (cells h') = dom (cells h) \<union> {fresh h..<fresh h + k - 1}"
  using str_build_fails [of h k n None str] assms by (auto simp: str_to_list_build split: if_splits)

theorem str_to_list_leaks_witness:
  "\<exists>h'. str_to_list (\<lambda>i. if i < 4 then 97 else 0)
       \<lparr>cells = Map.empty, fresh = 1, calls = 0, grants = (\<lambda>k. k < 3), junk = \<lparr>val = 7, link = None\<rparr>\<rparr> = Some (None, h')
     \<and> dom (cells h') = {1, 2}"
proof -
  have "{1..<1 + 3 - 1 :: nat} = {1, 2}" by auto
  then show ?thesis
    using str_to_list_leaks [of "\<lambda>i. if i < 4 then 97 else 0" 4
      "\<lparr>cells = Map.empty, fresh = 1, calls = 0, grants = (\<lambda>k. k < 3), junk = \<lparr>val = 7, link = None\<rparr>\<rparr>" 3]
    by (auto simp: heap_ok_def INT_MAX_def)
qed

text \<open>C18. \<^verbatim>\<open>convert\<close> prints the number: when its buffer can be allocated, the line it writes in mode
  HEX, OCT or BIN has 16, 24 or 64 digits and read in that base denotes the value, whatever the
  uninitialised arrays held.\<close>

theorem convert_correct:
  assumes "length arr = n" "length res = n" "(mode, b, n) \<in> {(HEX, 16, 16), (OCT, 8, 24), (BIN, 2, 64)}"
  shows "\<exists>s. convert arr (Some res) mode v = Some (s @ nl) \<and> length s = n \<and> parse b s = uint v"
  using assms hex.fill_parse [of arr res v] oct.fill_parse [of arr res v] bin.fill_parse [of arr res v]
    hex.length_fill [of arr res v] oct.length_fill [of arr res v] bin.length_fill [of arr res v]
  by (auto simp: convert_def convert_hex_def convert_oct_def convert_bin_def Let_def)

theorem convert_correct_witness:
  "\<exists>s. convert (replicate 16 (-3)) (Some (replicate 16 CHR ''?'')) HEX 0xdeadbeef = Some (s @ nl)
     \<and> length s = 16 \<and> parse 16 s = 0xdeadbeef"
  using convert_correct [of "replicate 16 (-3)" 16 "replicate 16 CHR ''?''" HEX 16 "0xdeadbeef"] by simp

end
