(* ===== verification/Crc32.thy ===== *)
theory Crc32
  imports Xv6_Base
begin

text \<open>
  The checksum of the user program \<^verbatim>\<open>crc32.c\<close>: its table, its table-driven loop, and what \<^verbatim>\<open>crcFile\<close>
  prints for a file. An \<^verbatim>\<open>unsigned long\<close> has 32 bits on the machine xv6 runs on. The reference is the
  bit-at-a-time division by the reversed polynomial \<^verbatim>\<open>0xedb88320\<close>.
\<close>

section \<open>The program\<close>

definition crc32_tab :: "u32 list" where
  "crc32_tab =
    [0x00000000, 0x77073096, 0xee0e612c, 0x990951ba, 0x076dc419, 0x706af48f, 0xe963a535, 0x9e6495a3,
     0x0edb8832, 0x79dcb8a4, 0xe0d5e91e, 0x97d2d988, 0x09b64c2b, 0x7eb17cbd, 0xe7b82d07, 0x90bf1d91,
     0x1db71064, 0x6ab020f2, 0xf3b97148, 0x84be41de, 0x1adad47d, 0x6ddde4eb, 0xf4d4b551, 0x83d385c7,
     0x136c9856, 0x646ba8c0, 0xfd62f97a, 0x8a65c9ec, 0x14015c4f, 0x63066cd9, 0xfa0f3d63, 0x8d080df5,
     0x3b6e20c8, 0x4c69105e, 0xd56041e4, 0xa2677172, 0x3c03e4d1, 0x4b04d447, 0xd20d85fd, 0xa50ab56b,
     0x35b5a8fa, 0x42b2986c, 0xdbbbc9d6, 0xacbcf940, 0x32d86ce3, 0x45df5c75, 0xdcd60dcf, 0xabd13d59,
     0x26d930ac, 0x51de003a, 0xc8d75180, 0xbfd06116, 0x21b4f4b5, 0x56b3c423, 0xcfba9599, 0xb8bda50f,
     0x2802b89e, 0x5f058808, 0xc60cd9b2, 0xb10be924, 0x2f6f7c87, 0x58684c11, 0xc1611dab, 0xb6662d3d,
     0x76dc4190, 0x01db7106, 0x98d220bc, 0xefd5102a, 0x71b18589, 0x06b6b51f, 0x9fbfe4a5, 0xe8b8d433,
     0x7807c9a2, 0x0f00f934, 0x9609a88e, 0xe10e9818, 0x7f6a0dbb, 0x086d3d2d, 0x91646c97, 0xe6635c01,
     0x6b6b51f4, 0x1c6c6162, 0x856530d8, 0xf262004e, 0x6c0695ed, 0x1b01a57b, 0x8208f4c1, 0xf50fc457,
     0x65b0d9c6, 0x12b7e950, 0x8bbeb8ea, 0xfcb9887c, 0x62dd1ddf, 0x15da2d49, 0x8cd37cf3, 0xfbd44c65,
     0x4db26158, 0x3ab551ce, 0xa3bc0074, 0xd4bb30e2, 0x4adfa541, 0x3dd895d7, 0xa4d1c46d, 0xd3d6f4fb,
     0x4369e96a, 0x346ed9fc, 0xad678846, 0xda60b8d0, 0x44042d73, 0x33031de5, 0xaa0a4c5f, 0xdd0d7cc9,
     0x5005713c, 0x270241aa, 0xbe0b1010, 0xc90c2086, 0x5768b525, 0x206f85b3, 0xb966d409, 0xce61e49f,
     0x5edef90e, 0x29d9c998, 0xb0d09822, 0xc7d7a8b4, 0x59b33d17, 0x2eb40d81, 0xb7bd5c3b, 0xc0ba6cad,
     0xedb88320, 0x9abfb3b6, 0x03b6e20c, 0x74b1d29a, 0xead54739, 0x9dd277af, 0x04db2615, 0x73dc1683,
     0xe3630b12, 0x94643b84, 0x0d6d6a3e, 0x7a6a5aa8, 0xe40ecf0b, 0x9309ff9d, 0x0a00ae27, 0x7d079eb1,
     0xf00f9344, 0x8708a3d2, 0x1e01f268, 0x6906c2fe, 0xf762575d, 0x806567cb, 0x196c3671, 0x6e6b06e7,
     0xfed41b76, 0x89d32be0, 0x10da7a5a, 0x67dd4acc, 0xf9b9df6f, 0x8ebeeff9, 0x17b7be43, 0x60b08ed5,
     0xd6d6a3e8, 0xa1d1937e, 0x38d8c2c4, 0x4fdff252, 0xd1bb67f1, 0xa6bc5767, 0x3fb506dd, 0x48b2364b,
     0xd80d2bda, 0xaf0a1b4c, 0x36034af6, 0x41047a60, 0xdf60efc3, 0xa867df55, 0x316e8eef, 0x4669be79,
     0xcb61b38c, 0xbc66831a, 0x256fd2a0, 0x5268e236, 0xcc0c7795, 0xbb0b4703, 0x220216b9, 0x5505262f,
     0xc5ba3bbe, 0xb2bd0b28, 0x2bb45a92, 0x5cb36a04, 0xc2d7ffa7, 0xb5d0cf31, 0x2cd99e8b, 0x5bdeae1d,
     0x9b64c2b0, 0xec63f226, 0x756aa39c, 0x026d930a, 0x9c0906a9, 0xeb0e363f, 0x72076785, 0x05005713,
     0x95bf4a82, 0xe2b87a14, 0x7bb12bae, 0x0cb61b38, 0x92d28e9b, 0xe5d5be0d, 0x7cdcefb7, 0x0bdbdf21,
     0x86d3d2d4, 0xf1d4e242, 0x68ddb3f8, 0x1fda836e, 0x81be16cd, 0xf6b9265b, 0x6fb077e1, 0x18b74777,
     0x88085ae6, 0xff0f6a70, 0x66063bca, 0x11010b5c, 0x8f659eff, 0xf862ae69, 0x616bffd3, 0x166ccf45,
     0xa00ae278, 0xd70dd2ee, 0x4e048354, 0x3903b3c2, 0xa7672661, 0xd06016f7, 0x4969474d, 0x3e6e77db,
     0xaed16a4a, 0xd9d65adc, 0x40df0b66, 0x37d83bf0, 0xa9bcae53, 0xdebb9ec5, 0x47b2cf7f, 0x30b5ffe9,
     0xbdbdf21c, 0xcabac28a, 0x53b39330, 0x24b4a3a6, 0xbad03605, 0xcdd70693, 0x54de5729, 0x23d967bf,
     0xb3667a2e, 0xc4614ab8, 0x5d681b02, 0x2a6f2b94, 0xb40bbe37, 0xc30c8ea1, 0x5a05df1b, 0x2d02ef8d]"

primrec crc32_loop :: "u8 list \<Rightarrow> u32 \<Rightarrow> u32" where
  "crc32_loop [] crc = crc"
| "crc32_loop (b # bs) crc =
     crc32_loop bs (crc32_tab ! unat ((crc XOR ucast b) AND 0xFF) XOR drop_bit 8 crc)"

text \<open>\<open>buf\<close> are the \<^verbatim>\<open>size\<close> bytes from the address \<^verbatim>\<open>buf\<close> on.\<close>

definition crc32 :: "u32 \<Rightarrow> u8 list \<Rightarrow> u32" where
  "crc32 crc buf = crc32_loop buf (crc XOR NOT 0) XOR NOT 0"

text \<open>\<^verbatim>\<open>crcFile\<close>: \<open>rd\<close> is what \<^verbatim>\<open>read\<close> returns and the contents of the buffer of \<^verbatim>\<open>st->size\<close> bytes after it.
  The result is the checksum printed; \<open>Inl\<close> is the error exit.\<close>

definition crcFile :: "int \<times> u8 list \<Rightarrow> unit + u32" where
  "crcFile rd = (case rd of (n, buffer) \<Rightarrow> if n < 0 then Inl () else Inr (crc32 0 buffer))"

section \<open>The bitwise reference\<close>

definition crc_bit :: "u32 \<Rightarrow> u32" where
  "crc_bit c = (if bit c 0 then drop_bit 1 c XOR 0xedb88320 else drop_bit 1 c)"

definition crc_byte :: "u32 \<Rightarrow> u8 \<Rightarrow> u32" where
  "crc_byte c b = (crc_bit ^^ 8) (c XOR ucast b)"

definition crc_reference :: "u32 \<Rightarrow> u8 list \<Rightarrow> u32" where
  "crc_reference crc buf = NOT (foldl crc_byte (NOT crc) buf)"

lemma ucast_8_32_inject: "(ucast (a :: u8) :: u32) = ucast b \<longleftrightarrow> a = b"
proof
  assume eq: "(ucast a :: u32) = ucast b"
  show "a = b"
  proof (rule bit_word_eqI)
    fix n assume "n < LENGTH(8)"
    moreover have "bit (ucast a :: u32) n = bit (ucast b :: u32) n" using eq by simp
    ultimately show "bit a n = bit b n" by (simp add: bit_simps)
  qed
qed simp

lemma length_crc32_tab: "length crc32_tab = 256"
  by (simp add: crc32_tab_def)

lemma funpow_8: "(f ^^ 8) x = f (f (f (f (f (f (f (f x)))))))"
  by (simp add: eval_nat_numeral)

text \<open>The entries of a table from index \<open>i\<close> on are the remainders of the indices.\<close>

primrec table_from :: "u32 \<Rightarrow> u32 list \<Rightarrow> bool" where
  "table_from i [] = True"
| "table_from i (x # xs) = (x = crc_bit (crc_bit (crc_bit (crc_bit (crc_bit (crc_bit (crc_bit (crc_bit i))))))) \<and> table_from (i + 1) xs)"

lemma table_from_nth: "table_from i xs \<Longrightarrow> k < length xs \<Longrightarrow> xs ! k = (crc_bit ^^ 8) (i + of_nat k)"
proof (induction xs arbitrary: i k)
  case (Cons x xs)
  show ?case
  proof (cases k)
    case 0
    then show ?thesis using Cons.prems by (simp add: funpow_8)
  next
    case (Suc k')
    then show ?thesis using Cons.prems Cons.IH [of "i + 1" k'] by (simp add: add.assoc)
  qed
qed simp

lemma crc32_tab_table: "table_from 0 crc32_tab"
  by (simp add: crc32_tab_def crc_bit_def)

lemma crc32_tab_nth: "k < 256 \<Longrightarrow> crc32_tab ! k = (crc_bit ^^ 8) (of_nat k)"
  using table_from_nth [OF crc32_tab_table, of k] by (simp add: length_crc32_tab)

lemma crc_bit_xor: "crc_bit (a XOR b) = crc_bit a XOR crc_bit b"
  by (rule bit_word_eqI) (auto simp: crc_bit_def bit_simps)

lemma crc_bits_xor: "(crc_bit ^^ n) (a XOR b) = (crc_bit ^^ n) a XOR (crc_bit ^^ n) b"
  by (induction n) (simp_all add: crc_bit_xor)

lemma crc_bits_shift:
  assumes "\<forall>i<n. \<not> bit c i"
  shows "(crc_bit ^^ n) c = drop_bit n c"
  using assms
proof (induction n)
  case (Suc n)
  then have "(crc_bit ^^ n) c = drop_bit n c" by simp
  moreover have "\<not> bit (drop_bit n c) 0" using Suc.prems by (simp add: bit_simps)
  then have "crc_bit (drop_bit n c) = drop_bit (Suc n) c" by (simp add: crc_bit_def)
  ultimately show ?case by simp
qed simp

lemma crc_bits_table: "(crc_bit ^^ 8) x = crc32_tab ! unat (x AND 0xFF) XOR drop_bit 8 x"
proof -
  have m: "(0xFF :: u32) = mask 8" by (simp add: mask_eq_exp_minus_1)
  have "x = (x AND 0xFF) XOR (x AND NOT 0xFF)" by (rule bit_word_eqI) (auto simp: m bit_simps)
  then have "(crc_bit ^^ 8) x = (crc_bit ^^ 8) (x AND 0xFF) XOR (crc_bit ^^ 8) (x AND NOT 0xFF)"
    by (metis crc_bits_xor)
  also have "(crc_bit ^^ 8) (x AND NOT 0xFF) = drop_bit 8 (x AND NOT 0xFF)"
    by (rule crc_bits_shift) (auto simp: m bit_simps)
  also have "drop_bit 8 (x AND NOT 0xFF) = drop_bit 8 x"
    by (rule bit_word_eqI) (auto simp: m bit_simps dest: bit_imp_le_length)
  also have "(crc_bit ^^ 8) (x AND 0xFF) = crc32_tab ! unat (x AND 0xFF)"
  proof -
    have "unat (x AND 0xFF) < 256"
      using take_bit_nat_less_exp [of 8 "unat x"] by (simp add: m take_bit_eq_mask [symmetric] unsigned_take_bit_eq)
    then show ?thesis by (simp add: crc32_tab_nth)
  qed
  finally show ?thesis .
qed

lemma crc32_loop_foldl: "crc32_loop bs c = foldl crc_byte c bs"
proof (induction bs arbitrary: c)
  case (Cons b bs)
  have "drop_bit 8 (c XOR ucast b) = drop_bit 8 c"
    by (rule bit_word_eqI) (auto simp: bit_simps dest: bit_imp_le_length)
  then show ?case using Cons by (simp add: crc_byte_def crc_bits_table)
qed simp

lemma xor_cancel: "(x :: u32) XOR z = y XOR z \<Longrightarrow> x = y"
  by (metis bit.xor_left_self xor.commute)

lemma crc_bit_inj: "crc_bit a = crc_bit b \<Longrightarrow> a = b"
proof -
  assume eq: "crc_bit a = crc_bit b"
  have p: "bit (0xedb88320 :: u32) 31" by simp
  have top: "bit (crc_bit c) 31 = bit c 0" for c using p by (auto simp: crc_bit_def bit_simps dest: bit_imp_le_length)
  then have b0: "bit a 0 = bit b 0" using eq by metis
  then have "drop_bit 1 a = drop_bit 1 b" using eq by (auto simp: crc_bit_def split: if_splits dest: xor_cancel)
  then have "bit a (Suc i) = bit b (Suc i)" for i by (metis bit_drop_bit_eq comp_apply plus_1_eq_Suc)
  then have "bit a i = bit b i" for i using b0 by (cases i) auto
  then show "a = b" by (intro bit_word_eqI) auto
qed

lemma crc_bits_inj: "(crc_bit ^^ n) a = (crc_bit ^^ n) b \<Longrightarrow> a = b"
  by (induction n) (auto dest: crc_bit_inj)

lemma foldl_crc_inj: "foldl crc_byte c bs = foldl crc_byte d bs \<Longrightarrow> c = d"
proof (induction bs arbitrary: c d)
  case (Cons b bs)
  then have "crc_byte c b = crc_byte d b" by simp
  then have "c XOR ucast b = d XOR ucast b" unfolding crc_byte_def by (rule crc_bits_inj)
  then show ?case by (rule xor_cancel)
qed simp

section \<open>Properties\<close>

text \<open>C22. The table-driven checksum equals the bit-at-a-time division: for every initial value and
  buffer, \<^verbatim>\<open>crc32\<close> computes the reflected CRC with polynomial \<^verbatim>\<open>0xedb88320\<close>.\<close>

theorem crc32_reference: "crc32 crc buf = crc_reference crc buf"
  by (simp add: crc32_def crc_reference_def crc32_loop_foldl)

text \<open>C23. The checksum detects every corruption of a single byte.\<close>

theorem crc32_detects:
  assumes "b \<noteq> b'"
  shows "crc32 crc (us @ b # vs) \<noteq> crc32 crc (us @ b' # vs)"
proof
  assume "crc32 crc (us @ b # vs) = crc32 crc (us @ b' # vs)"
  then have "foldl crc_byte (crc_byte (foldl crc_byte (NOT crc) us) b) vs = foldl crc_byte (crc_byte (foldl crc_byte (NOT crc) us) b') vs"
    by (simp add: crc32_def crc32_loop_foldl)
  then have "crc_byte (foldl crc_byte (NOT crc) us) b = crc_byte (foldl crc_byte (NOT crc) us) b'"
    by (rule foldl_crc_inj)
  then have "foldl crc_byte (NOT crc) us XOR ucast b = foldl crc_byte (NOT crc) us XOR ucast b'"
    unfolding crc_byte_def by (rule crc_bits_inj)
  then have "(ucast b :: u32) = ucast b'" by (metis bit.xor_left_self)
  with assms show False by (simp add: ucast_8_32_inject)
qed

theorem crc32_detects_witness: "crc32 0 ([1, 2] @ 3 # [4]) \<noteq> crc32 0 ([1, 2] @ 7 # [4])"
  by (rule crc32_detects) simp

end
