(* ===== verification/Grep.thy ===== *)
theory Grep
  imports Xv6_Base
begin

text \<open>
  The user program \<^verbatim>\<open>grep.c\<close>: Kernighan and Pike's matcher for patterns with \<^verbatim>\<open>^ . * $\<close>, and the loop
  that reads a file through a 1024-byte buffer and prints the matching lines. A C string is the list
  of its characters before the terminating zero. How many bytes one \<^verbatim>\<open>read\<close> returns, of those asked
  for and still available, is a parameter.
\<close>

section \<open>The matcher\<close>

function matchhere :: "string \<Rightarrow> string \<Rightarrow> bool" and matchstar :: "char \<Rightarrow> string \<Rightarrow> string \<Rightarrow> bool" where
  "matchhere re str =
     (case re of [] \<Rightarrow> True
      | c # re1 \<Rightarrow>
        if re1 \<noteq> [] \<and> hd re1 = CHR ''*'' then matchstar c (tl re1) str
        else if c = CHR ''$'' \<and> re1 = [] then str = []
        else if str \<noteq> [] \<and> (c = CHR ''.'' \<or> c = hd str) then matchhere re1 (tl str)
        else False)"
| "matchstar c re str =
     (if matchhere re str then True
      else if str \<noteq> [] \<and> (hd str = c \<or> c = CHR ''.'') then matchstar c re (tl str)
      else False)"
  by pat_completeness auto
termination
  by (relation "measure (case_sum (\<lambda>(re, str). 2 * (length re + length str)) (\<lambda>(c, re, str). 2 * (length re + length str) + 1))")
    (auto simp: neq_Nil_conv)

primrec match_any :: "string \<Rightarrow> string \<Rightarrow> bool" where
  "match_any re [] = matchhere re []"
| "match_any re (t # ts) = (if matchhere re (t # ts) then True else match_any re ts)"

definition match :: "string \<Rightarrow> string \<Rightarrow> bool" where
  "match re str = (if re \<noteq> [] \<and> hd re = CHR ''^'' then matchhere (tl re) str else match_any re str)"

section \<open>The program\<close>

text \<open>The inner loop over the lines of the buffer: what is written, and what is left from \<^verbatim>\<open>p\<close> on.
  \<^verbatim>\<open>strchr\<close> looks for the newline only up to the first zero byte.\<close>

definition strchr_nl :: "string \<Rightarrow> nat option" where
  "strchr_nl s = (let t = takeWhile (\<lambda>c. c \<noteq> newline \<and> c \<noteq> NUL) s
                  in if length t < length s \<and> s ! length t = newline then Some (length t) else None)"

function grep_lines :: "string \<Rightarrow> string \<Rightarrow> string \<times> string" where
  "grep_lines pattern p =
     (case strchr_nl p of
        None \<Rightarrow> ([], p)
      | Some q \<Rightarrow>
          (let (out, rest) = grep_lines pattern (drop (q + 1) p)
           in ((if match pattern (take q p) then take (q + 1) p else []) @ out, rest)))"
  by pat_completeness auto
termination
  by (relation "measure (\<lambda>(pattern, p). length p)") (auto simp: strchr_nl_def Let_def split: if_splits)

definition bufsize :: nat where "bufsize = 1024"

function grep_loop :: "(string \<Rightarrow> nat \<Rightarrow> nat) \<Rightarrow> string \<Rightarrow> string \<Rightarrow> string \<Rightarrow> string" where
  "grep_loop rd pattern buf input =
     (let k = bufsize - length buf - 1;
          n = min (rd input k) (min k (length input))
      in if n = 0 then []
         else
           let s = buf @ take n input;
               (out, p) = grep_lines pattern s;
               buf1 = (if length p = length s then [] else p)
           in out @ grep_loop rd pattern buf1 (drop n input))"
  by pat_completeness auto
termination
  by (relation "measure (\<lambda>(rd, pattern, buf, input). length input)") auto

definition grep :: "(string \<Rightarrow> nat \<Rightarrow> nat) \<Rightarrow> string \<Rightarrow> string \<Rightarrow> string" where
  "grep rd pattern input = grep_loop rd pattern [] input"

declare matchhere.simps [simp del] matchstar.simps [simp del] grep_lines.simps [simp del] grep_loop.simps [simp del]

section \<open>What a pattern means\<close>

text \<open>The parts of a pattern, and the relation between a pattern, a text it matches and what follows
  the text.\<close>

datatype item = One char | Star char | Eol

fun parse_re :: "string \<Rightarrow> item list" where
  "parse_re [] = []"
| "parse_re (c # re) =
     (case re of
        [] \<Rightarrow> if c = CHR ''$'' then [Eol] else [One c]
      | d # re1 \<Rightarrow> if d = CHR ''*'' then Star c # parse_re re1 else One c # parse_re re)"

definition fits :: "char \<Rightarrow> char \<Rightarrow> bool" where
  "fits c x \<longleftrightarrow> c = CHR ''.'' \<or> c = x"

inductive matches :: "item list \<Rightarrow> string \<Rightarrow> string \<Rightarrow> bool" where
  Empty: "matches [] [] rest"
| Eol: "matches [Eol] [] []"
| One: "fits c x \<Longrightarrow> matches its w rest \<Longrightarrow> matches (One c # its) (x # w) rest"
| Star: "(\<forall>x\<in>set u. fits c x) \<Longrightarrow> matches its w rest \<Longrightarrow> matches (Star c # its) (u @ w) rest"

inductive_simps matches_Nil: "matches [] w rest"
inductive_simps matches_Eol: "matches (Eol # its) w rest"
inductive_simps matches_One: "matches (One c # its) w rest"
inductive_simps matches_Star: "matches (Star c # its) w rest"

definition here :: "item list \<Rightarrow> string \<Rightarrow> bool" where
  "here its str \<longleftrightarrow> (\<exists>w rest. str = w @ rest \<and> matches its w rest)"

lemma here_simps:
  "here [] str"
  "here [Eol] str \<longleftrightarrow> str = []"
  "here (One c # its) str \<longleftrightarrow> (case str of [] \<Rightarrow> False | x # xs \<Rightarrow> fits c x \<and> here its xs)"
proof -
  show "here [] str" "here [Eol] str \<longleftrightarrow> str = []" by (auto simp: here_def matches_Nil matches_Eol)
  show "here (One c # its) str \<longleftrightarrow> (case str of [] \<Rightarrow> False | x # xs \<Rightarrow> fits c x \<and> here its xs)"
    by (cases str) (auto simp: here_def matches_One Cons_eq_append_conv)
qed

lemma here_Star:
  "here (Star c # its) str \<longleftrightarrow> here its str \<or> (case str of [] \<Rightarrow> False | x # xs \<Rightarrow> fits c x \<and> here (Star c # its) xs)"
proof (cases str)
  case Nil
  then show ?thesis by (auto simp: here_def matches_Star)
next
  case (Cons x xs)
  show ?thesis
  proof
    assume "here (Star c # its) str"
    then obtain u w rest where *: "str = (u @ w) @ rest" "\<forall>x\<in>set u. fits c x" "matches its w rest"
      by (auto simp: here_def matches_Star)
    show "here its str \<or> (case str of [] \<Rightarrow> False | x # xs \<Rightarrow> fits c x \<and> here (Star c # its) xs)"
    proof (cases u)
      case Nil
      then show ?thesis using * by (auto simp: here_def)
    next
      case (Cons y u')
      then have "fits c x" "xs = (u' @ w) @ rest" "\<forall>x\<in>set u'. fits c x" using * \<open>str = x # xs\<close> by auto
      then have "fits c x \<and> here (Star c # its) xs"
        using *(3) unfolding here_def matches_Star by blast
      then show ?thesis using \<open>str = x # xs\<close> by simp
    qed
  next
    assume "here its str \<or> (case str of [] \<Rightarrow> False | x # xs \<Rightarrow> fits c x \<and> here (Star c # its) xs)"
    then consider "here its str" | "fits c x" "here (Star c # its) xs" using Cons by auto
    then show "here (Star c # its) str"
    proof cases
      case 1
      then show ?thesis unfolding here_def matches_Star by (metis append_Nil empty_iff empty_set)
    next
      case 2
      then obtain u w rest where "xs = (u @ w) @ rest" "\<forall>x\<in>set u. fits c x" "matches its w rest"
        by (auto simp: here_def matches_Star)
      then have "str = ((x # u) @ w) @ rest" "\<forall>y\<in>set (x # u). fits c y" "matches its w rest"
        using Cons 2 by auto
      then show ?thesis unfolding here_def matches_Star by blast
    qed
  qed
qed

lemma matcher_correct:
  "matchhere re str \<longleftrightarrow> here (parse_re re) str"
  "matchstar c re str \<longleftrightarrow> here (Star c # parse_re re) str"
proof (induction re str and c re str rule: matchhere_matchstar.induct)
  case (1 re str)
  show ?case
  proof (cases re)
    case Nil
    then show ?thesis by (simp add: matchhere.simps here_simps)
  next
    case (Cons c re1)
    then show ?thesis using 1 [OF Cons]
      by (subst matchhere.simps) (cases re1; cases str; auto simp: here_simps fits_def)
  qed
next
  case (2 c re str)
  then show ?case by (subst matchstar.simps, subst here_Star) (cases str; auto simp: fits_def)
qed

lemma match_any_correct: "match_any re str \<longleftrightarrow> (\<exists>pre t. str = pre @ t \<and> matchhere re t)"
proof (induction str)
  case (Cons x xs)
  show ?case
  proof (cases "matchhere re (x # xs)")
    case True
    then show ?thesis by (auto intro: exI [of _ "[]"])
  next
    case False
    then have "(\<exists>pre t. x # xs = pre @ t \<and> matchhere re t) \<longleftrightarrow> (\<exists>pre t. xs = pre @ t \<and> matchhere re t)"
      by (metis append_Cons append_Nil Cons_eq_append_conv)
    with False Cons show ?thesis by simp
  qed
qed auto

section \<open>Printing the matching lines\<close>

definition lines_of :: "string list \<Rightarrow> string" where
  "lines_of ls = concat (map (\<lambda>l. l @ [newline]) ls)"

definition line :: "string \<Rightarrow> bool" where
  "line l \<longleftrightarrow> newline \<notin> set l \<and> NUL \<notin> set l"

lemma strchr_nl_line: "line l \<Longrightarrow> strchr_nl (l @ newline # s) = Some (length l)"
proof -
  assume "line l"
  then have "takeWhile (\<lambda>c. c \<noteq> newline \<and> c \<noteq> NUL) (l @ newline # s) = l"
    unfolding line_def by (induction l) auto
  then show ?thesis by (simp add: strchr_nl_def)
qed

lemma strchr_nl_none: "newline \<notin> set l \<Longrightarrow> strchr_nl l = None"
  by (auto simp: strchr_nl_def Let_def) (metis nth_mem)

lemma lines_of_simps [simp]: "lines_of [] = []" "lines_of (l # ls) = l @ newline # lines_of ls"
  by (simp_all add: lines_of_def)

lemma lines_of_append: "lines_of (ls @ ms) = lines_of ls @ lines_of ms"
  by (simp add: lines_of_def)

lemma grep_lines_lines:
  assumes "list_all line ls" "newline \<notin> set l"
  shows "grep_lines pattern (lines_of ls @ l) = (lines_of (filter (match pattern) ls), l)"
  using assms
proof (induction ls)
  case Nil
  then show ?case by (subst grep_lines.simps) (simp add: strchr_nl_none)
next
  case (Cons a ls)
  then show ?case by (subst grep_lines.simps) (simp add: strchr_nl_line)
qed

text \<open>A prefix of a sequence of lines is some whole lines and a part of the next one.\<close>

lemma lines_prefix:
  assumes "list_all line ls"
  shows "\<exists>ks l ms. take n (lines_of ls) = lines_of ks @ l \<and> newline \<notin> set l \<and> ls = ks @ ms
    \<and> l @ drop n (lines_of ls) = lines_of ms \<and> (ms = [] \<or> length l \<le> length (hd ms))"
  using assms
proof (induction ls arbitrary: n)
  case Nil
  show ?case by (auto intro: exI [of _ "[]"])
next
  case (Cons a ls)
  show ?case
  proof (cases "n \<le> length a")
    case True
    moreover have "newline \<notin> set (take n a)" using Cons.prems by (auto simp: line_def dest: in_set_takeD)
    moreover have "take n a @ drop n a @ r = a @ r" for r :: string
      by (metis append.assoc append_take_drop_id)
    ultimately show ?thesis
      by (intro exI [of _ "[]"] exI [of _ "take n a"] exI [of _ "a # ls"]) simp
  next
    case False
    define k where "k = n - Suc (length a)"
    have n: "n = length a + Suc k" using False by (simp add: k_def)
    obtain ks l ms where *: "take k (lines_of ls) = lines_of ks @ l" "newline \<notin> set l" "ls = ks @ ms"
      "l @ drop k (lines_of ls) = lines_of ms" "ms = [] \<or> length l \<le> length (hd ms)"
      using Cons.IH [of k] Cons.prems by auto
    then show ?thesis by (intro exI [of _ "a # ks"] exI [of _ l] exI [of _ ms]) (auto simp: n)
  qed
qed

lemma grep_loop_full:
  assumes "list_all line ls" "\<forall>l\<in>set ls. length l < bufsize - 1" "buf @ input = lines_of ls"
    "length buf < bufsize - 1" "ls = [] \<or> length buf \<le> length (hd ls)"
  shows "grep_loop (\<lambda>_ k. k) pattern buf input = lines_of (filter (match pattern) ls)"
  using assms
proof (induction "length input" arbitrary: buf input ls rule: less_induct)
  case less
  define k where "k = bufsize - length buf - 1"
  define n where "n = min k (length input)"
  have k: "0 < k" "length buf + k = bufsize - 1" "bufsize - Suc (length buf) = k" using less.prems(4) by (auto simp: k_def)
  show ?case
  proof (cases "ls = []")
    case True
    then have "n = 0" using less.prems(3) by (simp add: n_def)
    then show ?thesis using True by (subst grep_loop.simps) (simp add: n_def k_def Let_def)
  next
    case False
    then obtain a as where ls: "ls = a # as" by (cases ls) auto
    have inp: "input \<noteq> []"
    proof
      assume "input = []"
      then have "length buf = length (lines_of ls)" using less.prems(3) by simp
      then show False using less.prems(5) ls by simp
    qed
    then have n0: "n \<noteq> 0" using k by (simp add: n_def)
    define s where "s = buf @ take n input"
    have s: "s = take (bufsize - 1) (lines_of ls)"
      unfolding s_def less.prems(3) [symmetric] using k by (simp add: n_def min_def)
    obtain ks l ms where *: "s = lines_of ks @ l" "newline \<notin> set l" "ls = ks @ ms"
      "l @ drop (bufsize - 1) (lines_of ls) = lines_of ms" "ms = [] \<or> length l \<le> length (hd ms)"
      using lines_prefix [OF less.prems(1), of "bufsize - 1"] s by auto
    have rest: "drop n input = drop (bufsize - 1) (lines_of ls)"
      unfolding less.prems(3) [symmetric] using k by (simp add: n_def min_def)
    have "length a < bufsize - 1" using less.prems(2) ls by simp
    then have "newline \<in> set s" unfolding s ls by (auto simp: take_Cons')
    then have ks: "ks \<noteq> []" using *(1,2) by auto
    then have short: "length l < length s" by (cases ks) (auto simp: *(1))
    have g: "grep_lines pattern s = (lines_of (filter (match pattern) ks), l)"
      unfolding *(1) using less.prems(1) *(2,3) by (intro grep_lines_lines) auto
    have "grep_loop (\<lambda>_ k. k) pattern l (drop n input) = lines_of (filter (match pattern) ms)"
    proof (rule less.hyps)
      show "length (drop n input) < length input" using inp n0 by simp
      show "list_all line ms" "\<forall>l\<in>set ms. length l < bufsize - 1" using less.prems *(3) by auto
      show "l @ drop n input = lines_of ms" using *(4) rest by simp
      show "length l < bufsize - 1" using short s by simp
      show "ms = [] \<or> length l \<le> length (hd ms)" by (rule *(5))
    qed
    moreover have mm: "min k (min k (length input)) = n" by (simp add: n_def)
    ultimately have "grep_loop (\<lambda>_ k. k) pattern buf input = lines_of (filter (match pattern) ks) @ lines_of (filter (match pattern) ms)"
      unfolding grep_loop.simps [of "\<lambda>_ k. k" pattern buf input] Let_def k_def [symmetric] mm s_def [symmetric] g
      using n0 short by simp
    then show ?thesis by (simp add: *(3) lines_of_append)
  qed
qed

text \<open>Only the reads at inputs not longer than the present one matter.\<close>

lemma grep_loop_cong:
  assumes "\<And>i k. length i \<le> length input \<Longrightarrow> rd i k = rd' i k"
  shows "grep_loop rd pattern buf input = grep_loop rd' pattern buf input"
  using assms
proof (induction "length input" arbitrary: buf input rule: less_induct)
  case less
  define k where "k = bufsize - length buf - 1"
  define n where "n = min (rd input k) (min k (length input))"
  have n': "n = min (rd' input k) (min k (length input))" using less.prems by (simp add: n_def)
  have "grep_loop rd pattern b (drop n input) = grep_loop rd' pattern b (drop n input)" if "n \<noteq> 0" for b
  proof (rule less.hyps)
    have "n \<le> length input" by (simp add: n_def)
    then show "length (drop n input) < length input" using that by simp
    show "rd i k = rd' i k" if "length i \<le> length (drop n input)" for i k using that less.prems by simp
  qed
  then show ?case
    unfolding grep_loop.simps [of rd pattern buf input] grep_loop.simps [of rd' pattern buf input] Let_def
      k_def [symmetric] n_def [symmetric] n' [symmetric]
    by (simp split: prod.splits)
qed

text \<open>A read that ends before the first newline is thrown away.\<close>

lemma grep_drops:
  assumes "newline \<notin> set u" "u \<noteq> []" "length u \<le> 1023" "rd (u @ input) 1023 = length u"
  shows "grep rd pattern (u @ input) = grep rd pattern input"
proof -
  have "grep_lines pattern u = ([], u)" using assms(1) by (subst grep_lines.simps) (simp add: strchr_nl_none)
  then show ?thesis unfolding grep_def using assms(2-4) by (subst grep_loop.simps) (simp add: bufsize_def Let_def)
qed

section \<open>Properties\<close>

text \<open>C19. The matcher of \<^verbatim>\<open>grep\<close> accepts a text exactly when some part of it, starting at the beginning if
  the pattern starts with \<^verbatim>\<open>^\<close>, matches the pattern in the sense of the relation \<^const>\<open>matches\<close>.\<close>

theorem match_correct:
  "match re s \<longleftrightarrow>
     (if re \<noteq> [] \<and> hd re = CHR ''^''
      then \<exists>w rest. s = w @ rest \<and> matches (parse_re (tl re)) w rest
      else \<exists>pre w rest. s = pre @ w @ rest \<and> matches (parse_re re) w rest)"
  by (auto simp: match_def matcher_correct match_any_correct here_def)

text \<open>C20. On a file of lines of at most 1022 characters, read with reads that return all that is asked
  for while the file lasts, \<^verbatim>\<open>grep\<close> prints exactly the lines that match, in order.\<close>

theorem grep_correct:
  assumes "list_all line ls" "\<forall>l\<in>set ls. length l \<le> 1022"
  shows "grep (\<lambda>_ k. k) pattern (lines_of ls) = lines_of (filter (match pattern) ls)"
  unfolding grep_def using assms by (intro grep_loop_full) (auto simp: bufsize_def)

theorem grep_correct_witness:
  "grep (\<lambda>_ k. k) ''b*c$'' (lines_of [''abc'', ''cd'']) = lines_of (filter (match ''b*c$'') [''abc'', ''cd''])"
  by (rule grep_correct) (simp_all add: line_def newline_def NUL_def)

text \<open>C21. \<^verbatim>\<open>grep\<close> loses data on short reads. When the first read of a file of lines ends after a part \<open>u\<close> of the first line \<open>u @ v\<close> and all
  further reads are full, the part \<open>u\<close> is thrown away: \<^verbatim>\<open>grep\<close> matches, and prints, \<open>v\<close> in place of the line.\<close>

theorem grep_short_read_loses:
  assumes "list_all line ((u @ v) # ls)" "\<forall>l\<in>set ((u @ v) # ls). length l \<le> 1022" "u \<noteq> []"
    "rd (lines_of ((u @ v) # ls)) 1023 = length u" "\<forall>input k. length input < length (lines_of ((u @ v) # ls)) \<longrightarrow> rd input k = k"
  shows "grep rd pattern (lines_of ((u @ v) # ls)) = lines_of (filter (match pattern) (v # ls))"
proof -
  have "grep rd pattern (u @ lines_of (v # ls)) = grep rd pattern (lines_of (v # ls))"
    using assms by (intro grep_drops) (auto simp: line_def)
  moreover have "grep rd pattern (lines_of (v # ls)) = grep (\<lambda>_ k. k) pattern (lines_of (v # ls))"
    unfolding grep_def
  proof (rule grep_loop_cong)
    fix i :: string and k assume "length i \<le> length (lines_of (v # ls))"
    then have "length i < length (lines_of ((u @ v) # ls))" using assms(3) by (cases u) simp_all
    then show "rd i k = k" using assms(5) by blast
  qed
  moreover have "grep (\<lambda>_ k. k) pattern (lines_of (v # ls)) = lines_of (filter (match pattern) (v # ls))"
    unfolding grep_def using assms(1,2) by (intro grep_loop_full) (auto simp: bufsize_def line_def)
  ultimately show ?thesis by simp
qed

theorem grep_short_read_loses_witness:
  "grep (\<lambda>input k. if length input = 4 then 2 else k) ''ab'' (lines_of [''abc'']) = [] \<and> match ''ab'' ''abc''"
proof
  show "match ''ab'' ''abc''" by (simp add: match_def matchhere.simps)
  have n: "\<not> match ''ab'' ''c''" by (simp add: match_def matchhere.simps [of "''ab''" "''c''"] matchhere.simps [of "''ab''" "[]"])
  have "grep (\<lambda>input k. if length input = 4 then 2 else k) ''ab'' (lines_of ((''ab'' @ ''c'') # [])) = lines_of (filter (match ''ab'') (''c'' # []))"
  proof (rule grep_short_read_loses)
    show "list_all line ((''ab'' @ ''c'') # [])" by (simp add: line_def newline_def NUL_def)
  qed simp_all
  then show "grep (\<lambda>input k. if length input = 4 then 2 else k) ''ab'' (lines_of [''abc'']) = []" using n by simp
qed

end
