(* ===== verification/Fcntl.thy ===== *)
theory Fcntl
  imports Xv6_Base
begin

text \<open>The modes of \<^verbatim>\<open>open\<close> (\<^verbatim>\<open>fcntl.h\<close>), which the kernel and the programs share.\<close>

definition O_RDONLY :: u32 where "O_RDONLY = 0"
definition O_WRONLY :: u32 where "O_WRONLY = 1"
definition O_RDWR :: u32 where "O_RDWR = 2"
definition O_CREATE :: u32 where "O_CREATE = 0x200"

end
