(* ===== verification/Sh.thy ===== *)
theory Sh
  imports Fcntl
begin

text \<open>
  The shell (\<^verbatim>\<open>sh.c\<close>): tokens, the recursive-descent parser, and the termination of the argument strings in place; \<open>Sh_Run\<close> executes the
  command. A line is the list of its characters up to the NUL; pointers into it are indices. A word is a pair of such pointers
  until \<^verbatim>\<open>nulterminate\<close> has put a NUL at its end. The theorem: the parser always ends with a command or a syntax error, and every
  argument of the command is the word of the line it was parsed from.
\<close>

section \<open>Tokens\<close>

definition whitespace :: string where "whitespace = [CHR 0x20, CHR 0x09, CHR 0x0D, CHR 0x0A, CHR 0x0B]"
definition symbols :: string where "symbols = ''<|>&;()''"
definition MAXARGS :: nat where "MAXARGS = 10"

definition is_ws :: "char \<Rightarrow> bool" where "is_ws c \<longleftrightarrow> c \<in> set whitespace"
definition is_sym :: "char \<Rightarrow> bool" where "is_sym c \<longleftrightarrow> c \<in> set symbols"

definition is_word :: "char \<Rightarrow> bool" where "is_word c \<longleftrightarrow> \<not> is_ws c \<and> \<not> is_sym c"

text \<open>The character a pointer points to; at the end of the line it is the NUL.\<close>

definition deref :: "string \<Rightarrow> nat \<Rightarrow> char" where
  "deref xs i = (if i < length xs then xs ! i else NUL)"

function skip :: "(char \<Rightarrow> bool) \<Rightarrow> string \<Rightarrow> nat \<Rightarrow> nat" where
  "skip P xs i = (if i < length xs \<and> P (xs ! i) then skip P xs (i + 1) else i)"
  by pat_completeness auto
termination by (relation "measure (\<lambda>(P, xs, i). length xs - i)") auto

declare skip.simps [simp del]

definition gettoken :: "string \<Rightarrow> nat \<Rightarrow> char \<times> nat \<times> nat \<times> nat" where
  "gettoken xs i =
     (let q = skip is_ws xs i; c = deref xs q;
          (ret, eq) =
            (if c = NUL then (c, q)
             else if c \<in> set ''|();&<'' then (c, q + 1)
             else if c = CHR ''>'' then (if deref xs (q + 1) = CHR ''>'' then (CHR ''+'', q + 2) else (c, q + 1))
             else (CHR ''a'', skip is_word xs q))
      in (ret, q, eq, skip is_ws xs eq))"

definition peek :: "string \<Rightarrow> nat \<Rightarrow> string \<Rightarrow> bool \<times> nat" where
  "peek xs i toks = (let s = skip is_ws xs i in (deref xs s \<noteq> NUL \<and> deref xs s \<in> set toks, s))"

definition after_token :: "string \<Rightarrow> nat \<Rightarrow> nat" where
  "after_token xs i = (case gettoken xs i of (_, _, _, s) \<Rightarrow> s)"

section \<open>Commands\<close>

datatype 'w cmd = EXEC "'w list" | REDIR "'w cmd" 'w u32 nat | PIPE "'w cmd" "'w cmd" | LIST "'w cmd" "'w cmd" | BACK "'w cmd"

type_synonym span = "nat \<times> nat"

datatype 'a presult = Parsed 'a nat | Error string | Out

primrec bindP :: "'a presult \<Rightarrow> ('a \<Rightarrow> nat \<Rightarrow> 'b presult) \<Rightarrow> 'b presult" where
  "bindP (Parsed a i) f = f a i"
| "bindP (Error e) f = Error e"
| "bindP Out f = Out"

section \<open>The parser\<close>

lemma skip_eq: "skip P xs i = i + length (takeWhile P (drop i xs))"
proof (induction P xs i rule: skip.induct)
  case (1 P xs i)
  show ?case
  proof (cases "i < length xs \<and> P (xs ! i)")
    case True
    then show ?thesis using 1 by (subst skip.simps) (simp add: Cons_nth_drop_Suc [symmetric, of i xs])
  next
    case False
    then show ?thesis by (subst skip.simps) (cases "i < length xs"; simp add: Cons_nth_drop_Suc [symmetric, of i xs])
  qed
qed

lemma skip_ge: "i \<le> skip P xs i"
  by (simp add: skip_eq)

lemma skip_le: "i \<le> length xs \<Longrightarrow> skip P xs i \<le> length xs"
  using length_takeWhile_le [of P "drop i xs"] by (simp add: skip_eq)

lemma skip_stops:
  assumes "skip P xs i < length xs"
  shows "\<not> P (xs ! skip P xs i)"
proof -
  have "length (takeWhile P (drop i xs)) < length (drop i xs)" using assms by (simp add: skip_eq)
  from nth_length_takeWhile [OF this] show ?thesis using assms by (simp add: skip_eq)
qed

lemma skip_all: "i \<le> k \<Longrightarrow> k < skip P xs i \<Longrightarrow> k < length xs \<and> P (xs ! k)"
proof -
  assume a: "i \<le> k" "k < skip P xs i"
  then have k: "k - i < length (takeWhile P (drop i xs))" by (simp add: skip_eq)
  then have "takeWhile P (drop i xs) ! (k - i) \<in> set (takeWhile P (drop i xs))" by (rule nth_mem)
  then have "P (takeWhile P (drop i xs) ! (k - i))" by (rule set_takeWhileD [THEN conjunct2])
  moreover have "k - i < length (drop i xs)" using k length_takeWhile_le [of P "drop i xs"] by simp
  ultimately show ?thesis using a k by (simp add: takeWhile_nth)
qed

lemma skip_fix: "i < length xs \<Longrightarrow> \<not> P (xs ! i) \<Longrightarrow> skip P xs i = i"
  by (subst skip.simps) simp

lemma deref_nonNUL: "deref xs i \<noteq> NUL \<Longrightarrow> i < length xs"
  by (simp add: deref_def split: if_splits)

lemma is_sym_cases: "is_sym c \<longleftrightarrow> c \<in> set ''|();&<'' \<or> c = CHR ''>''"
  unfolding is_sym_def symbols_def by auto

lemma skip_ws_idle: "is_ws (deref xs (skip is_ws xs i)) = False"
  using skip_stops [of is_ws xs i] by (auto simp: deref_def NUL_def is_ws_def whitespace_def)

lemma gettoken_cases:
  fixes xs i
  defines "q \<equiv> skip is_ws xs i"
  obtains (stop) "deref xs q = NUL" "gettoken xs i = (NUL, q, q, skip is_ws xs q)"
  | (one) c where "q < length xs" "xs ! q = c" "is_sym c" "gettoken xs i = (c, q, q + 1, skip is_ws xs (q + 1))"
  | (append) "q + 1 < length xs" "xs ! q = CHR ''>''" "gettoken xs i = (CHR ''+'', q, q + 2, skip is_ws xs (q + 2))"
  | (word) "q < length xs" "is_word (xs ! q)" "gettoken xs i = (CHR ''a'', q, skip is_word xs q, skip is_ws xs (skip is_word xs q))"
proof (cases "deref xs q = NUL")
  case True
  then show thesis by (intro stop) (simp_all add: gettoken_def Let_def q_def)
next
  case False
  then have l: "q < length xs" by (rule deref_nonNUL)
  then have d: "deref xs q = xs ! q" by (simp add: deref_def)
  have w: "\<not> is_ws (xs ! q)" using skip_ws_idle [of xs i] d by (simp add: q_def)
  consider "xs ! q \<in> set ''|();&<''" | "xs ! q = CHR ''>''" | "\<not> is_sym (xs ! q)" using is_sym_cases by blast
  then show thesis
  proof cases
    case 1
    then have "gettoken xs i = (xs ! q, q, q + 1, skip is_ws xs (q + 1))" using False d
      unfolding gettoken_def q_def [symmetric] Let_def by (simp only: if_True if_False d prod.case refl)
    then show thesis using one l 1 is_sym_cases by blast
  next
    case 2
    then have n: "xs ! q \<notin> set ''|();&<''" by simp
    show thesis
    proof (cases "deref xs (q + 1) = CHR ''>''")
      case True
      then have "gettoken xs i = (CHR ''+'', q, q + 2, skip is_ws xs (q + 2))" using False n 2
        unfolding gettoken_def q_def [symmetric] Let_def by (simp only: if_True if_False d prod.case refl)
      moreover have "q + 1 < length xs" using True by (intro deref_nonNUL) (simp add: NUL_def)
      ultimately show thesis using append 2 by blast
    next
      case g: False
      then have "gettoken xs i = (xs ! q, q, q + 1, skip is_ws xs (q + 1))" using False n 2
        unfolding gettoken_def q_def [symmetric] Let_def by (simp only: if_True if_False d prod.case refl)
      then show thesis using one l 2 is_sym_cases by blast
    qed
  next
    case 3
    then have n: "xs ! q \<notin> set ''|();&<''" "xs ! q \<noteq> CHR ''>''" using is_sym_cases by blast+
    then have "gettoken xs i = (CHR ''a'', q, skip is_word xs q, skip is_ws xs (skip is_word xs q))" using False
      unfolding gettoken_def q_def [symmetric] Let_def by (simp only: if_True if_False d prod.case refl)
    then show thesis using word l 3 w by (simp add: is_word_def)
  qed
qed

lemma gettoken_order:
  assumes "gettoken xs i = (t, q, e, s)" "i \<le> length xs"
  shows "i \<le> q" "q \<le> e" "e \<le> s" "s \<le> length xs" "t \<noteq> NUL \<Longrightarrow> q < e"
proof -
  let ?q = "skip is_ws xs i"
  have q: "i \<le> ?q" "?q \<le> length xs" using skip_ge skip_le [OF assms(2)] by auto
  have "i \<le> q \<and> q \<le> e \<and> e \<le> s \<and> s \<le> length xs \<and> (t \<noteq> NUL \<longrightarrow> q < e)"
    using gettoken_cases [of xs i]
  proof cases
    case stop
    then show ?thesis using assms q skip_ge skip_le by (simp add: NUL_def)
  next
    case (one c)
    then show ?thesis using assms q skip_ge [of "?q + 1" is_ws xs] skip_le [of "?q + 1" xs is_ws] by simp
  next
    case append
    then show ?thesis using append assms q skip_ge [of "?q + 2" is_ws xs] skip_le [of "?q + 2" xs is_ws] by simp
  next
    case word
    have "?q < skip is_word xs ?q" using word skip_ge [of "?q + 1" is_word xs] by (subst skip.simps) simp
    then show ?thesis using word assms q skip_ge [of "skip is_word xs ?q" is_ws xs] skip_le [of "skip is_word xs ?q" xs is_ws] skip_le [of ?q xs is_word] by simp
  qed
  then show "i \<le> q" "q \<le> e" "e \<le> s" "s \<le> length xs" "t \<noteq> NUL \<Longrightarrow> q < e" by simp_all
qed

lemma peek_order:
  assumes "peek xs i toks = (b, j)"
  shows "i \<le> j" "i \<le> length xs \<Longrightarrow> j \<le> length xs" "b \<Longrightarrow> j < length xs"
  using assms skip_ge [of i is_ws xs] skip_le [of i xs is_ws] by (auto simp: peek_def Let_def dest: deref_nonNUL)

lemma peek_token:
  assumes "peek xs i toks = (True, j)" "gettoken xs j = (t, q, e, s)"
  shows "i < s" "s \<le> length xs"
proof -
  have j: "i \<le> j" "j < length xs" using peek_order [OF assms(1)] by simp_all
  have n: "deref xs j \<noteq> NUL" "j = skip is_ws xs i" using assms(1) by (auto simp: peek_def Let_def)
  have "\<not> is_ws (xs ! j)" using skip_stops [of is_ws xs i] j(2) n(2) by simp
  then have q: "skip is_ws xs j = j" using j(2) by (intro skip_fix)
  have t: "t \<noteq> NUL"
    using gettoken_cases [of xs j] assms(2) n(1) q
    by cases (auto simp: NUL_def is_sym_def symbols_def)
  show "i < s" "s \<le> length xs" using j gettoken_order [OF assms(2)] t by simp_all
qed

definition redir_of :: "char \<Rightarrow> u32 \<times> nat" where
  "redir_of tok = (if tok = CHR ''<'' then (O_RDONLY, 0) else (O_WRONLY OR O_CREATE, 1))"

text \<open>\<^verbatim>\<open>parseredirs\<close> wraps the command it is given, which \<^verbatim>\<open>parseexec\<close> goes on filling with arguments afterwards; so here it returns
  the list of redirections, first one first, to be wrapped around the command when it is complete.\<close>

type_synonym redir = "span \<times> u32 \<times> nat"

lemma redir_progress:
  assumes "peek xs i toks = (True, j)" "gettoken xs j = (t1, q1, e1, k)" "gettoken xs k = (t, q, e, l)"
  shows "length xs - l < length xs - i"
proof -
  have "i < k" "k \<le> length xs" using peek_token [OF assms(1,2)] by simp_all
  moreover have "k \<le> l" "l \<le> length xs" using gettoken_order [OF assms(3)] calculation(2) by simp_all
  ultimately show ?thesis by simp
qed

function parseredirs :: "string \<Rightarrow> nat \<Rightarrow> redir list \<Rightarrow> redir list presult" where
  "parseredirs xs i rs =
     (case peek xs i ''<>'' of (b, j) \<Rightarrow>
      if \<not> b then Parsed rs j
      else
        (case gettoken xs j of (tok, _, _, k) \<Rightarrow>
         case gettoken xs k of (a, q, eq, l) \<Rightarrow>
         if a \<noteq> CHR ''a'' then Error ''missing file for redirection''
         else parseredirs xs l (rs @ [((q, eq), redir_of tok)])))"
  by pat_completeness auto
termination by (relation "measure (\<lambda>(xs, i, rs). length xs - i)") (simp, clarsimp, metis redir_progress)

lemma bindP_cong [fundef_cong]:
  "m = m' \<Longrightarrow> (\<And>a i. m' = Parsed a i \<Longrightarrow> f a i = g a i) \<Longrightarrow> bindP m f = bindP m' g"
  by (cases m') simp_all

text \<open>The argument loop of \<^verbatim>\<open>parseexec\<close>, with the arguments and the redirections so far.\<close>

function parse_args :: "string \<Rightarrow> nat \<Rightarrow> span list \<Rightarrow> redir list \<Rightarrow> (span list \<times> redir list) presult" where
  "parse_args xs i args rs =
     (case peek xs i ''|)&;'' of (b, j) \<Rightarrow>
      if b then Parsed (args, rs) j
      else
        (case gettoken xs j of (tok, q, eq, k) \<Rightarrow>
         if tok = NUL then Parsed (args, rs) k
         else if tok \<noteq> CHR ''a'' then Error ''syntax''
         else if length args + 1 \<ge> MAXARGS then Error ''too many args''
         else bindP (parseredirs xs k rs) (\<lambda>rs' l. parse_args xs l (args @ [(q, eq)]) rs')))"
  by pat_completeness auto
termination by (relation "measure (\<lambda>(xs, i, args, rs). MAXARGS - length args)") auto

definition wrap :: "redir list \<Rightarrow> span cmd \<Rightarrow> span cmd" where
  "wrap rs c = foldl (\<lambda>c (w, mode, fd). REDIR c w mode fd) c rs"

lemma token_progress:
  assumes "peek xs i toks = (True, j)"
  shows "length xs - after_token xs j < length xs - i"
proof -
  obtain t q e s where g: "gettoken xs j = (t, q, e, s)" by (cases "gettoken xs j")
  show ?thesis using peek_token [OF assms g] g by (simp add: after_token_def)
qed

text \<open>The loop over \<^verbatim>\<open>&\<close> in \<^verbatim>\<open>parseline\<close>.\<close>

function backs :: "string \<Rightarrow> nat \<Rightarrow> span cmd \<Rightarrow> span cmd \<times> nat" where
  "backs xs i c = (case peek xs i ''&'' of (b, j) \<Rightarrow> if b then backs xs (after_token xs j) (BACK c) else (c, j))"
  by pat_completeness auto
termination by (relation "measure (\<lambda>(xs, i, c). length xs - i)") (simp, clarsimp, metis token_progress)

declare parseredirs.simps [simp del] parse_args.simps [simp del] backs.simps [simp del]

fun parseline :: "nat \<Rightarrow> string \<Rightarrow> nat \<Rightarrow> span cmd presult"
  and parsepipe :: "nat \<Rightarrow> string \<Rightarrow> nat \<Rightarrow> span cmd presult"
  and parseexec :: "nat \<Rightarrow> string \<Rightarrow> nat \<Rightarrow> span cmd presult"
  and parseblock :: "nat \<Rightarrow> string \<Rightarrow> nat \<Rightarrow> span cmd presult" where
  "parseline 0 xs i = Out"
| "parseline (Suc n) xs i =
     bindP (parsepipe n xs i) (\<lambda>c j.
     case backs xs j c of (c', k) \<Rightarrow>
     case peek xs k '';'' of (b, l) \<Rightarrow>
     if b then bindP (parseline n xs (after_token xs l)) (\<lambda>r m. Parsed (LIST c' r) m)
     else Parsed c' l)"
| "parsepipe 0 xs i = Out"
| "parsepipe (Suc n) xs i =
     bindP (parseexec n xs i) (\<lambda>c j.
     case peek xs j ''|'' of (b, k) \<Rightarrow>
     if b then bindP (parsepipe n xs (after_token xs k)) (\<lambda>r m. Parsed (PIPE c r) m)
     else Parsed c k)"
| "parseexec 0 xs i = Out"
| "parseexec (Suc n) xs i =
     (case peek xs i ''('' of (b, j) \<Rightarrow>
      if b then parseblock n xs j
      else
        bindP (parseredirs xs j []) (\<lambda>rs k.
        bindP (parse_args xs k [] rs) (\<lambda>(args, rs') l. Parsed (wrap rs' (EXEC args)) l)))"
| "parseblock 0 xs i = Out"
| "parseblock (Suc n) xs i =
     (case peek xs i ''('' of (b, j) \<Rightarrow>
      if \<not> b then Error ''parseblock''
      else
        bindP (parseline n xs (after_token xs j)) (\<lambda>c k.
        case peek xs k '')'' of (b', l) \<Rightarrow>
        if \<not> b' then Error ''syntax - missing )''
        else bindP (parseredirs xs (after_token xs l) []) (\<lambda>rs m. Parsed (wrap rs c) m)))"

text \<open>The depth of the calls is bounded by four for each character of the line, and four more.\<close>

definition parsecmd :: "string \<Rightarrow> span cmd presult" where
  "parsecmd s =
     bindP (parseline (4 * length s + 4) s 0) (\<lambda>c i.
     case peek s i '''' of (_, j) \<Rightarrow> if j \<noteq> length s then Error (''leftovers: '' @ drop j s @ [newline] @ ''syntax'') else Parsed c j)"

text \<open>\<^verbatim>\<open>nulterminate\<close> on the buffer, which has the line and its NUL.\<close>

primrec nulterminate :: "span cmd \<Rightarrow> string \<Rightarrow> string" where
  "nulterminate (EXEC ws) buf = foldl (\<lambda>b (_, eq). b[eq := NUL]) buf ws"
| "nulterminate (REDIR c w mode fd) buf = (nulterminate c buf)[snd w := NUL]"
| "nulterminate (PIPE l r) buf = nulterminate r (nulterminate l buf)"
| "nulterminate (LIST l r) buf = nulterminate r (nulterminate l buf)"
| "nulterminate (BACK c) buf = nulterminate c buf"

section \<open>What the parser returns\<close>

text \<open>A word of the line: word characters up to a character that is none, or to the end.\<close>

definition word_span :: "string \<Rightarrow> span \<Rightarrow> bool" where
  "word_span xs w \<longleftrightarrow> (case w of (q, e) \<Rightarrow> q < e \<and> e \<le> length xs \<and> (\<forall>k. q \<le> k \<and> k < e \<longrightarrow> is_word (xs ! k)) \<and>
     (e < length xs \<longrightarrow> \<not> is_word (xs ! e)))"

lemma gettoken_word:
  assumes "gettoken xs i = (CHR ''a'', q, e, s)"
  shows "word_span xs (q, e)"
  using gettoken_cases [of xs i]
proof cases
  case word
  let ?q = "skip is_ws xs i"
  have "?q < skip is_word xs ?q" using word skip_ge [of "?q + 1" is_word xs] by (subst skip.simps) simp
  then show ?thesis using word assms skip_le [OF less_imp_le [OF word(1)], of is_word] skip_all [of ?q _ is_word xs] skip_stops [of is_word xs ?q]
    by (auto simp: word_span_def)
qed (use assms in \<open>auto simp: NUL_def is_sym_def symbols_def\<close>)

definition okP :: "string \<Rightarrow> nat \<Rightarrow> ('a \<Rightarrow> bool) \<Rightarrow> 'a presult \<Rightarrow> bool" where
  "okP xs i S r \<longleftrightarrow> (\<forall>a j. r = Parsed a j \<longrightarrow> i \<le> j \<and> j \<le> length xs \<and> S a)"

lemma okP_Parsed [simp]: "okP xs i S (Parsed a j) \<longleftrightarrow> i \<le> j \<and> j \<le> length xs \<and> S a"
  and okP_Error [simp]: "okP xs i S (Error e)" and okP_Out [simp]: "okP xs i S Out"
  by (simp_all add: okP_def)

lemma okP_mono: "okP xs j S r \<Longrightarrow> i \<le> j \<Longrightarrow> okP xs i S r"
  by (auto simp: okP_def)

lemma okP_bind:
  assumes "okP xs i S m" "\<And>a j. i \<le> j \<Longrightarrow> j \<le> length xs \<Longrightarrow> S a \<Longrightarrow> okP xs j T (f a j)"
  shows "okP xs i T (bindP m f)"
proof (cases m)
  case (Parsed a j)
  then have j: "i \<le> j" "j \<le> length xs" "S a" using assms(1) by simp_all
  show ?thesis using Parsed okP_mono [OF assms(2) [OF j] j(1)] by simp
qed simp_all

text \<open>Redirections are of the standard input or output.\<close>

primrec redirs_std :: "'w cmd \<Rightarrow> bool" where
  "redirs_std (EXEC argv) \<longleftrightarrow> True"
| "redirs_std (REDIR c f m fd) \<longleftrightarrow> redirs_std c \<and> fd \<in> {0, 1}"
| "redirs_std (LIST l r) \<longleftrightarrow> redirs_std l \<and> redirs_std r"
| "redirs_std (PIPE l r) \<longleftrightarrow> redirs_std l \<and> redirs_std r"
| "redirs_std (BACK c) \<longleftrightarrow> redirs_std c"

abbreviation redirs_ok :: "string \<Rightarrow> redir list \<Rightarrow> bool" where
  "redirs_ok xs rs \<equiv> (\<forall>r\<in>set rs. word_span xs (fst r) \<and> snd (snd r) \<in> {0, 1})"

abbreviation cmd_ok :: "string \<Rightarrow> span cmd \<Rightarrow> bool" where
  "cmd_ok xs c \<equiv> (\<forall>w\<in>set_cmd c. word_span xs w) \<and> redirs_std c"

lemma parseredirs_ok:
  assumes "i \<le> length xs" "redirs_ok xs rs"
  shows "okP xs i (redirs_ok xs) (parseredirs xs i rs) \<and> parseredirs xs i rs \<noteq> Out"
  using assms
proof (induction xs i rs rule: parseredirs.induct)
  case (1 xs i rs)
  obtain b j where p: "peek xs i ''<>'' = (b, j)" by (cases "peek xs i ''<>''")
  obtain t q1 e1 k where t: "gettoken xs j = (t, q1, e1, k)" by (cases "gettoken xs j")
  obtain a q e l where a: "gettoken xs k = (a, q, e, l)" by (cases "gettoken xs k")
  show ?case
  proof (cases "b \<and> a = CHR ''a''")
    case True
    then have pt: "peek xs i ''<>'' = (True, j)" using p by simp
    have k: "i < k" "k \<le> length xs" using peek_token [OF pt t] by simp_all
    have l: "k \<le> l" "l \<le> length xs" using gettoken_order [OF a k(2)] by simp_all
    have w: "word_span xs (q, e)" using gettoken_word a True by blast
    have e: "parseredirs xs i rs = parseredirs xs l (rs @ [((q, e), redir_of t)])"
      using p t a True by (subst parseredirs.simps) simp
    have "okP xs l (redirs_ok xs) (parseredirs xs l (rs @ [((q, e), redir_of t)])) \<and> parseredirs xs l (rs @ [((q, e), redir_of t)]) \<noteq> Out"
      using 1(1) [OF p [symmetric] _ t [symmetric] refl refl a [symmetric] refl refl _ l(2)] True 1(3) w by (auto simp: redir_of_def)
    then show ?thesis using e okP_mono [of xs l _ _ i] k l by auto
  next
    case False
    then have "parseredirs xs i rs = (if b then Error ''missing file for redirection'' else Parsed rs j)"
      using p t a by (subst parseredirs.simps) auto
    then show ?thesis using 1(2,3) peek_order [OF p] by auto
  qed
qed

lemma parse_args_ok:
  assumes "i \<le> length xs" "redirs_ok xs rs" "\<forall>w\<in>set args. word_span xs w"
  shows "okP xs i (\<lambda>(args, rs). redirs_ok xs rs \<and> (\<forall>w\<in>set args. word_span xs w)) (parse_args xs i args rs) \<and> parse_args xs i args rs \<noteq> Out"
  using assms
proof (induction xs i args rs rule: parse_args.induct)
  case (1 xs i args rs)
  let ?S = "\<lambda>(args, rs). redirs_ok xs rs \<and> (\<forall>w\<in>set args. word_span xs w)"
  obtain b j where p: "peek xs i ''|)&;'' = (b, j)" by (cases "peek xs i ''|)&;''")
  obtain t q e k where t: "gettoken xs j = (t, q, e, k)" by (cases "gettoken xs j")
  have j: "i \<le> j" "j \<le> length xs" using peek_order [OF p] 1(2) by simp_all
  have k: "j \<le> k" "k \<le> length xs" using gettoken_order [OF t j(2)] by simp_all
  show ?case
  proof (cases "\<not> b \<and> t \<noteq> NUL \<and> t = CHR ''a'' \<and> \<not> length args + 1 \<ge> MAXARGS")
    case True
    let ?f = "\<lambda>rs' l. parse_args xs l (args @ [(q, e)]) rs'"
    have e: "parse_args xs i args rs = bindP (parseredirs xs k rs) ?f" using p t True by (subst parse_args.simps) auto
    have w: "word_span xs (q, e)" using gettoken_word t True by blast
    have r: "okP xs k (redirs_ok xs) (parseredirs xs k rs)" "parseredirs xs k rs \<noteq> Out" using parseredirs_ok [OF k(2) 1(3)] by simp_all
    have f: "okP xs l ?S (?f rs' l) \<and> ?f rs' l \<noteq> Out" if "l \<le> length xs" "redirs_ok xs rs'" "parseredirs xs k rs = Parsed rs' l" for rs' l
      using 1(1) [OF p [symmetric] _ t [symmetric] refl refl _ _ _ that(3) that(1,2)] True 1(4) w by auto
    show ?thesis
    proof (cases "parseredirs xs k rs")
      case (Parsed rs' l)
      then have l: "k \<le> l" "l \<le> length xs" "redirs_ok xs rs'" using r by simp_all
      have "i \<le> l" using j(1) k(1) l(1) by simp
      then show ?thesis using e Parsed f [OF l(2,3) Parsed] okP_mono [of xs l ?S _ i] by simp
    qed (use e r in simp_all)
  next
    case False
    then have "parse_args xs i args rs = (if b then Parsed (args, rs) j else if t = NUL then Parsed (args, rs) k
        else if t \<noteq> CHR ''a'' then Error ''syntax'' else Error ''too many args'')"
      using p t by (subst parse_args.simps) auto
    then show ?thesis using 1(3,4) j k by auto
  qed
qed

lemma after_token_le: "j \<le> length xs \<Longrightarrow> j \<le> after_token xs j \<and> after_token xs j \<le> length xs"
  by (cases "gettoken xs j") (use gettoken_order in \<open>fastforce simp: after_token_def\<close>)

lemma backs_ok:
  assumes "i \<le> length xs" "cmd_ok xs c" "backs xs i c = (c', j)"
  shows "i \<le> j \<and> j \<le> length xs \<and> cmd_ok xs c'"
  using assms
proof (induction xs i c rule: backs.induct)
  case (1 xs i c)
  obtain b k where p: "peek xs i ''&'' = (b, k)" by (cases "peek xs i ''&''")
  have k: "i \<le> k" "k \<le> length xs" using peek_order [OF p] 1(2) by simp_all
  show ?case
  proof (cases b)
    case True
    then have "backs xs i c = backs xs (after_token xs k) (BACK c)" using p by (subst backs.simps) simp
    then show ?thesis using 1(1) [OF p [symmetric] True] 1(3,4) k after_token_le [OF k(2)] by auto
  next
    case False
    then show ?thesis using 1(3,4) p k by (subst (asm) backs.simps) auto
  qed
qed

lemma wrap_ok: "redirs_ok xs rs \<Longrightarrow> cmd_ok xs c \<Longrightarrow> cmd_ok xs (wrap rs c)"
proof (induction rs arbitrary: c)
  case (Cons r rs)
  obtain w m fd where r: "r = (w, m, fd)" by (cases r)
  have "cmd_ok xs (wrap rs (REDIR c w m fd))" using Cons.prems by (intro Cons.IH) (auto simp: r)
  then show ?case by (simp add: wrap_def r)
qed (simp add: wrap_def)

text \<open>The recursive functions: where they stop, the words they return, and that the depth is enough.\<close>

lemma okP_peek:
  assumes "peek xs j toks = (b, k)" "j \<le> length xs"
  shows "j \<le> k" "k \<le> length xs" "k \<le> after_token xs k" "after_token xs k \<le> length xs"
  using peek_order [OF assms(1)] assms(2) after_token_le [of k xs] by simp_all

lemma parse_ok:
  assumes "i \<le> length xs"
  shows "okP xs i (cmd_ok xs) (parseline n xs i)" "okP xs i (cmd_ok xs) (parsepipe n xs i)"
    "okP xs i (cmd_ok xs) (parseexec n xs i)" "okP xs i (cmd_ok xs) (parseblock n xs i)"
  using assms
proof (induction n arbitrary: i)
  case (Suc n)
  {
    case 1
    show ?case unfolding parseline.simps
    proof (rule okP_bind [OF Suc.IH(2) [OF 1]])
      fix c j assume j: "i \<le> j" "j \<le> length xs" "cmd_ok xs c"
      obtain c' k where b: "backs xs j c = (c', k)" by (cases "backs xs j c")
      obtain t l where p: "peek xs k '';'' = (t, l)" by (cases "peek xs k '';''")
      have k: "j \<le> k" "k \<le> length xs" "cmd_ok xs c'" using backs_ok [OF j(2,3) b] by simp_all
      note l = okP_peek [OF p k(2)]
      have "okP xs (after_token xs l) (cmd_ok xs) (bindP (parseline n xs (after_token xs l)) (\<lambda>r m. Parsed (LIST c' r) m))"
        using k(3) by (intro okP_bind [OF Suc.IH(1) [OF l(4)]]) auto
      then have "okP xs j (cmd_ok xs) (bindP (parseline n xs (after_token xs l)) (\<lambda>r m. Parsed (LIST c' r) m))"
        by (rule okP_mono) (use k l in simp)
      then show "okP xs j (cmd_ok xs) (case backs xs j c of (c', k) \<Rightarrow> case peek xs k '';'' of (b, l) \<Rightarrow>
          if b then bindP (parseline n xs (after_token xs l)) (\<lambda>r m. Parsed (LIST c' r) m) else Parsed c' l)"
        using b p k l by simp
    qed
  next
    case 2
    show ?case unfolding parsepipe.simps
    proof (rule okP_bind [OF Suc.IH(3) [OF 2]])
      fix c j assume j: "i \<le> j" "j \<le> length xs" "cmd_ok xs c"
      obtain t k where p: "peek xs j ''|'' = (t, k)" by (cases "peek xs j ''|''")
      note k = okP_peek [OF p j(2)]
      have "okP xs (after_token xs k) (cmd_ok xs) (bindP (parsepipe n xs (after_token xs k)) (\<lambda>r m. Parsed (PIPE c r) m))"
        using j(3) by (intro okP_bind [OF Suc.IH(2) [OF k(4)]]) auto
      then have "okP xs j (cmd_ok xs) (bindP (parsepipe n xs (after_token xs k)) (\<lambda>r m. Parsed (PIPE c r) m))"
        by (rule okP_mono) (use k in simp)
      then show "okP xs j (cmd_ok xs) (case peek xs j ''|'' of (b, k) \<Rightarrow>
          if b then bindP (parsepipe n xs (after_token xs k)) (\<lambda>r m. Parsed (PIPE c r) m) else Parsed c k)"
        using p j k by simp
    qed
  next
    case 3
    obtain b j where p: "peek xs i ''('' = (b, j)" by (cases "peek xs i ''(''")
    note j = okP_peek [OF p 3]
    have "okP xs j (cmd_ok xs) (bindP (parseredirs xs j []) (\<lambda>rs k. bindP (parse_args xs k [] rs) (\<lambda>(args, rs') l. Parsed (wrap rs' (EXEC args)) l)))"
    proof (rule okP_bind [where S = "redirs_ok xs"])
      show "okP xs j (redirs_ok xs) (parseredirs xs j [])" using parseredirs_ok [OF j(2)] by simp
      fix rs k assume k: "j \<le> k" "k \<le> length xs" "redirs_ok xs rs"
      have "okP xs k (\<lambda>(args, rs). redirs_ok xs rs \<and> (\<forall>w\<in>set args. word_span xs w)) (parse_args xs k [] rs)"
        using parse_args_ok [OF k(2,3)] by simp
      then show "okP xs k (cmd_ok xs) (bindP (parse_args xs k [] rs) (\<lambda>(args, rs') l. Parsed (wrap rs' (EXEC args)) l))"
      proof (rule okP_bind)
        fix a l assume l: "k \<le> l" "l \<le> length xs" "case a of (args, rs) \<Rightarrow> redirs_ok xs rs \<and> (\<forall>w\<in>set args. word_span xs w)"
        obtain args rs' where a: "a = (args, rs')" by (cases a)
        have "cmd_ok xs (wrap rs' (EXEC args))" using l(3) by (intro wrap_ok) (simp_all add: a)
        then show "okP xs l (cmd_ok xs) ((case a of (args, rs') \<Rightarrow> \<lambda>l. Parsed (wrap rs' (EXEC args)) l) l)" using l(2) by (simp add: a)
      qed
    qed
    from okP_mono [OF this j(1)] okP_mono [OF Suc.IH(4) [OF j(2)] j(1)] show ?case using p by simp
  next
    case 4
    obtain b j where p: "peek xs i ''('' = (b, j)" by (cases "peek xs i ''(''")
    note j = okP_peek [OF p 4]
    have "okP xs (after_token xs j) (cmd_ok xs) (bindP (parseline n xs (after_token xs j)) (\<lambda>c k. case peek xs k '')'' of (b', l) \<Rightarrow>
        if \<not> b' then Error ''syntax - missing )'' else bindP (parseredirs xs (after_token xs l) []) (\<lambda>rs m. Parsed (wrap rs c) m)))"
    proof (rule okP_bind [OF Suc.IH(1) [OF j(4)]])
      fix c k assume k: "after_token xs j \<le> k" "k \<le> length xs" "cmd_ok xs c"
      obtain b' l where q: "peek xs k '')'' = (b', l)" by (cases "peek xs k '')''")
      note l = okP_peek [OF q k(2)]
      have "okP xs (after_token xs l) (cmd_ok xs) (bindP (parseredirs xs (after_token xs l) []) (\<lambda>rs m. Parsed (wrap rs c) m))"
      proof (rule okP_bind [where S = "redirs_ok xs"])
        show "okP xs (after_token xs l) (redirs_ok xs) (parseredirs xs (after_token xs l) [])" using parseredirs_ok [OF l(4)] by simp
        fix rs m assume m: "after_token xs l \<le> m" "m \<le> length xs" "redirs_ok xs rs"
        show "okP xs m (cmd_ok xs) (Parsed (wrap rs c) m)" using m(2) wrap_ok [OF m(3) k(3)] by simp
      qed
      then have "okP xs k (cmd_ok xs) (bindP (parseredirs xs (after_token xs l) []) (\<lambda>rs m. Parsed (wrap rs c) m))"
        by (rule okP_mono) (use l in simp)
      then show "okP xs k (cmd_ok xs) (case peek xs k '')'' of (b', l) \<Rightarrow>
          if \<not> b' then Error ''syntax - missing )'' else bindP (parseredirs xs (after_token xs l) []) (\<lambda>rs m. Parsed (wrap rs c) m))"
        using q by simp
    qed
    from okP_mono [OF this, of i] show ?case using p j by simp
  }
qed simp_all

lemma bindP_Out: "bindP m f = Out \<longleftrightarrow> m = Out \<or> (\<exists>a j. m = Parsed a j \<and> f a j = Out)"
  by (cases m) auto

lemma parse_fuel:
  assumes "i \<le> length xs"
  shows "4 * (length xs - i) + 3 \<le> n \<Longrightarrow> parseline n xs i \<noteq> Out" "4 * (length xs - i) + 2 \<le> n \<Longrightarrow> parsepipe n xs i \<noteq> Out"
    "4 * (length xs - i) + 1 \<le> n \<Longrightarrow> parseexec n xs i \<noteq> Out" "4 * (length xs - i) \<le> n \<Longrightarrow> i < length xs \<Longrightarrow> parseblock n xs i \<noteq> Out"
  using assms
proof (induction n arbitrary: i)
  case (Suc n)
  {
    case 1
    have p: "parsepipe n xs i \<noteq> Out" using Suc.IH(2) [OF _ 1(2)] 1(1) by simp
    have False if out: "parseline (Suc n) xs i = Out"
    proof -
      obtain c j where c: "parsepipe n xs i = Parsed c j" and
        f: "(case backs xs j c of (c', k) \<Rightarrow> case peek xs k '';'' of (b, l) \<Rightarrow>
          if b then bindP (parseline n xs (after_token xs l)) (\<lambda>r m. Parsed (LIST c' r) m) else Parsed c' l) = Out"
        using out p unfolding parseline.simps bindP_Out by blast
      obtain c' k where b: "backs xs j c = (c', k)" by (cases "backs xs j c")
      have j: "i \<le> j" "j \<le> length xs" "cmd_ok xs c" using parse_ok(2) [OF 1(2), of n] c by simp_all
      have k: "j \<le> k" "k \<le> length xs" using backs_ok [OF j(2,3) b] by simp_all
      obtain l where l: "peek xs k '';'' = (True, l)" "parseline n xs (after_token xs l) = Out"
        using f b by (auto simp: bindP_Out split: prod.splits if_splits)
      note q = okP_peek [OF l(1) k(2)]
      have "4 * (length xs - after_token xs l) + 3 \<le> n" using token_progress [OF l(1)] j k 1(1) by simp
      then show False using Suc.IH(1) [OF _ q(4)] l(2) by simp
    qed
    then show ?case by blast
  next
    case 2
    have p: "parseexec n xs i \<noteq> Out" using Suc.IH(3) [OF _ 2(2)] 2(1) by simp
    have False if out: "parsepipe (Suc n) xs i = Out"
    proof -
      obtain c j where c: "parseexec n xs i = Parsed c j" and
        f: "(case peek xs j ''|'' of (b, k) \<Rightarrow>
          if b then bindP (parsepipe n xs (after_token xs k)) (\<lambda>r m. Parsed (PIPE c r) m) else Parsed c k) = Out"
        using out p unfolding parsepipe.simps bindP_Out by blast
      have j: "i \<le> j" "j \<le> length xs" using parse_ok(3) [OF 2(2), of n] c by simp_all
      obtain l where l: "peek xs j ''|'' = (True, l)" "parsepipe n xs (after_token xs l) = Out"
        using f by (auto simp: bindP_Out split: prod.splits if_splits)
      note q = okP_peek [OF l(1) j(2)]
      have "4 * (length xs - after_token xs l) + 2 \<le> n" using token_progress [OF l(1)] j 2(1) by simp
      then show False using Suc.IH(2) [OF _ q(4)] l(2) by simp
    qed
    then show ?case by blast
  next
    case 3
    obtain b j where p: "peek xs i ''('' = (b, j)" by (cases "peek xs i ''(''")
    note j = okP_peek [OF p 3(2)]
    have a: "parse_args xs k [] rs \<noteq> Out" if "parseredirs xs j [] = Parsed rs k" for rs k
      using that parseredirs_ok [OF j(2), of "[]"] parse_args_ok [of k xs rs "[]"] by simp
    show ?case
    proof (cases b)
      case True
      have "j < length xs" using peek_order(3) [OF p] True by simp
      moreover have "4 * (length xs - j) \<le> n" using 3(1) j(1) by simp
      ultimately show ?thesis using Suc.IH(4) [OF _ _ j(2)] p True by simp
    next
      case False
      then show ?thesis using p a parseredirs_ok [OF j(2), of "[]"] by (auto simp: bindP_Out)
    qed
  next
    case 4
    obtain b j where p: "peek xs i ''('' = (b, j)" by (cases "peek xs i ''(''")
    note j = okP_peek [OF p 4(3)]
    show ?case
    proof (cases b)
      case True
      then have t: "peek xs i ''('' = (True, j)" using p by simp
      have n: "parseline n xs (after_token xs j) \<noteq> Out"
        using token_progress [OF t] 4(1) by (intro Suc.IH(1) [OF _ j(4)]) simp
      have "parseredirs xs (after_token xs l) [] \<noteq> Out"
        if "parseline n xs (after_token xs j) = Parsed c k" "peek xs k '')'' = (b', l)" for c k b' l
        using that parse_ok(1) [OF j(4), of n] okP_peek(4) [OF that(2)] parseredirs_ok [of "after_token xs l" xs "[]"] by simp
      then show ?thesis using n t by (auto simp: bindP_Out split: prod.splits if_splits)
    next
      case False
      then show ?thesis using p by simp
    qed
  }
qed simp_all

section \<open>The words of a command\<close>

text \<open>The C string at a pointer into the buffer, and the word a pair of pointers delimits.\<close>

definition cstring :: "string \<Rightarrow> nat \<Rightarrow> string" where
  "cstring buf q = takeWhile (\<lambda>c. c \<noteq> NUL) (drop q buf)"

definition word_at :: "string \<Rightarrow> span \<Rightarrow> string" where
  "word_at xs w = take (snd w - fst w) (drop (fst w) xs)"

lemma foldl_NUL: "k < length buf \<Longrightarrow> foldl (\<lambda>b (_, eq). b[eq := NUL]) buf ws ! k = (if k \<in> snd ` set ws then NUL else buf ! k)"
proof (induction ws arbitrary: buf)
  case (Cons w ws)
  have "foldl (\<lambda>b (_, eq). b[eq := NUL]) (buf[snd w := NUL]) ws ! k = (if k \<in> snd ` set ws then NUL else buf[snd w := NUL] ! k)"
    using Cons.prems by (intro Cons.IH) simp
  then show ?case using Cons.prems by (cases "k = snd w") (simp_all add: split_def)
qed simp

lemma length_nulterminate [simp]: "length (nulterminate c buf) = length buf"
proof (induction c arbitrary: buf)
  case (EXEC ws)
  show ?case by (simp, induction ws arbitrary: buf) (simp_all add: split_def)
qed simp_all

lemma nth_nulterminate: "k < length buf \<Longrightarrow> nulterminate c buf ! k = (if k \<in> snd ` set_cmd c then NUL else buf ! k)"
proof (induction c arbitrary: buf)
  case (REDIR c w mode fd)
  then show ?case by (cases "k = snd w") (simp_all add: nth_list_update)
qed (simp_all add: foldl_NUL image_Un)

lemma word_string:
  assumes "cmd_ok xs c" "NUL \<notin> set xs" "(q, e) \<in> set_cmd c"
  shows "cstring (nulterminate c (xs @ [NUL])) q = word_at xs (q, e)"
proof -
  let ?b = "nulterminate c (xs @ [NUL])"
  have w: "q < e" "e \<le> length xs" "\<And>k. q \<le> k \<Longrightarrow> k < e \<Longrightarrow> is_word (xs ! k)" using assms(1,3) by (auto simp: word_span_def)
  have n: "?b ! k = xs ! k \<and> ?b ! k \<noteq> NUL" if "q \<le> k" "k < e" for k
  proof -
    have "k \<notin> snd ` set_cmd c"
    proof
      assume "k \<in> snd ` set_cmd c"
      then obtain q' where "(q', k) \<in> set_cmd c" by auto
      then have "\<not> is_word (xs ! k)" using assms(1) w that by (auto simp: word_span_def)
      then show False using w(3) that by blast
    qed
    moreover have "xs ! k \<noteq> NUL" using assms(2) w that by (metis nth_mem order.strict_trans2)
    ultimately show ?thesis using that w by (simp add: nth_nulterminate nth_append)
  qed
  have "?b ! e = NUL" using assms(3) w by (force simp: nth_nulterminate)
  have t: "take (e - q) (drop q ?b) = word_at xs (q, e)"
    using n w by (intro nth_equalityI) (auto simp: word_at_def)
  have d: "drop q ?b = take (e - q) (drop q ?b) @ NUL # drop (Suc e) ?b"
    using \<open>?b ! e = NUL\<close> w Cons_nth_drop_Suc [of e ?b] append_take_drop_id [of "e - q" "drop q ?b"] by simp
  have "\<forall>x\<in>set (take (e - q) (drop q ?b)). x \<noteq> NUL"
  proof
    fix x assume "x \<in> set (take (e - q) (drop q ?b))"
    then obtain k where "k < e - q" "x = ?b ! (q + k)" by (auto simp: in_set_conv_nth)
    moreover from this have "q + k < e" by simp
    ultimately show "x \<noteq> NUL" using n [of "q + k"] by auto
  qed
  then show ?thesis unfolding cstring_def by (subst d) (simp add: t [symmetric])
qed

lemma parsecmd_ok:
  assumes "parsecmd s = Parsed c j"
  shows "cmd_ok s c"
proof -
  obtain i where "parseline (4 * length s + 4) s 0 = Parsed c i"
    using assms unfolding parsecmd_def by (cases "parseline (4 * length s + 4) s 0") (simp_all split: prod.splits if_splits)
  then show ?thesis using parse_ok(1) [of 0 s "4 * length s + 4"] by simp
qed

text \<open>C7. The parser ends on every line, with a command or with a syntax error; and once \<^verbatim>\<open>nulterminate\<close> has run, every argument and file
  name of the command is, as a C string, exactly the word of the line that was parsed: a non-empty run of characters that are neither
  white space nor symbols. No NUL put in for one word damages another.\<close>

theorem parsecmd_correct:
  assumes "NUL \<notin> set s"
  shows "parsecmd s \<noteq> Out \<and> (\<forall>c j. parsecmd s = Parsed c j \<longrightarrow> (\<forall>(q, e)\<in>set_cmd c.
    cstring (nulterminate c (s @ [NUL])) q = word_at s (q, e) \<and> q < e \<and> (\<forall>x\<in>set (word_at s (q, e)). \<not> is_ws x \<and> \<not> is_sym x)))"
proof -
  have "parsecmd s \<noteq> Out"
    using parse_fuel(1) [of 0 s "4 * length s + 4"] by (auto simp: parsecmd_def bindP_Out split: prod.splits if_splits)
  moreover have "cstring (nulterminate c (s @ [NUL])) q = word_at s (q, e) \<and> q < e \<and> (\<forall>x\<in>set (word_at s (q, e)). \<not> is_ws x \<and> \<not> is_sym x)"
    if r: "parsecmd s = Parsed c j" "(q, e) \<in> set_cmd c" for c j q e
  proof -
    have ok: "cmd_ok s c" using r(1) by (rule parsecmd_ok)
    then have w: "q < e" "e \<le> length s" "\<And>k. q \<le> k \<Longrightarrow> k < e \<Longrightarrow> is_word (s ! k)" using r(2) by (auto simp: word_span_def)
    have "is_word x" if "x \<in> set (word_at s (q, e))" for x
      using that w by (auto simp: word_at_def set_conv_nth)
    then show ?thesis using word_string [OF ok assms r(2)] w(1) by (auto simp: is_word_def)
  qed
  ultimately show ?thesis by blast
qed

text \<open>A line with a pipe, a redirection and a background mark.\<close>

definition line1 :: string where "line1 = ''cat x | wc > y&''"

definition cmd1 :: "span cmd" where
  "cmd1 = BACK (PIPE (EXEC [(0, 3), (4, 5)]) (REDIR (EXEC [(8, 10)]) (13, 14) 513 1))"

lemma parse_line1: "parsecmd line1 = Parsed cmd1 15"
  by code_simp

theorem parsecmd_correct_witness:
  "parsecmd line1 = Parsed cmd1 15 \<and> cstring (nulterminate cmd1 (line1 @ [NUL])) 8 = ''wc'' \<and> cstring (nulterminate cmd1 (line1 @ [NUL])) 13 = ''y''"
proof -
  have n: "NUL \<notin> set line1" by (simp add: line1_def NUL_def)
  have w: "(8, 10) \<in> set_cmd cmd1" "(13, 14) \<in> set_cmd cmd1" by (simp_all add: cmd1_def)
  have "word_at line1 (8, 10) = ''wc''" "word_at line1 (13, 14) = ''y''" by (simp_all add: word_at_def line1_def)
  then show ?thesis using parsecmd_correct [OF n] parse_line1 w by fastforce
qed

end
