(* ===== verification/Xv6_Mmu.thy ===== *)
theory Xv6_Mmu
  imports Xv6_Base
begin

text \<open>
  The constants of \<^verbatim>\<open>param.h\<close>, \<^verbatim>\<open>memlayout.h\<close> and \<^verbatim>\<open>mmu.h\<close> and the address arithmetic of the
  x86 paging unit: page rounding, the split of a virtual address into directory index, table
  index and offset, and the flag and address parts of a page table entry.
\<close>

section \<open>param.h\<close>

definition NPROC :: nat where "NPROC = 64"
definition KSTACKSIZE :: u32 where "KSTACKSIZE = 4096"
definition NCPU :: nat where "NCPU = 8"
definition NOFILE :: nat where "NOFILE = 16"
definition NFILE :: nat where "NFILE = 100"
definition NINODE :: nat where "NINODE = 50"
definition NDEV :: nat where "NDEV = 10"
definition ROOTDEV :: u32 where "ROOTDEV = 1"
definition MAXARG :: nat where "MAXARG = 32"
definition MAXOPBLOCKS :: nat where "MAXOPBLOCKS = 10"
definition LOGSIZE :: nat where "LOGSIZE = MAXOPBLOCKS * 3"
definition NBUF :: nat where "NBUF = MAXOPBLOCKS * 3"
definition FSSIZE :: nat where "FSSIZE = 1000"

lemmas param_defs = NPROC_def NCPU_def NOFILE_def NFILE_def NINODE_def NDEV_def MAXARG_def
  MAXOPBLOCKS_def LOGSIZE_def NBUF_def FSSIZE_def

section \<open>memlayout.h\<close>

definition EXTMEM :: u32 where "EXTMEM = 0x100000"
definition PHYSTOP :: u32 where "PHYSTOP = 0xE000000"
definition DEVSPACE :: u32 where "DEVSPACE = 0xFE000000"
definition KERNBASE :: u32 where "KERNBASE = 0x80000000"
definition KERNLINK :: u32 where "KERNLINK = KERNBASE + EXTMEM"

definition V2P :: "u32 \<Rightarrow> u32" where "V2P a = a - KERNBASE"
definition P2V :: "u32 \<Rightarrow> u32" where "P2V a = a + KERNBASE"

lemma P2V_V2P [simp]: "P2V (V2P a) = a"
  and V2P_P2V [simp]: "V2P (P2V a) = a"
  by (simp_all add: V2P_def P2V_def)

lemmas layout_defs = EXTMEM_def PHYSTOP_def DEVSPACE_def KERNBASE_def KERNLINK_def

section \<open>mmu.h: segments\<close>

definition SEG_KCODE :: nat where "SEG_KCODE = 1"
definition SEG_KDATA :: nat where "SEG_KDATA = 2"
definition SEG_UCODE :: nat where "SEG_UCODE = 3"
definition SEG_UDATA :: nat where "SEG_UDATA = 4"
definition SEG_TSS :: nat where "SEG_TSS = 5"
definition NSEGS :: nat where "NSEGS = 6"

record segdesc =
  lim_15_0 :: "16 word"
  base_15_0 :: "16 word"
  base_23_16 :: "8 word"
  seg_type :: "4 word"
  seg_s :: "1 word"
  seg_dpl :: "2 word"
  seg_p :: "1 word"
  lim_19_16 :: "4 word"
  seg_avl :: "1 word"
  seg_rsv1 :: "1 word"
  seg_db :: "1 word"
  seg_g :: "1 word"
  base_31_24 :: "8 word"

definition SEG :: "4 word \<Rightarrow> u32 \<Rightarrow> u32 \<Rightarrow> 2 word \<Rightarrow> segdesc" where
  "SEG type base lim dpl =
     \<lparr> lim_15_0 = ucast (drop_bit 12 lim AND 0xffff), base_15_0 = ucast (base AND 0xffff),
       base_23_16 = ucast (drop_bit 16 base AND 0xff), seg_type = type, seg_s = 1,
       seg_dpl = dpl, seg_p = 1, lim_19_16 = ucast (drop_bit 28 lim), seg_avl = 0,
       seg_rsv1 = 0, seg_db = 1, seg_g = 1, base_31_24 = ucast (drop_bit 24 base) \<rparr>"

definition SEG16 :: "4 word \<Rightarrow> u32 \<Rightarrow> u32 \<Rightarrow> 2 word \<Rightarrow> segdesc" where
  "SEG16 type base lim dpl =
     \<lparr> lim_15_0 = ucast (lim AND 0xffff), base_15_0 = ucast (base AND 0xffff),
       base_23_16 = ucast (drop_bit 16 base AND 0xff), seg_type = type, seg_s = 1,
       seg_dpl = dpl, seg_p = 1, lim_19_16 = ucast (drop_bit 16 lim), seg_avl = 0,
       seg_rsv1 = 0, seg_db = 1, seg_g = 0, base_31_24 = ucast (drop_bit 24 base) \<rparr>"

definition DPL_USER :: "2 word" where "DPL_USER = 3"
definition STA_X :: "4 word" where "STA_X = 8"
definition STA_W :: "4 word" where "STA_W = 2"
definition STA_R :: "4 word" where "STA_R = 2"
definition STS_T32A :: "4 word" where "STS_T32A = 9"

text \<open>The base address the hardware reassembles from a descriptor's three pieces.\<close>

definition seg_base :: "segdesc \<Rightarrow> u32" where
  "seg_base d = ucast (base_15_0 d) OR push_bit 16 (ucast (base_23_16 d))
                  OR push_bit 24 (ucast (base_31_24 d))"

text \<open>The fields of the task state segment that the kernel writes.\<close>

record taskstate =
  esp0 :: u32
  ss0 :: u16
  iomb :: u16

section \<open>mmu.h: pages\<close>

definition PGSIZE :: u32 where "PGSIZE = 4096"
definition NPDENTRIES :: nat where "NPDENTRIES = 1024"

definition PDX :: "u32 \<Rightarrow> u32" where "PDX va = drop_bit 22 va AND 0x3FF"
definition PTX :: "u32 \<Rightarrow> u32" where "PTX va = drop_bit 12 va AND 0x3FF"

definition PGADDR :: "u32 \<Rightarrow> u32 \<Rightarrow> u32 \<Rightarrow> u32" where
  "PGADDR d t off = push_bit 22 d OR push_bit 12 t OR off"

definition PGROUNDUP :: "u32 \<Rightarrow> u32" where
  "PGROUNDUP sz = (sz + PGSIZE - 1) AND NOT (PGSIZE - 1)"

definition PGROUNDDOWN :: "u32 \<Rightarrow> u32" where
  "PGROUNDDOWN a = a AND NOT (PGSIZE - 1)"

definition PTE_P :: u32 where "PTE_P = 1"
definition PTE_W :: u32 where "PTE_W = 2"
definition PTE_U :: u32 where "PTE_U = 4"

definition PTE_ADDR :: "u32 \<Rightarrow> u32" where "PTE_ADDR pte = pte AND NOT 0xFFF"
definition PTE_FLAGS :: "u32 \<Rightarrow> u32" where "PTE_FLAGS pte = pte AND 0xFFF"

lemmas pte_defs = PTE_P_def PTE_W_def PTE_U_def PTE_ADDR_def PTE_FLAGS_def

lemma mask12: "(0xFFF :: u32) = mask 12"
  by (simp add: mask_eq_exp_minus_1)

lemma unat_and_mask:
  fixes a :: u32
  assumes "m = mask k"
  shows "unat (a AND m) = unat a mod 2 ^ k"
proof -
  have "a AND m = take_bit k a" by (simp only: assms take_bit_eq_mask)
  then have "unat (a AND m) = take_bit k (unat a)" by (simp only: unsigned_take_bit_eq)
  also have "\<dots> = unat a mod 2 ^ k" by (rule take_bit_eq_mod)
  finally show ?thesis .
qed

lemma unat_and_mask12: "unat (a AND 0xFFF :: u32) = unat a mod 4096"
  using unat_and_mask [OF mask12, of a] by simp

lemma and_not_mask12: "(a :: u32) AND - 4096 = a - (a AND 0xFFF)"
proof -
  have "(a AND 0xFFF) + (a AND NOT 0xFFF) = a"
    by (subst disjunctive_add) (auto simp: bit_simps intro!: bit_word_eqI)
  then show ?thesis by (simp add: algebra_simps)
qed

lemma unat_and_not_mask12: "unat ((a :: u32) AND - 4096) = unat a - unat a mod 4096"
proof -
  have "a AND 0xFFF \<le> a" by (rule word_and_le2)
  then have "unat (a - (a AND 0xFFF)) = unat a - unat (a AND 0xFFF)" by (rule unat_sub)
  then show ?thesis by (simp only: and_not_mask12 unat_and_mask12)
qed

lemma unat_PGROUNDDOWN: "unat (PGROUNDDOWN a) = unat a - unat a mod 4096"
  using unat_and_not_mask12 [of a] by (simp add: PGROUNDDOWN_def PGSIZE_def)

lemma unat_PTE_ADDR: "unat (PTE_ADDR a) = unat a - unat a mod 4096"
  using unat_and_not_mask12 [of a] by (simp add: PTE_ADDR_def)

lemma unat_PTE_FLAGS: "unat (PTE_FLAGS a) = unat a mod 4096"
  by (simp only: PTE_FLAGS_def unat_and_mask12)

text \<open>Below the last page \<^verbatim>\<open>PGROUNDUP\<close> is the least multiple of the page size that is not below
  its argument; above it, the sum wraps and the result is 0.\<close>

lemma unat_PGROUNDUP:
  assumes "unat sz \<le> 2 ^ 32 - 4096"
  shows "unat (PGROUNDUP sz) = (unat sz + 4095) div 4096 * 4096"
proof -
  have s: "unat (sz + 4095) = unat sz + 4095"
    using assms by (simp add: unat_word_ariths)
  have e: "PGROUNDUP sz = (sz + 4095) AND - 4096"
    by (simp add: PGROUNDUP_def PGSIZE_def add_diff_eq [symmetric])
  show ?thesis
    by (simp only: e unat_and_not_mask12 s minus_mod_eq_div_mult)
qed

lemma mask10: "(0x3FF :: u32) = mask 10"
  by (simp add: mask_eq_exp_minus_1)

lemma PDX_less: "unat (PDX va) < 1024" and PTX_less: "unat (PTX va) < 1024"
  using unat_and_mask [OF mask10] by (simp_all add: PDX_def PTX_def)

text \<open>A virtual address is recovered from its three parts.\<close>

lemma PGADDR_split: "PGADDR (PDX va) (PTX va) (PTE_FLAGS va) = va"
proof (rule bit_word_eqI)
  fix n assume n: "n < LENGTH(32)"
  have "n < 12 \<or> 12 \<le> n \<and> n < 22 \<or> 22 \<le> n" by arith
  with n show "bit (PGADDR (PDX va) (PTX va) (PTE_FLAGS va)) n = bit va n"
    by (auto simp: PGADDR_def PDX_def PTX_def PTE_FLAGS_def mask12 mask10 bit_simps)
qed

lemma PGROUND_aligned: "PGROUNDUP a mod PGSIZE = 0" "PGROUNDDOWN a mod PGSIZE = 0"
proof -
  have "(x AND NOT 0xFFF) mod 4096 = 0" for x :: u32
  proof -
    have "take_bit 12 (x AND NOT (mask 12)) = 0" by (rule bit_word_eqI) (auto simp: bit_simps)
    then show ?thesis by (simp add: take_bit_eq_mod mask_eq_exp_minus_1)
  qed
  then show "PGROUNDUP a mod PGSIZE = 0" "PGROUNDDOWN a mod PGSIZE = 0"
    by (simp_all add: PGROUNDUP_def PGROUNDDOWN_def PGSIZE_def)
qed

end
