(* ===== verification/Xv6_String.thy ===== *)
theory Xv6_String
  imports Xv6_Mmu
begin

text \<open>
  Byte-addressed memory and the kernel's memory and string routines (\<^verbatim>\<open>string.c\<close>). A memory is a
  function from 32-bit addresses to bytes; address arithmetic wraps as it does on the machine.
  Each routine is a function from the memory to the memory after it, or to its result.
\<close>

type_synonym memory = "u32 \<Rightarrow> u8"

section \<open>Words in memory\<close>

text \<open>A 32-bit word is stored with its low byte first.\<close>

definition byte_of :: "u32 \<Rightarrow> nat \<Rightarrow> u8" where
  "byte_of w i = ucast (drop_bit (8 * i) w)"

definition word_of_bytes :: "u8 \<Rightarrow> u8 \<Rightarrow> u8 \<Rightarrow> u8 \<Rightarrow> u32" where
  "word_of_bytes b0 b1 b2 b3 = ucast b0 OR push_bit 8 (ucast b1) OR push_bit 16 (ucast b2) OR push_bit 24 (ucast b3)"

definition load32 :: "memory \<Rightarrow> u32 \<Rightarrow> u32" where
  "load32 m a = word_of_bytes (m a) (m (a + 1)) (m (a + 2)) (m (a + 3))"

definition store32 :: "u32 \<Rightarrow> u32 \<Rightarrow> memory \<Rightarrow> memory" where
  "store32 a w m = m(a := byte_of w 0, a + 1 := byte_of w 1, a + 2 := byte_of w 2, a + 3 := byte_of w 3)"

text \<open>The same in a block of bytes that is kept as a list.\<close>

definition le32 :: "u8 list \<Rightarrow> nat \<Rightarrow> u32" where
  "le32 d i = word_of_bytes (d ! i) (d ! (i + 1)) (d ! (i + 2)) (d ! (i + 3))"

definition put32 :: "nat \<Rightarrow> u32 \<Rightarrow> u8 list \<Rightarrow> u8 list" where
  "put32 i w d = d[i := byte_of w 0, i + 1 := byte_of w 1, i + 2 := byte_of w 2, i + 3 := byte_of w 3]"

definition le16 :: "u8 list \<Rightarrow> nat \<Rightarrow> u16" where
  "le16 d i = ucast (d ! i) OR push_bit 8 (ucast (d ! (i + 1)))"

definition put16 :: "nat \<Rightarrow> u16 \<Rightarrow> u8 list \<Rightarrow> u8 list" where
  "put16 i w d = d[i := ucast w, i + 1 := ucast (drop_bit 8 w)]"

text \<open>Copying such a block to memory.\<close>

primrec store_bytes :: "u8 list \<Rightarrow> u32 \<Rightarrow> memory \<Rightarrow> memory" where
  "store_bytes [] a m = m"
| "store_bytes (b # bs) a m = store_bytes bs (a + 1) (m(a := b))"

section \<open>memset\<close>

text \<open>The string instructions \<^verbatim>\<open>rep stosb\<close> and \<^verbatim>\<open>rep stosl\<close> of \<^verbatim>\<open>x86.h\<close>.\<close>

primrec stosb :: "nat \<Rightarrow> u32 \<Rightarrow> u8 \<Rightarrow> memory \<Rightarrow> memory" where
  "stosb 0 a c m = m"
| "stosb (Suc n) a c m = stosb n (a + 1) c (m(a := c))"

primrec stosl :: "nat \<Rightarrow> u32 \<Rightarrow> u32 \<Rightarrow> memory \<Rightarrow> memory" where
  "stosl 0 a w m = m"
| "stosl (Suc n) a w m = stosl n (a + 4) w (store32 a w m)"

definition memset :: "u32 \<Rightarrow> u32 \<Rightarrow> u32 \<Rightarrow> memory \<Rightarrow> memory" where
  "memset dst c n m =
     (if dst mod 4 = 0 \<and> n mod 4 = 0 then
        let c' = c AND 0xFF in
        stosl (unat (n div 4)) dst (push_bit 24 c' OR push_bit 16 c' OR push_bit 8 c' OR c') m
      else stosb (unat n) dst (ucast c) m)"

section \<open>memcmp, memmove, memcpy\<close>

primrec memcmp_loop :: "nat \<Rightarrow> memory \<Rightarrow> u32 \<Rightarrow> u32 \<Rightarrow> int" where
  "memcmp_loop 0 m s1 s2 = 0"
| "memcmp_loop (Suc n) m s1 s2 =
     (if m s1 \<noteq> m s2 then uint (m s1) - uint (m s2) else memcmp_loop n m (s1 + 1) (s2 + 1))"

definition memcmp :: "memory \<Rightarrow> u32 \<Rightarrow> u32 \<Rightarrow> u32 \<Rightarrow> int" where
  "memcmp m v1 v2 n = memcmp_loop (unat n) m v1 v2"

primrec copy_up :: "nat \<Rightarrow> u32 \<Rightarrow> u32 \<Rightarrow> memory \<Rightarrow> memory" where
  "copy_up 0 d s m = m"
| "copy_up (Suc n) d s m = copy_up n (d + 1) (s + 1) (m(d := m s))"

primrec copy_down :: "nat \<Rightarrow> u32 \<Rightarrow> u32 \<Rightarrow> memory \<Rightarrow> memory" where
  "copy_down 0 d s m = m"
| "copy_down (Suc n) d s m = copy_down n (d - 1) (s - 1) (m(d - 1 := m (s - 1)))"

definition memmove :: "u32 \<Rightarrow> u32 \<Rightarrow> u32 \<Rightarrow> memory \<Rightarrow> memory" where
  "memmove dst src n m =
     (if src < dst \<and> src + n > dst then copy_down (unat n) (dst + n) (src + n) m
      else copy_up (unat n) dst src m)"

definition memcpy :: "u32 \<Rightarrow> u32 \<Rightarrow> u32 \<Rightarrow> memory \<Rightarrow> memory" where
  "memcpy dst src n m = memmove dst src n m"

section \<open>Strings\<close>

primrec strncmp_loop :: "nat \<Rightarrow> memory \<Rightarrow> u32 \<Rightarrow> u32 \<Rightarrow> int" where
  "strncmp_loop 0 m p q = 0"
| "strncmp_loop (Suc n) m p q =
     (if m p \<noteq> 0 \<and> m p = m q then strncmp_loop n m (p + 1) (q + 1) else uint (m p) - uint (m q))"

definition strncmp :: "memory \<Rightarrow> u32 \<Rightarrow> u32 \<Rightarrow> u32 \<Rightarrow> int" where
  "strncmp m p q n = strncmp_loop (unat n) m p q"

primrec strncpy_loop :: "nat \<Rightarrow> u32 \<Rightarrow> u32 \<Rightarrow> memory \<Rightarrow> memory" where
  "strncpy_loop 0 s t m = m"
| "strncpy_loop (Suc n) s t m =
     (let m' = m(s := m t) in
      if m t \<noteq> 0 then strncpy_loop n (s + 1) (t + 1) m' else stosb n (s + 1) 0 m')"

definition strncpy :: "u32 \<Rightarrow> u32 \<Rightarrow> int \<Rightarrow> memory \<Rightarrow> memory" where
  "strncpy s t n m = strncpy_loop (nat n) s t m"

primrec safestrcpy_loop :: "nat \<Rightarrow> u32 \<Rightarrow> u32 \<Rightarrow> memory \<Rightarrow> memory" where
  "safestrcpy_loop 0 s t m = m(s := 0)"
| "safestrcpy_loop (Suc k) s t m =
     (let m' = m(s := m t) in
      if m t \<noteq> 0 then safestrcpy_loop k (s + 1) (t + 1) m' else m'(s + 1 := 0))"

definition safestrcpy :: "u32 \<Rightarrow> u32 \<Rightarrow> int \<Rightarrow> memory \<Rightarrow> memory" where
  "safestrcpy s t n m = (if n \<le> 0 then m else safestrcpy_loop (nat (n - 1)) s t m)"

partial_function (option) strlen_from :: "memory \<Rightarrow> u32 \<Rightarrow> nat \<Rightarrow> nat option" where
  "strlen_from m s n = (if m (s + of_nat n) = 0 then Some n else strlen_from m s (Suc n))"

definition strlen :: "memory \<Rightarrow> u32 \<Rightarrow> nat option" where
  "strlen m s = strlen_from m s 0"

text \<open>The bytes of a buffer, and the string in it: the bytes before the first zero, at most \<open>n\<close>.\<close>

definition bytes_at :: "memory \<Rightarrow> u32 \<Rightarrow> nat \<Rightarrow> u8 list" where
  "bytes_at m a n = map (\<lambda>i. m (a + of_nat i)) [0..<n]"

definition cstr :: "memory \<Rightarrow> u32 \<Rightarrow> nat \<Rightarrow> u8 list" where
  "cstr m a n = takeWhile (\<lambda>b. b \<noteq> 0) (bytes_at m a n)"

text \<open>Two buffers of \<open>n\<close> bytes that do not overlap.\<close>

definition apart :: "u32 \<Rightarrow> u32 \<Rightarrow> nat \<Rightarrow> bool" where
  "apart s t n \<longleftrightarrow> (\<forall>i<n. \<forall>j<n. s + of_nat i \<noteq> t + of_nat j)"

section \<open>What the routines do\<close>

lemma bytes_at_0 [simp]: "bytes_at m a 0 = []"
  by (simp add: bytes_at_def)

lemma bytes_at_Suc: "bytes_at m a (Suc n) = m a # bytes_at m (a + 1) n"
  by (simp add: bytes_at_def upt_conv_Cons map_Suc_upt [symmetric] add.assoc del: upt_Suc)

lemma length_bytes_at [simp]: "length (bytes_at m a n) = n"
  by (simp add: bytes_at_def)

lemma nth_bytes_at [simp]: "i < n \<Longrightarrow> bytes_at m a n ! i = m (a + of_nat i)"
  by (simp add: bytes_at_def)

lemma cstr_0 [simp]: "cstr m a 0 = []"
  by (simp add: cstr_def)

lemma cstr_Suc: "cstr m a (Suc n) = (if m a = 0 then [] else m a # cstr m (a + 1) n)"
  by (simp add: cstr_def bytes_at_Suc)

text \<open>Offsets into a block of at most the whole address space are compared as words, which also
  covers a block that wraps around.\<close>

lemma word_offset_Suc:
  fixes a b :: u32
  assumes "Suc n < 2 ^ 32"
  shows "unat (b - a) < Suc n \<longleftrightarrow> b = a \<or> unat (b - (a + 1)) < n"
proof (cases "b = a")
  case True
  then show ?thesis by simp
next
  case False
  then have "b - a \<noteq> 0" by simp
  then have "unat (b - a - 1) = unat (b - a) - 1" "unat (b - a) \<noteq> 0"
    by (simp_all add: unat_minus_one unat_eq_0)
  then show ?thesis using False by (simp add: diff_diff_eq [symmetric]) arith
qed

lemma stosb_spec:
  assumes "n < 2 ^ 32"
  shows "stosb n a c m b = (if unat (b - a) < n then c else m b)"
  using assms
proof (induction n arbitrary: a m)
  case 0
  show ?case by simp
next
  case (Suc n)
  then have "unat (b - a) < Suc n \<longleftrightarrow> b = a \<or> unat (b - (a + 1)) < n"
    by (intro word_offset_Suc) simp
  with Suc show ?case by auto
qed

lemma word_offset_add:
  fixes a b :: u32
  assumes "k + n < 2 ^ 32"
  shows "unat (b - a) < k + n \<longleftrightarrow> unat (b - a) < k \<or> unat (b - (a + of_nat k)) < n"
proof (cases "unat (b - a) < k")
  case True
  then show ?thesis by simp
next
  case False
  have k: "unat (of_nat k :: u32) = k" using assms by (simp add: unat_of_nat)
  with False have "of_nat k \<le> b - a" by (simp add: word_le_nat_alt)
  then have "unat (b - a - of_nat k) = unat (b - a) - k" by (simp add: unat_sub k)
  with False show ?thesis by (simp add: diff_diff_eq [symmetric]) arith
qed

lemma store32_spec:
  "store32 a w m b = (if unat (b - a) < 4 then byte_of w (unat (b - a)) else m b)"
proof -
  have "b - a = 0 \<or> b - a = 1 \<or> b - a = 2 \<or> b - a = 3 \<or> \<not> unat (b - a) < 4"
    by unat_arith
  then consider "b = a" | "b = a + 1" | "b = a + 2" | "b = a + 3" | "\<not> unat (b - a) < 4"
    by (metis add.commute add_0 diff_add_cancel)
  then show ?thesis
    by cases (auto simp: store32_def)
qed

lemma stosl_spec:
  assumes "4 * n < 2 ^ 32" and "\<And>i. i < 4 \<Longrightarrow> byte_of w i = c"
  shows "stosl n a w m b = (if unat (b - a) < 4 * n then c else m b)"
  using assms(1)
proof (induction n arbitrary: a m)
  case 0
  show ?case by simp
next
  case (Suc n)
  then have "unat (b - a) < 4 + 4 * n \<longleftrightarrow> unat (b - a) < 4 \<or> unat (b - (a + of_nat 4)) < 4 * n"
    by (intro word_offset_add) simp
  with Suc assms(2) show ?case by (auto simp: store32_spec)
qed

lemma byte_of_repeated:
  assumes "i < 4"
  shows "byte_of (push_bit 24 (c AND 0xFF) OR push_bit 16 (c AND 0xFF) OR push_bit 8 (c AND 0xFF) OR (c AND 0xFF)) i = ucast c"
proof (rule bit_word_eqI)
  fix k assume k: "k < LENGTH(8)"
  have m: "(0xFF :: u32) = mask 8" by (simp add: mask_eq_exp_minus_1)
  consider "i = 0" | "i = 1" | "i = 2" | "i = 3" using assms by linarith
  then show "bit (byte_of (push_bit 24 (c AND 0xFF) OR push_bit 16 (c AND 0xFF) OR push_bit 8 (c AND 0xFF) OR (c AND 0xFF)) i) k
      = bit (ucast c :: u8) k"
    using k by cases (auto simp: byte_of_def m bit_simps)
qed

lemma unat_4: "unat (4 :: u32) = 4"
  by simp

lemma memset_spec:
  "memset dst c n m b = (if b - dst < n then ucast c else m b)"
proof (cases "dst mod 4 = 0 \<and> n mod 4 = 0")
  case True
  then have "unat n mod 4 = 0" by (metis unat_0 unat_mod unat_4)
  then have n: "4 * unat (n div 4) = unat n" by (simp add: unat_div) arith
  have "memset dst c n m b = (if unat (b - dst) < 4 * unat (n div 4) then ucast c else m b)"
    unfolding memset_def Let_def using True by (simp only: if_True simp_thms)
      (rule stosl_spec, use n in simp, erule byte_of_repeated)
  then show ?thesis unfolding n by (simp add: word_less_nat_alt)
next
  case False
  have "unat n < 2 ^ 32" by simp
  then show ?thesis
    using False by (auto simp: memset_def stosb_spec word_less_nat_alt)
qed

lemma copy_up_spec:
  assumes "n < 2 ^ 32" and "\<And>i j. i < j \<Longrightarrow> j < n \<Longrightarrow> d + of_nat i \<noteq> s + of_nat j"
  shows "copy_up n d s m b = (if unat (b - d) < n then m (s + (b - d)) else m b)"
  using assms
proof (induction n arbitrary: d s m)
  case 0
  show ?case by simp
next
  case (Suc n)
  have ne: "d + 1 + of_nat i \<noteq> s + 1 + of_nat j" if "i < j" "j < n" for i j
    using Suc.prems(2) [of "Suc i" "Suc j"] that by (simp add: algebra_simps)
  have IH: "copy_up n (d + 1) (s + 1) (m(d := m s)) b
      = (if unat (b - (d + 1)) < n then (m(d := m s)) (s + 1 + (b - (d + 1))) else (m(d := m s)) b)"
    by (rule Suc.IH) (use Suc.prems(1) ne in auto)
  have off: "unat (b - d) < Suc n \<longleftrightarrow> b = d \<or> unat (b - (d + 1)) < n"
    using Suc.prems(1) by (intro word_offset_Suc) simp
  have self: "\<not> unat (d - (d + 1)) < n"
    using Suc.prems(1) by simp
  have src: "s + 1 + (b - (d + 1)) = s + (b - d)" by simp
  have "s + (b - d) \<noteq> d" if "unat (b - (d + 1)) < n" "b \<noteq> d"
    using Suc.prems(2) [of 0 "unat (b - d)"] that off by (auto simp: unat_gt_0)
  note clear = this
  show ?case
  proof (cases "b = d")
    case True
    then show ?thesis using IH off self by simp
  next
    case False
    then show ?thesis using IH off clear unfolding src by (simp add: fun_upd_def)
  qed
qed

lemma copy_down_spec:
  assumes "n < 2 ^ 32" and "\<And>i j. i < j \<Longrightarrow> j < n \<Longrightarrow> d - 1 - of_nat i \<noteq> s - 1 - of_nat j"
  shows "copy_down n d s m b = (if unat (d - 1 - b) < n then m (s - (d - b)) else m b)"
  using assms
proof (induction n arbitrary: d s m)
  case 0
  show ?case by simp
next
  case (Suc n)
  have ne: "d - 1 - 1 - of_nat i \<noteq> s - 1 - 1 - of_nat j" if "i < j" "j < n" for i j
    using Suc.prems(2) [of "Suc i" "Suc j"] that by (simp add: algebra_simps)
  have IH: "copy_down n (d - 1) (s - 1) (m(d - 1 := m (s - 1))) b
      = (if unat (d - 1 - 1 - b) < n then (m(d - 1 := m (s - 1))) (s - 1 - (d - 1 - b)) else (m(d - 1 := m (s - 1))) b)"
    by (rule Suc.IH) (use Suc.prems(1) ne in auto)
  have off: "unat (d - 1 - b) < Suc n \<longleftrightarrow> d - 1 = b \<or> unat (d - 1 - 1 - b) < n"
    using word_offset_Suc [of n "d - 1" b] Suc.prems(1) by (simp add: algebra_simps)
  have self: "\<not> unat (d - 1 - 1 - (d - 1)) < n"
    using Suc.prems(1) by simp
  have src: "s - 1 - (d - 1 - b) = s - (d - b)" by simp
  have "s - (d - b) \<noteq> d - 1" if "unat (d - 1 - 1 - b) < n" "d - 1 \<noteq> b"
    using Suc.prems(2) [of 0 "unat (d - 1 - b)"] that off by (auto simp: unat_gt_0 algebra_simps)
  note clear = this
  show ?case
  proof (cases "d - 1 = b")
    case True
    then have "s - (d - b) = s - 1" by auto
    then show ?thesis using IH off self True by auto
  next
    case False
    then show ?thesis using IH off clear unfolding src by (auto simp: fun_upd_def)
  qed
qed

lemma unat_offset: "unat a + k < 2 ^ 32 \<Longrightarrow> unat (a + of_nat k :: u32) = unat a + k"
  by (simp add: unat_word_ariths unat_of_nat)

text \<open>An upward copy never reads a byte it has overwritten unless the destination starts inside the
  source; a downward copy never does unless the source starts inside the destination.\<close>

lemma copy_up_clear:
  fixes s d :: u32
  assumes "unat s + n < 2 ^ 32" "unat d + n < 2 ^ 32" "\<not> (s < d \<and> unat d < unat s + n)" "i < j" "j < n"
  shows "d + of_nat i \<noteq> s + of_nat j"
proof
  assume "d + of_nat i = s + of_nat j"
  then have "unat (d + of_nat i) = unat (s + of_nat j)" by simp
  then have "unat d + i = unat s + j" using assms by (simp add: unat_offset)
  with assms show False by (simp add: word_less_nat_alt)
qed

lemma end_offset:
  fixes a n :: u32
  assumes "i < unat n"
  shows "a + n - 1 - of_nat i = a + of_nat (unat n - 1 - i)"
  using assms by (simp add: of_nat_diff)

lemma copy_down_clear:
  fixes s d n :: u32
  assumes "unat s + unat n < 2 ^ 32" "unat d + unat n < 2 ^ 32" "s < d" "i < j" "j < unat n"
  shows "d + n - 1 - of_nat i \<noteq> s + n - 1 - of_nat j"
proof
  assume "d + n - 1 - of_nat i = s + n - 1 - of_nat j"
  then have "d + of_nat (unat n - 1 - i) = s + of_nat (unat n - 1 - j)"
    using assms by (simp only: end_offset)
  then have "unat (d + of_nat (unat n - 1 - i)) = unat (s + of_nat (unat n - 1 - j))" by (rule arg_cong)
  then have "unat d + (unat n - 1 - i) = unat s + (unat n - 1 - j)"
    using assms by (simp only: unat_offset)
  with assms show False by (simp add: word_less_nat_alt)
qed

lemma end_in_block:
  fixes n :: u32
  shows "unat (dst + n - 1 - b) < unat n \<longleftrightarrow> b - dst < n"
proof (cases "b - dst < n")
  case True
  then have "unat (n - 1 - (b - dst)) < unat n" by unat_arith
  then show ?thesis using True by (simp add: algebra_simps)
next
  case False
  then have "\<not> unat (n - 1 - (b - dst)) < unat n" by unat_arith
  then show ?thesis using False by (simp add: algebra_simps)
qed

lemma memmove_spec:
  assumes "unat src + unat n < 2 ^ 32" and "unat dst + unat n < 2 ^ 32"
  shows "memmove dst src n m b = (if b - dst < n then m (src + (b - dst)) else m b)"
proof -
  have cond: "src < dst \<and> dst < src + n \<longleftrightarrow> src < dst \<and> unat dst < unat src + unat n"
    using assms(1) by (simp add: word_less_nat_alt unat_word_ariths)
  show ?thesis
  proof (cases "src < dst \<and> src + n > dst")
    case True
    have "copy_down (unat n) (dst + n) (src + n) m b
        = (if unat (dst + n - 1 - b) < unat n then m (src + n - (dst + n - b)) else m b)"
    proof (rule copy_down_spec)
      show "dst + n - 1 - of_nat i \<noteq> src + n - 1 - of_nat j" if "i < j" "j < unat n" for i j
        using assms conjunct1 [OF True] that by (rule copy_down_clear)
    qed simp
    moreover have "src + n - (dst + n - b) = src + (b - dst)" by simp
    ultimately show ?thesis using True by (simp add: memmove_def end_in_block)
  next
    case False
    have "copy_up (unat n) dst src m b = (if unat (b - dst) < unat n then m (src + (b - dst)) else m b)"
    proof (rule copy_up_spec)
      have far: "\<not> (src < dst \<and> unat dst < unat src + unat n)" using False cond by blast
      show "dst + of_nat i \<noteq> src + of_nat j" if "i < j" "j < unat n" for i j
        using assms far that by (rule copy_up_clear)
    qed simp
    then show ?thesis using False by (auto simp: memmove_def word_less_nat_alt)
  qed
qed

lemma word_of_bytes_of: "word_of_bytes (byte_of w 0) (byte_of w 1) (byte_of w 2) (byte_of w 3) = w"
proof -
  have "word_of_bytes (byte_of w 0) (byte_of w 1) (byte_of w 2) (byte_of w 3) = w"
  proof (rule bit_word_eqI)
    fix k assume "k < LENGTH(32)"
    then consider "k < 8" | "8 \<le> k" "k < 16" | "16 \<le> k" "k < 24" | "24 \<le> k" "k < 32" by fastforce
    then show "bit (word_of_bytes (byte_of w 0) (byte_of w 1) (byte_of w 2) (byte_of w 3)) k = bit w k"
      by cases (auto simp: word_of_bytes_def byte_of_def bit_simps)
  qed
  then show ?thesis .
qed

lemma load32_store32 [simp]: "load32 (store32 a w m) a = w"
  using word_of_bytes_of [of w] by (simp add: load32_def store32_spec)

lemma length_put32 [simp]: "length (put32 i w d) = length d"
  by (simp add: put32_def)

lemma le32_put32 [simp]: "i + 4 \<le> length d \<Longrightarrow> le32 (put32 i w d) i = w"
  using word_of_bytes_of [of w] by (simp add: le32_def put32_def)

lemma le32_put32_other: "j + 4 \<le> i \<or> i + 4 \<le> j \<Longrightarrow> le32 (put32 i w d) j = le32 d j"
  by (auto simp: le32_def put32_def nth_list_update)

lemma nth_put32_other: "j < i \<or> i + 4 \<le> j \<Longrightarrow> put32 i w d ! j = d ! j"
  by (auto simp: put32_def nth_list_update)

lemma length_put16 [simp]: "length (put16 i w d) = length d"
  by (simp add: put16_def)

lemma le16_put16 [simp]: "i + 2 \<le> length d \<Longrightarrow> le16 (put16 i w d) i = w"
proof -
  assume "i + 2 \<le> length d"
  moreover have "(ucast (ucast w :: u8) :: u16) OR push_bit 8 (ucast (ucast (drop_bit 8 w) :: u8)) = w"
  proof (rule bit_word_eqI)
    fix k assume "k < LENGTH(16)"
    then consider "k < 8" | "8 \<le> k" "k < 16" by fastforce
    then show "bit ((ucast (ucast w :: u8) :: u16) OR push_bit 8 (ucast (ucast (drop_bit 8 w) :: u8))) k = bit w k"
      by cases (auto simp: bit_simps)
  qed
  ultimately show ?thesis by (simp add: le16_def put16_def)
qed

lemma le16_put16_other: "j + 2 \<le> i \<or> i + 2 \<le> j \<Longrightarrow> le16 (put16 i w d) j = le16 d j"
  by (auto simp: le16_def put16_def nth_list_update)

lemma le32_put16_other: "j + 4 \<le> i \<or> i + 2 \<le> j \<Longrightarrow> le32 (put16 i w d) j = le32 d j"
  by (auto simp: le32_def put16_def nth_list_update)

lemma le16_put32_other: "j + 2 \<le> i \<or> i + 4 \<le> j \<Longrightarrow> le16 (put32 i w d) j = le16 d j"
  by (auto simp: le16_def put32_def nth_list_update)

lemma load32_cong:
  assumes "m a = m' a" "m (a + 1) = m' (a + 1)" "m (a + 2) = m' (a + 2)" "m (a + 3) = m' (a + 3)"
  shows "load32 m a = load32 m' a"
  using assms by (simp add: load32_def)

lemma uint_inject [simp]: "uint (a :: 'n::len word) = uint b \<longleftrightarrow> a = b"
  by (simp add: word_uint_eq_iff)

lemma memcmp_loop_0_iff: "memcmp_loop n m p q = 0 \<longleftrightarrow> bytes_at m p n = bytes_at m q n"
  by (induction n arbitrary: p q) (auto simp: bytes_at_Suc)

lemma memcmp_0_iff: "memcmp m p q n = 0 \<longleftrightarrow> bytes_at m p (unat n) = bytes_at m q (unat n)"
  by (simp add: memcmp_def memcmp_loop_0_iff)

lemma strncmp_loop_0_iff: "strncmp_loop n m p q = 0 \<longleftrightarrow> cstr m p n = cstr m q n"
  by (induction n arbitrary: p q) (auto simp: cstr_Suc unsigned_eq_0_iff)

lemma strncmp_0_iff: "strncmp m p q n = 0 \<longleftrightarrow> cstr m p (unat n) = cstr m q (unat n)"
  by (simp add: strncmp_def strncmp_loop_0_iff)

lemma cstr_cong: "(\<And>i. i < n \<Longrightarrow> m (a + of_nat i) = m' (a + of_nat i)) \<Longrightarrow> cstr m a n = cstr m' a n"
  by (auto simp: cstr_def bytes_at_def intro!: arg_cong [where f = "takeWhile _"])

lemma length_cstr: "length (cstr m a n) \<le> n"
  using length_takeWhile_le [of _ "bytes_at m a n"] by (simp add: cstr_def)

lemma apartD: "apart s t n \<Longrightarrow> i < n \<Longrightarrow> j < n \<Longrightarrow> s + of_nat i \<noteq> t + of_nat j"
  by (simp add: apart_def)

lemma apart_Suc: "apart s t (Suc n) \<Longrightarrow> apart (s + 1) (t + 1) n"
  using apartD [of s t "Suc n" "Suc _" "Suc _"] by (auto simp: apart_def add.assoc)

lemma apart_cstr: "apart s t (Suc n) \<Longrightarrow> cstr (m(s := v)) (t + 1) n = cstr m (t + 1) n"
proof (rule cstr_cong)
  fix i assume "apart s t (Suc n)" "i < n"
  then have "s \<noteq> t + of_nat (Suc i)" using apartD [of s t "Suc n" 0 "Suc i"] by simp
  then show "(m(s := v)) (t + 1 + of_nat i) = m (t + 1 + of_nat i)" by (simp add: add.assoc)
qed

lemma strncpy_loop_spec:
  assumes "n < 2 ^ 32" "apart s t n"
  shows "strncpy_loop n s t m b
    = (if unat (b - s) < n then if unat (b - s) < length (cstr m t n) then m (t + (b - s)) else 0 else m b)"
  using assms
proof (induction n arbitrary: s t m)
  case 0
  show ?case by simp
next
  case (Suc n)
  have off: "unat (b - s) < Suc n \<longleftrightarrow> b = s \<or> unat (b - (s + 1)) < n"
    using Suc.prems(1) by (intro word_offset_Suc) simp
  have self: "\<not> unat (s - (s + 1)) < n" using Suc.prems(1) by simp
  have IH: "strncpy_loop n (s + 1) (t + 1) (m(s := m t)) b
    = (if unat (b - (s + 1)) < n then if unat (b - (s + 1)) < length (cstr m (t + 1) n)
         then (m(s := m t)) (t + 1 + (b - (s + 1))) else 0 else (m(s := m t)) b)"
    using Suc.IH [OF _ apart_Suc [OF Suc.prems(2)], of "m(s := m t)"] Suc.prems(1)
    unfolding apart_cstr [OF Suc.prems(2)] by (simp only: Suc_lessD)
  consider "b = s" | "b \<noteq> s" "m t = 0" | "b \<noteq> s" "m t \<noteq> 0" by blast
  then show ?case
  proof cases
    case 1
    then show ?thesis using IH self Suc.prems(1) by (auto simp: Let_def stosb_spec cstr_Suc)
  next
    case 2
    then show ?thesis using off Suc.prems(1) by (auto simp: Let_def stosb_spec cstr_Suc)
  next
    case 3
    have succ: "unat (b - s) = Suc (unat (b - (s + 1)))"
      using 3 unat_minus_one [of "b - s"] by (simp add: diff_diff_eq unat_gt_0)
    have src: "t + 1 + (b - (s + 1)) = t + (b - s)" by simp
    have "t + (b - s) \<noteq> s" if "unat (b - s) < Suc n"
    proof -
      have "s + of_nat 0 \<noteq> t + of_nat (unat (b - s))" using Suc.prems(2) that by (intro apartD) auto
      then show ?thesis by auto
    qed
    then show ?thesis using 3 IH off succ unfolding src by (auto simp: Let_def cstr_Suc fun_upd_def)
  qed
qed

lemma strncpy_spec:
  assumes "n < 2 ^ 31" "apart s t (nat n)"
  shows "strncpy s t n m b
    = (if unat (b - s) < nat n then if unat (b - s) < length (cstr m t (nat n)) then m (t + (b - s)) else 0 else m b)"
  unfolding strncpy_def using assms by (intro strncpy_loop_spec) auto

text \<open>\<^verbatim>\<open>safestrcpy\<close> copies the string, terminates it, and when the string ended before the buffer
  was full zeroes one byte more.\<close>

lemma safestrcpy_loop_spec:
  assumes "k < 2 ^ 31" "apart s t k"
  shows "safestrcpy_loop k s t m b
    = (if unat (b - s) < length (cstr m t k) then m (t + (b - s))
       else if unat (b - s) = length (cstr m t k)
         \<or> unat (b - s) = Suc (length (cstr m t k)) \<and> length (cstr m t k) < k then 0 else m b)"
  using assms
proof (induction k arbitrary: s t m)
  case 0
  show ?case by (auto simp: unsigned_eq_0_iff)
next
  case (Suc k)
  have IH: "safestrcpy_loop k (s + 1) (t + 1) (m(s := m t)) b
    = (if unat (b - (s + 1)) < length (cstr m (t + 1) k) then (m(s := m t)) (t + 1 + (b - (s + 1)))
       else if unat (b - (s + 1)) = length (cstr m (t + 1) k)
         \<or> unat (b - (s + 1)) = Suc (length (cstr m (t + 1) k)) \<and> length (cstr m (t + 1) k) < k
       then 0 else (m(s := m t)) b)"
    using Suc.IH [OF _ apart_Suc [OF Suc.prems(2)], of "m(s := m t)"] Suc.prems(1)
    unfolding apart_cstr [OF Suc.prems(2)] by (simp only: Suc_lessD)
  have len: "length (cstr m (t + 1) k) \<le> k" by (rule length_cstr)
  have one: "unat (b - s) = Suc 0 \<longleftrightarrow> b = s + 1"
    using diff_eq_eq [of b s 1] by (simp add: word_unat_eq_iff add.commute)
  consider "b = s" | "b \<noteq> s" "m t = 0" | "b \<noteq> s" "m t \<noteq> 0" by blast
  then show ?case
  proof cases
    case 1
    then show ?thesis using IH len Suc.prems(1) by (auto simp: Let_def cstr_Suc)
  next
    case 2
    then show ?thesis using one by (auto simp: Let_def cstr_Suc unsigned_eq_0_iff)
  next
    case 3
    have succ: "unat (b - s) = Suc (unat (b - (s + 1)))"
      using 3 unat_minus_one [of "b - s"] by (simp add: diff_diff_eq unat_gt_0)
    have src: "t + 1 + (b - (s + 1)) = t + (b - s)" by simp
    have "t + (b - s) \<noteq> s" if "unat (b - s) < Suc k"
    proof -
      have "s + of_nat 0 \<noteq> t + of_nat (unat (b - s))" using Suc.prems(2) that by (intro apartD) auto
      then show ?thesis by auto
    qed
    then show ?thesis using 3 IH succ len unfolding src by (auto simp: Let_def cstr_Suc fun_upd_def)
  qed
qed

lemma cstr_eqI:
  assumes "l < n" "\<And>i. i < l \<Longrightarrow> m (a + of_nat i) \<noteq> 0" "m (a + of_nat l) = 0"
  shows "cstr m a n = bytes_at m a l"
  using assms
proof (induction l arbitrary: a n)
  case 0
  then obtain n' where "n = Suc n'" by (cases n) auto
  with 0 show ?case by (simp add: cstr_Suc)
next
  case (Suc l)
  then obtain n' where n: "n = Suc n'" "l < n'" by (cases n) auto
  have "cstr m (a + 1) n' = bytes_at m (a + 1) l"
  proof (rule Suc.IH)
    show "m (a + 1 + of_nat i) \<noteq> 0" if "i < l" for i using Suc.prems(2) [of "Suc i"] that by (simp add: add.assoc)
  qed (use n Suc.prems(3) in \<open>simp_all add: add.assoc\<close>)
  with n Suc.prems(2) [of 0] show ?case by (simp add: cstr_Suc bytes_at_Suc)
qed

lemma cstr_bytes: "i < length (cstr m a n) \<Longrightarrow> cstr m a n ! i = m (a + of_nat i) \<and> m (a + of_nat i) \<noteq> 0"
  using nth_mem [of i "cstr m a n"] length_cstr [of m a n]
  by (auto simp: cstr_def takeWhile_nth dest: set_takeWhileD)

lemma safestrcpy_cstr:
  assumes "0 < n" "n < 2 ^ 31" "apart s t (nat n)"
  shows "cstr (safestrcpy s t n m) s (nat n) = cstr m t (nat n - 1)"
proof -
  define l where "l = length (cstr m t (nat n - 1))"
  have ap: "apart s t (nat n - 1)" using assms(3) by (simp add: apart_def)
  have l: "l < nat n" "l < 2 ^ 32" using length_cstr [of m t "nat n - 1"] assms by (auto simp: l_def)
  have at: "safestrcpy s t n m (s + of_nat i) = (if i < l then m (t + of_nat i) else 0)" if "i \<le> l" for i
  proof -
    have "unat (of_nat i :: u32) = i" using that l by (simp add: unat_of_nat)
    then show ?thesis using assms that
      by (auto simp: safestrcpy_def nat_diff_distrib safestrcpy_loop_spec [OF _ ap [unfolded One_nat_def]] l_def)
  qed
  have "cstr (safestrcpy s t n m) s (nat n) = bytes_at (safestrcpy s t n m) s l"
    using l by (intro cstr_eqI) (auto simp: at l_def dest: cstr_bytes)
  also have "\<dots> = cstr m t (nat n - 1)"
    by (rule nth_equalityI) (simp_all add: at cstr_bytes l_def)
  finally show ?thesis .
qed

lemma strlen_from_first:
  assumes "m (s + of_nat (n + k)) = 0" "\<And>i. i < k \<Longrightarrow> m (s + of_nat (n + i)) \<noteq> 0"
  shows "strlen_from m s n = Some (n + k)"
  using assms
proof (induction k arbitrary: n)
  case 0
  then show ?case by (subst strlen_from.simps) simp
next
  case (Suc k)
  have "strlen_from m s (Suc n) = Some (Suc n + k)"
  proof (rule Suc.IH)
    show "m (s + of_nat (Suc n + i)) \<noteq> 0" if "i < k" for i using Suc.prems(2) [of "Suc i"] that by simp
  qed (use Suc.prems(1) in simp)
  then show ?case using Suc.prems(2) [of 0] by (subst strlen_from.simps) simp
qed

text \<open>\<^verbatim>\<open>strlen\<close> returns as soon as there is a zero byte at all, with the length of the string.\<close>

lemma strlen_terminates:
  assumes "m (s + of_nat k) = 0"
  shows "\<exists>n\<le>k. strlen m s = Some n \<and> length (cstr m s (Suc n)) = n"
proof -
  define n where "n = (LEAST i. m (s + of_nat i) = 0)"
  have z: "m (s + of_nat n) = 0" and le: "n \<le> k"
    unfolding n_def using assms by (auto intro: LeastI Least_le)
  have nz: "m (s + of_nat i) \<noteq> 0" if "i < n" for i using that not_less_Least unfolding n_def by blast
  have "strlen m s = Some n" using strlen_from_first [of m s 0 n] z nz by (simp add: strlen_def)
  moreover have "cstr m s (Suc n) = bytes_at m s n" using z nz by (intro cstr_eqI) auto
  ultimately show ?thesis using le by auto
qed

section \<open>Properties\<close>

text \<open>C13. \<^verbatim>\<open>memmove\<close> copies correctly whatever the overlap of the two buffers: as long as neither wraps
  around the address space, every byte of the destination holds afterwards what the corresponding
  byte of the source held before, and no other byte of memory changes.\<close>

theorem memmove_correct:
  assumes "unat src + unat n < 2 ^ 32" and "unat dst + unat n < 2 ^ 32"
  shows "memmove dst src n m b = (if b - dst < n then m (src + (b - dst)) else m b)"
  using assms by (rule memmove_spec)

theorem memmove_correct_witness:
  "memmove 0x1002 0x1000 8 (\<lambda>a. ucast a) 0x1004 = 2"
proof -
  have "memmove 0x1002 0x1000 8 (\<lambda>a. ucast a) 0x1004 = (ucast (0x1002 :: u32) :: u8)"
    by (subst memmove_correct) simp_all
  then show ?thesis by simp
qed

text \<open>C14. \<^verbatim>\<open>safestrcpy\<close> into a buffer of \<open>n > 0\<close> bytes leaves in it exactly the source string cut to
  \<open>n - 1\<close> bytes, always terminated within the buffer, when the two buffers do not overlap.\<close>

theorem safestrcpy_correct:
  assumes "0 < n" and "n < 2 ^ 31" and "apart s t (nat n)"
  shows "cstr (safestrcpy s t n m) s (nat n) = cstr m t (nat n - 1) \<and> length (cstr (safestrcpy s t n m) s (nat n)) < nat n"
  using safestrcpy_cstr [OF assms, of m] length_cstr [of m t "nat n - 1"] assms(1) by auto

theorem safestrcpy_correct_witness:
  "cstr (safestrcpy 0x2000 0x1000 3 (\<lambda>a. if a = 0x1003 then 0 else 65)) 0x2000 3 = [65, 65]"
proof -
  have "apart 0x2000 0x1000 3" by (simp add: apart_def All_less_Suc numeral_3_eq_3)
  moreover have "cstr (\<lambda>a. if a = 0x1003 then 0 else 65) 0x1000 2 = [65, 65]"
    by (simp add: cstr_def bytes_at_def upt_rec)
  ultimately show ?thesis
    using safestrcpy_correct [of 3 "0x2000" "0x1000" "\<lambda>a. if a = 0x1003 then 0 else 65"] by simp
qed

lemma store_bytes_spec:
  assumes "length bs < 2 ^ 32"
  shows "store_bytes bs a m b = (if unat (b - a) < length bs then bs ! unat (b - a) else m b)"
  using assms
proof (induction bs arbitrary: a m)
  case Nil
  then show ?case by simp
next
  case (Cons x bs)
  show ?case
  proof (cases "b = a")
    case True
    have "unat (b - (a + 1)) = 2 ^ 32 - 1" using True by (simp add: unat_sub_if_size word_size unat_word_ariths)
    then show ?thesis using Cons True by simp
  next
    case False
    then have "unat (b - a) \<noteq> 0" by (simp add: unat_eq_0)
    then have "unat (b - (a + 1)) = unat (b - a) - 1" using unat_minus_one [of "b - a"] False by (simp add: algebra_simps)
    then show ?thesis using Cons False \<open>unat (b - a) \<noteq> 0\<close> by (cases "unat (b - a)") auto
  qed
qed

end
