(* ===== verification/Ulib.thy ===== *)
theory Ulib
  imports Xv6_String Fcntl
begin

text \<open>
  The C library of the user programs (\<^verbatim>\<open>ulib.c\<close>). Functions on strings in memory work on the bytes at addresses, as in \<^verbatim>\<open>Xv6_String\<close>;
  where the code has the name of a kernel function the name here ends in \<open>_u\<close>. A loop that runs until it finds a NUL is a partial
  function. System calls are arguments: what \<^verbatim>\<open>read\<close> delivers to \<^verbatim>\<open>gets\<close> is a list of bytes, and \<^verbatim>\<open>stat\<close> gets the results of the three
  calls it makes.
\<close>

section \<open>Strings\<close>

partial_function (option) strcpy :: "u32 \<Rightarrow> u32 \<Rightarrow> memory \<Rightarrow> memory option" where
  "strcpy s t m = (let m' = m(s := m t) in if m' s \<noteq> 0 then strcpy (s + 1) (t + 1) m' else Some m')"

partial_function (option) strcmp :: "memory \<Rightarrow> u32 \<Rightarrow> u32 \<Rightarrow> int option" where
  "strcmp m p q = (if m p \<noteq> 0 \<and> m p = m q then strcmp m (p + 1) (q + 1) else Some (uint (m p) - uint (m q)))"

definition strlen_u :: "memory \<Rightarrow> u32 \<Rightarrow> nat option" where
  "strlen_u m s = strlen_from m s 0"

partial_function (option) strchr :: "memory \<Rightarrow> u32 \<Rightarrow> u8 \<Rightarrow> u32 option" where
  "strchr m s c = (if m s = 0 then Some 0 else if m s = c then Some s else strchr m (s + 1) c)"

definition memset_u :: "u32 \<Rightarrow> u32 \<Rightarrow> u32 \<Rightarrow> memory \<Rightarrow> memory" where
  "memset_u dst c n m = stosb (unat n) dst (ucast c) m"

definition memmove_u :: "u32 \<Rightarrow> u32 \<Rightarrow> int \<Rightarrow> memory \<Rightarrow> memory" where
  "memmove_u vdst vsrc n m = copy_up (nat n) vdst vsrc m"

definition is_digit :: "u8 \<Rightarrow> bool" where
  "is_digit c \<longleftrightarrow> 48 \<le> c \<and> c \<le> 57"

partial_function (option) atoi_loop :: "memory \<Rightarrow> u32 \<Rightarrow> u32 \<Rightarrow> u32 option" where
  "atoi_loop m s n = (if is_digit (m s) then atoi_loop m (s + 1) (n * 10 + ucast (m s) - 48) else Some n)"

definition atoi :: "memory \<Rightarrow> u32 \<Rightarrow> u32 option" where
  "atoi m s = atoi_loop m s 0"

section \<open>Input\<close>

text \<open>The bytes stored, without the NUL, and the input left; \<open>k\<close> is how many more bytes fit.\<close>

fun gets_loop :: "nat \<Rightarrow> u8 list \<Rightarrow> u8 list \<times> u8 list" where
  "gets_loop 0 inp = ([], inp)"
| "gets_loop (Suc k) [] = ([], [])"
| "gets_loop (Suc k) (c # inp) =
     (if c = 10 \<or> c = 13 then ([c], inp) else (case gets_loop k inp of (buf, rest) \<Rightarrow> (c # buf, rest)))"

definition gets :: "nat \<Rightarrow> u8 list \<Rightarrow> u8 list \<times> u8 list" where
  "gets nmax inp = gets_loop (nmax - 1) inp"

text \<open>The result, the calls made, and the fields stored; \<open>open_r\<close> and \<open>fstat_r\<close> are what the calls return.\<close>

datatype call = Call_open u32 u32 | Call_fstat int | Call_close int

definition stat_u :: "u32 \<Rightarrow> int \<Rightarrow> int \<Rightarrow> int \<times> call list" where
  "stat_u n open_r fstat_r =
     (if open_r < 0 then (-1, [Call_open n O_RDONLY])
      else (fstat_r, [Call_open n O_RDONLY, Call_fstat open_r, Call_close open_r]))"

section \<open>What the functions compute\<close>

lemma strcmp_prefix:
  assumes "\<forall>i<n. m (p + of_nat i) = m (q + of_nat i) \<and> m (p + of_nat i) \<noteq> 0" "m (p + of_nat n) = 0 \<or> m (p + of_nat n) \<noteq> m (q + of_nat n)"
  shows "strcmp m p q = Some (uint (m (p + of_nat n)) - uint (m (q + of_nat n)))"
  using assms
proof (induction n arbitrary: p q)
  case 0
  then show ?case by (subst strcmp.simps) auto
next
  case (Suc n)
  have "m p \<noteq> 0 \<and> m p = m q" using Suc.prems(1) [rule_format, of 0] by auto
  moreover have "strcmp m (p + 1) (q + 1) = Some (uint (m (p + 1 + of_nat n)) - uint (m (q + 1 + of_nat n)))"
  proof (rule Suc.IH)
    show "\<forall>i<n. m (p + 1 + of_nat i) = m (q + 1 + of_nat i) \<and> m (p + 1 + of_nat i) \<noteq> 0"
    proof (intro allI impI)
      fix i assume "i < n"
      then have "Suc i < Suc n" by simp
      from Suc.prems(1) [rule_format, OF this] show "m (p + 1 + of_nat i) = m (q + 1 + of_nat i) \<and> m (p + 1 + of_nat i) \<noteq> 0"
        unfolding of_nat_Suc add.assoc .
    qed
    show "m (p + 1 + of_nat n) = 0 \<or> m (p + 1 + of_nat n) \<noteq> m (q + 1 + of_nat n)" using Suc.prems(2) by (simp add: add.assoc)
  qed
  ultimately show ?case by (subst strcmp.simps) (auto simp: add.assoc)
qed

text \<open>\<^verbatim>\<open>gets\<close> returns a line: the first bytes of the input, with at most the last of them a line end; it takes fewer than \<open>nmax\<close>.\<close>

lemma gets_loop_spec:
  "gets_loop k inp = (buf, rest) \<Longrightarrow> inp = buf @ rest \<and> length buf \<le> k \<and> (\<forall>c\<in>set (butlast buf). c \<noteq> 10 \<and> c \<noteq> 13) \<and>
     (length buf = k \<or> rest = [] \<or> (buf \<noteq> [] \<and> last buf \<in> {10, 13}))"
proof (induction k inp arbitrary: buf rest rule: gets_loop.induct)
  case (3 k c inp)
  show ?case
  proof (cases "c = 10 \<or> c = 13")
    case True
    then show ?thesis using 3(2) by auto
  next
    case False
    obtain b r where g: "gets_loop k inp = (b, r)" by (cases "gets_loop k inp")
    then have e: "buf = c # b" "rest = r" using 3(2) False by auto
    show ?thesis using 3(1) [OF False g] False e by (cases b) auto
  qed
qed auto

text \<open>The value of a run of decimal digits, modulo the width of an \<^verbatim>\<open>int\<close>.\<close>

definition decimal :: "u8 list \<Rightarrow> int" where
  "decimal ds = foldl (\<lambda>n d. 10 * n + (uint d - 48)) 0 ds"

lemma foldl_decimal_word:
  "foldl (\<lambda>n d. n * 10 + ucast d - 48) (word_of_int v) ds = (word_of_int (foldl (\<lambda>n d. 10 * n + (uint d - 48)) v ds) :: u32)"
proof (induction ds arbitrary: v)
  case (Cons d ds)
  have "(word_of_int v * 10 + ucast d - 48 :: u32) = word_of_int (10 * v + (uint d - 48))"
    by (simp add: unsigned_ucast_eq word_of_int_uint mult.commute flip: ucast_eq)
  then show ?case by (simp only: foldl.simps Cons.IH)
qed simp

lemma atoi_loop_spec:
  assumes "\<forall>i<k. is_digit (m (s + of_nat i))" "\<not> is_digit (m (s + of_nat k))"
  shows "atoi_loop m s n = Some (foldl (\<lambda>n d. n * 10 + ucast d - 48) n (bytes_at m s k))"
  using assms
proof (induction k arbitrary: s n)
  case 0
  then show ?case by (subst atoi_loop.simps) simp
next
  case (Suc k)
  have "is_digit (m s)" using Suc.prems(1) [rule_format, of 0] by simp
  moreover have "\<forall>i<k. is_digit (m (s + 1 + of_nat i))" using Suc.prems(1) [rule_format, of "Suc _"] by (simp add: add.assoc)
  ultimately show ?case using Suc.IH [of "s + 1"] Suc.prems(2) by (subst atoi_loop.simps) (simp add: bytes_at_Suc add.assoc)
qed

lemma atoi_decimal:
  assumes "\<forall>i<k. is_digit (m (s + of_nat i))" "\<not> is_digit (m (s + of_nat k))"
  shows "atoi m s = Some (word_of_int (decimal (bytes_at m s k)))"
  using atoi_loop_spec [OF assms, of 0] foldl_decimal_word [of 0] by (simp add: atoi_def decimal_def)

end
