(* ===== verification/Sh_Run.thy ===== *)
theory Sh_Run
  imports Sh Ulib
begin

text \<open>
  The shell at work (\<^verbatim>\<open>runcmd\<close>, \<^verbatim>\<open>getcmd\<close> and \<^verbatim>\<open>main\<close> of \<^verbatim>\<open>sh.c\<close>). A process is the tree of the system calls it makes: each node is a call,
  with the continuations its results select. The theorem gives the descriptors with which every program of a command is started, under
  the kernel's rule that a new descriptor is the lowest free one.
\<close>

section \<open>System calls\<close>

datatype act =
    Exit
  | Exec string "string list" act
  | Print nat string act
  | Close nat act
  | Open string u32 "int \<Rightarrow> act"
  | Dup nat act
  | Fork act act act
  | Wait act
  | Pipe "nat \<Rightarrow> nat \<Rightarrow> act" act
  | Chdir string "int \<Rightarrow> act"
  | Diverge

text \<open>\<^verbatim>\<open>Exec\<close> goes on only when it fails; \<^verbatim>\<open>Fork\<close> has the child, the parent and the failure; \<^verbatim>\<open>Pipe\<close> the success with both ends and the
  failure.\<close>

definition sh_panic :: "string \<Rightarrow> act" where
  "sh_panic s = Print 2 (s @ [newline]) Exit"

definition fork1 :: "act \<Rightarrow> act \<Rightarrow> act" where
  "fork1 child par = Fork child par (sh_panic ''fork'')"

primrec runcmd :: "string cmd \<Rightarrow> act" where
  "runcmd (EXEC argv) =
     (case argv of [] \<Rightarrow> Exit | a # _ \<Rightarrow> Exec a argv (Print 2 (''exec '' @ a @ '' failed'' @ [newline]) Exit))"
| "runcmd (REDIR c file mode fd) =
     Close fd (Open file mode (\<lambda>r. if r < 0 then Print 2 (''open '' @ file @ '' failed'' @ [newline]) Exit else runcmd c))"
| "runcmd (LIST l r) = fork1 (runcmd l) (Wait (runcmd r))"
| "runcmd (PIPE l r) =
     Pipe (\<lambda>p0 p1.
       fork1 (Close 1 (Dup p1 (Close p0 (Close p1 (runcmd l)))))
       (fork1 (Close 0 (Dup p0 (Close p0 (Close p1 (runcmd r)))))
       (Close p0 (Close p1 (Wait (Wait Exit))))))
     (sh_panic ''pipe'')"
| "runcmd (BACK c) = fork1 (runcmd c) Exit"

section \<open>The command loop\<close>

definition chars :: "u8 list \<Rightarrow> string" where
  "chars bs = map (\<lambda>b. char_of (unat b)) bs"

text \<open>The line as a C string, and the input left; \<open>None\<close> is the end of the input.\<close>

definition getcmd :: "u8 list \<Rightarrow> (string \<times> u8 list) option" where
  "getcmd inp =
     (case gets 100 inp of (buf, rest) \<Rightarrow>
      if buf = [] \<or> hd buf = 0 then None else Some (chars (takeWhile (\<lambda>b. b \<noteq> 0) buf), rest))"

text \<open>The child that runs a line: words are C strings once \<^verbatim>\<open>nulterminate\<close> is done.\<close>

definition run_line :: "string \<Rightarrow> act" where
  "run_line line =
     (case parsecmd line of
        Parsed c _ \<Rightarrow> runcmd (map_cmd (\<lambda>w. cstring (nulterminate c (line @ [NUL])) (fst w)) c)
      | Error e \<Rightarrow> sh_panic e
      | Out \<Rightarrow> Diverge)"

definition is_cd :: "string \<Rightarrow> bool" where
  "is_cd line \<longleftrightarrow> take 3 line = ''cd ''"

lemma gets_shrinks: "gets (Suc (Suc n)) inp = (buf, rest) \<Longrightarrow> buf \<noteq> [] \<Longrightarrow> length rest < length inp"
  using gets_loop_spec [of "Suc n" inp buf rest] by (auto simp: gets_def)

lemma getcmd_shrinks: "getcmd inp = Some (line, rest) \<Longrightarrow> length rest < length inp"
  using gets_shrinks [of 98 inp] by (auto simp: getcmd_def split: prod.splits if_splits)

function sh_loop :: "u8 list \<Rightarrow> act" where
  "sh_loop inp =
     Print 2 ''$ ''
       (case getcmd inp of
          None \<Rightarrow> Exit
        | Some (line, rest) \<Rightarrow>
            if is_cd line then
              Chdir (drop 3 (butlast line)) (\<lambda>r.
                if r < 0 then Print 2 (''cannot cd '' @ drop 3 (butlast line) @ [newline]) (sh_loop rest) else sh_loop rest)
            else fork1 (run_line line) (Wait (sh_loop rest)))"
  by pat_completeness auto
termination by (relation "measure length") (auto dest: getcmd_shrinks)

declare sh_loop.simps [simp del]

text \<open>Opening the console until three descriptors are there. Were \<^verbatim>\<open>open\<close> to return small numbers for ever, so would the loop run: after
  \<open>n\<close> rounds the tree ends in \<open>Diverge\<close>.\<close>

primrec open_console :: "nat \<Rightarrow> act \<Rightarrow> act" where
  "open_console 0 k = Diverge"
| "open_console (Suc n) k =
     Open ''console'' O_RDWR (\<lambda>fd. if fd \<ge> 0 then (if fd \<ge> 3 then Close (nat fd) k else open_console n k) else k)"

definition sh_main :: "nat \<Rightarrow> u8 list \<Rightarrow> act" where
  "sh_main n inp = open_console n (sh_loop inp)"

section \<open>Descriptors\<close>

text \<open>What a descriptor refers to: the console, a file opened by name, or an end of a pipe. A pipe is named by the branches taken in the
  tree of forks up to its creation.\<close>

datatype obj = Console | File string u32 | Read_end "nat list" | Write_end "nat list"

type_synonym fdtab = "obj option list"

definition free_fd :: "fdtab \<Rightarrow> nat option" where
  "free_fd t = find_slot (\<lambda>x. x = None) t"

text \<open>The programs a process and its descendants start, each with its arguments and its descriptors, when no call fails for another reason
  than a full descriptor table.\<close>

primrec started :: "act \<Rightarrow> nat list \<Rightarrow> fdtab \<Rightarrow> (string list \<times> fdtab) list" where
  "started Exit w t = []"
| "started (Exec a argv k) w t = [(argv, t)]"
| "started (Print n s k) w t = started k w t"
| "started (Close fd k) w t = started k w (t[fd := None])"
| "started (Open f m k) w t =
     (case free_fd t of None \<Rightarrow> started (k (-1)) w t | Some i \<Rightarrow> started (k (int i)) w (t[i := Some (File f m)]))"
| "started (Dup fd k) w t = (case free_fd t of None \<Rightarrow> started k w t | Some i \<Rightarrow> started k w (t[i := t ! fd]))"
| "started (Fork c p e) w t = started c (w @ [0]) t @ started p (w @ [1]) t"
| "started (Wait k) w t = started k w t"
| "started (Pipe k e) w t =
     (case free_fd t of None \<Rightarrow> started e w t | Some i \<Rightarrow>
      case free_fd (t[i := Some (Read_end w)]) of None \<Rightarrow> started e w t | Some j \<Rightarrow>
      started (k i j) w (t[i := Some (Read_end w), j := Some (Write_end w)]))"
| "started (Chdir d k) w t = started (k 0) w t"
| "started Diverge w t = []"

text \<open>What the command means: which program gets which standard input and output.\<close>

primrec meaning :: "string cmd \<Rightarrow> nat list \<Rightarrow> fdtab \<Rightarrow> (string list \<times> fdtab) list" where
  "meaning (EXEC argv) w t = (if argv = [] then [] else [(argv, t)])"
| "meaning (REDIR c f m fd) w t = meaning c w (t[fd := Some (File f m)])"
| "meaning (LIST l r) w t = meaning l (w @ [0]) t @ meaning r (w @ [1]) t"
| "meaning (PIPE l r) w t = meaning l (w @ [0]) (t[1 := Some (Write_end w)]) @ meaning r (w @ [1, 0]) (t[0 := Some (Read_end w)])"
| "meaning (BACK c) w t = meaning c (w @ [0]) t"

definition std_fds :: "obj \<Rightarrow> obj \<Rightarrow> obj \<Rightarrow> fdtab" where
  "std_fds a b c = [Some a, Some b, Some c] @ replicate 13 None"

lemma std_fds_unfold: "std_fds a b c = [Some a, Some b, Some c, None, None, None, None, None, None, None, None, None, None, None, None, None]"
  by (simp add: std_fds_def numeral_eq_Suc)

lemma free_fd_simps [simp]:
  "free_fd [] = None" "free_fd (None # t) = Some 0" "free_fd (Some x # t) = map_option Suc (free_fd t)"
  by (simp_all add: free_fd_def)

lemma runcmd_std: "redirs_std cm \<Longrightarrow> started (runcmd cm) w (std_fds a b c) = meaning cm w (std_fds a b c)"
proof (induction cm arbitrary: w a b c)
  case (EXEC argv)
  then show ?case by (cases argv) simp_all
next
  case (REDIR cm f m fd)
  have "(std_fds a b c)[0 := Some x] = std_fds x b c" "(std_fds a b c)[1 := Some x] = std_fds a x c" for x
    by (simp_all add: std_fds_unfold)
  moreover have "free_fd ((std_fds a b c)[fd := None]) = Some fd" using REDIR.prems by (auto simp: std_fds_unfold)
  ultimately show ?case using REDIR by auto
next
  case (LIST l r)
  then show ?case by (simp add: fork1_def)
next
  case (PIPE l r)
  have "started (runcmd (PIPE l r)) w (std_fds a b c) =
      started (runcmd l) (w @ [0]) (std_fds a (Write_end w) c) @ started (runcmd r) (w @ [1, 0]) (std_fds (Read_end w) b c)"
    by (simp add: std_fds_unfold fork1_def)
  moreover have "(std_fds a b c)[0 := Some x] = std_fds x b c" "(std_fds a b c)[1 := Some x] = std_fds a x c" for x
    by (simp_all add: std_fds_unfold)
  ultimately show ?case using PIPE by simp
next
  case (BACK cm)
  then show ?case by (simp add: fork1_def)
qed

lemma redirs_std_map [simp]: "redirs_std (map_cmd f c) = redirs_std c"
  by (induction c) simp_all

text \<open>C36. The shell runs a line as it is meant: whenever a line parses as a command, the process that runs it and its descendants start
  exactly the programs of the command, each with its words as arguments and with the standard input and output that pipes and redirections
  give it, and with no other descriptor open but the standard error: no end of a pipe stays open where it does not belong.\<close>

theorem run_line_correct:
  assumes "NUL \<notin> set line" "parsecmd line = Parsed c j"
  shows "started (run_line line) w (std_fds x y z) = meaning (map_cmd (word_at line) c) w (std_fds x y z)"
proof -
  have ok: "cmd_ok line c" using assms(2) by (rule parsecmd_ok)
  have "map_cmd (\<lambda>v. cstring (nulterminate c (line @ [NUL])) (fst v)) c = map_cmd (word_at line) c"
    using word_string [OF ok assms(1)] by (intro cmd.map_cong) auto
  then show ?thesis using assms(2) ok by (simp add: run_line_def runcmd_std)
qed

theorem run_line_correct_witness:
  "started (run_line line1) [] (std_fds Console Console Console) =
    [([''cat'', ''x''], std_fds Console (Write_end [0]) Console), ([''wc''], std_fds (Read_end [0]) (File ''y'' 513) Console)]"
proof -
  have n: "NUL \<notin> set line1" by (simp add: line1_def NUL_def)
  have "map_cmd (word_at line1) cmd1 = BACK (PIPE (EXEC [''cat'', ''x'']) (REDIR (EXEC [''wc'']) ''y'' 513 1))"
    by (simp add: cmd1_def line1_def word_at_def)
  then show ?thesis using run_line_correct [OF n parse_line1, of "[]" Console Console Console] by (simp add: std_fds_unfold)
qed

end
