(* ===== verification/Printf.thy ===== *)
theory Printf
  imports Ulib
begin

text \<open>
  Formatted output of the user programs (\<^verbatim>\<open>printf.c\<close>). The result is the sequence of bytes that \<^verbatim>\<open>putc\<close> writes. Together with \<^verbatim>\<open>atoi\<close> of
  \<^verbatim>\<open>Ulib\<close> it gives a round trip on numbers.
\<close>

section \<open>Numbers\<close>

definition udigits :: "u8 list" where
  "udigits = [48, 49, 50, 51, 52, 53, 54, 55, 56, 57, 65, 66, 67, 68, 69, 70]"

text \<open>The \<^verbatim>\<open>do\<close> loop; it ends for every base above 1.\<close>

partial_function (option) uprint_loop :: "u32 \<Rightarrow> u32 \<Rightarrow> u8 list \<Rightarrow> u8 list option" where
  "uprint_loop x base buf =
     (let buf' = buf @ [udigits ! unat (x mod base)]; x' = x div base
      in if x' \<noteq> 0 then uprint_loop x' base buf' else Some buf')"

declare uprint_loop.simps [code]

definition printint_u :: "u32 \<Rightarrow> u32 \<Rightarrow> bool \<Rightarrow> u8 list option" where
  "printint_u xx base sgnd =
     (let neg = sgnd \<and> sint xx < 0; x = (if neg then - xx else xx)
      in map_option (\<lambda>buf. rev (if neg then buf @ [45] else buf)) (uprint_loop x base []))"

section \<open>Formats\<close>

text \<open>An argument is a word, or a string that a word points to; the null pointer is \<open>None\<close>. Too few arguments, or one of the wrong
  kind, are undefined in C: the result is \<open>None\<close>. The first argument of the loop is \<^verbatim>\<open>state == '%'\<close>.\<close>

datatype parg = Val u32 | Text "u8 list option"

definition null_text :: "u8 list" where "null_text = [40, 110, 117, 108, 108, 41]"

fun printf_loop :: "bool \<Rightarrow> u8 list \<Rightarrow> parg list \<Rightarrow> u8 list option" where
  "printf_loop st [] as = Some []"
| "printf_loop False (c # fmt) as =
     (if c = 37 then printf_loop True fmt as else map_option (Cons c) (printf_loop False fmt as))"
| "printf_loop True (c # fmt) as =
     (if c = 100 then
        (case as of Val w # as' \<Rightarrow>
           (case printint_u w 10 True of None \<Rightarrow> None | Some t \<Rightarrow> map_option (append t) (printf_loop False fmt as')) | _ \<Rightarrow> None)
      else if c = 120 \<or> c = 112 then
        (case as of Val w # as' \<Rightarrow>
           (case printint_u w 16 False of None \<Rightarrow> None | Some t \<Rightarrow> map_option (append t) (printf_loop False fmt as')) | _ \<Rightarrow> None)
      else if c = 115 then
        (case as of
           Text None # as' \<Rightarrow> map_option (append null_text) (printf_loop False fmt as')
         | Text (Some t) # as' \<Rightarrow> map_option (append t) (printf_loop False fmt as')
         | _ \<Rightarrow> None)
      else if c = 99 then
        (case as of Val w # as' \<Rightarrow> map_option (Cons (ucast w)) (printf_loop False fmt as') | _ \<Rightarrow> None)
      else if c = 37 then map_option (Cons c) (printf_loop False fmt as)
      else map_option (append [37, c]) (printf_loop False fmt as))"

definition printf :: "u8 list \<Rightarrow> parg list \<Rightarrow> u8 list option" where
  "printf fmt as = printf_loop False fmt as"

section \<open>What a number looks like\<close>

text \<open>The digits of a number, least significant first.\<close>

function digits_of :: "nat \<Rightarrow> nat \<Rightarrow> nat list" where
  "digits_of b x = (x mod b) # (if b \<le> 1 \<or> x div b = 0 then [] else digits_of b (x div b))"
  by pat_completeness auto
termination
proof (relation "measure (\<lambda>(b, x). x)")
  show "((b, x div b), b, x) \<in> measure (\<lambda>(b, x). x)" if "\<not> (b \<le> 1 \<or> x div b = 0)" for b x :: nat
    using that by (cases "x = 0") auto
qed simp

declare digits_of.simps [simp del]

lemma uprint_loop_digits:
  assumes "1 < base"
  shows "uprint_loop x base buf = Some (buf @ map (\<lambda>d. udigits ! d) (digits_of (unat base) (unat x)))"
proof (induction "unat x" arbitrary: x buf rule: less_induct)
  case less
  have b: "1 < unat base" using assms by (simp add: word_less_nat_alt)
  have d: "unat (x div base) = unat x div unat base" "unat (x mod base) = unat x mod unat base" by (simp_all add: unat_div unat_mod)
  show ?case
  proof (cases "x div base = 0")
    case True
    then have z: "unat x div unat base = 0" using d(1) by simp
    have "digits_of (unat base) (unat x) = [unat x mod unat base]" by (subst digits_of.simps) (simp add: z)
    then show ?thesis using True d(2) by (subst uprint_loop.simps) (simp add: Let_def)
  next
    case False
    then have n: "unat x div unat base \<noteq> 0" using d(1) by (metis unat_eq_0)
    then have "unat (x div base) < unat x" using d(1) b by (cases "unat x = 0") simp_all
    then show ?thesis using less [of "x div base"] False b n d
      by (subst uprint_loop.simps) (simp add: Let_def digits_of.simps [of "unat base" "unat x"])
  qed
qed

lemma digits_less: "1 < b \<Longrightarrow> d \<in> set (digits_of b x) \<Longrightarrow> d < b"
proof (induction b x rule: digits_of.induct)
  case (1 b x)
  then show ?case by (subst (asm) (2) digits_of.simps) (auto split: if_splits)
qed

lemma digits_value: "1 < b \<Longrightarrow> foldr (\<lambda>d n. d + b * n) (digits_of b x) 0 = x"
proof (induction b x rule: digits_of.induct)
  case (1 b x)
  show ?case
  proof (cases "x div b = 0")
    case True
    then show ?thesis using mod_mult_div_eq [of x b] by (subst digits_of.simps) simp
  next
    case False
    then show ?thesis using 1 mod_mult_div_eq [of x b] by (subst digits_of.simps) simp
  qed
qed

lemma digits_nonempty: "digits_of b x \<noteq> []"
  by (subst digits_of.simps) simp

lemma udigit_decimal:
  assumes "d < 10"
  shows "is_digit (udigits ! d)" "uint (udigits ! d) = 48 + int d"
proof -
  have "\<forall>d\<in>set [0..<10]. is_digit (udigits ! d) \<and> uint (udigits ! d) = 48 + int d" by code_simp
  then show "is_digit (udigits ! d)" "uint (udigits ! d) = 48 + int d" using assms by auto
qed

lemma decimal_rev_digits: "\<forall>d\<in>set ds. d < 10 \<Longrightarrow> decimal (rev (map (\<lambda>d. udigits ! d) ds)) = int (foldr (\<lambda>d n. d + 10 * n) ds 0)"
proof (induction ds)
  case (Cons d ds)
  then show ?case using udigit_decimal [of d] by (simp add: decimal_def)
qed (simp add: decimal_def)

lemma sint_nonneg_unat:
  assumes "0 \<le> sint (w :: u32)"
  shows "int (unat w) = sint w"
proof -
  have s: "sint w = signed_take_bit 31 (uint w)" by (simp add: sint_uint)
  then have b: "\<not> bit (uint w) 31" using assms by (simp add: signed_take_bit_nonnegative_iff)
  have "uint w = take_bit (Suc 31) (uint w)" using uint_bounded [of w] uint_nonnegative [of w] by (simp add: take_bit_int_eq_self)
  also have "\<dots> = take_bit 31 (uint w)" using b by (simp only: take_bit_Suc_from_most of_bool_eq(1) mult_zero_right add_0)
  also have "\<dots> = sint w" using b s by (simp add: signed_take_bit_eq_if_positive)
  finally show ?thesis by simp
qed

text \<open>What \<^verbatim>\<open>%d\<close> prints of a number that is not negative.\<close>

lemma printint_decimal:
  assumes "0 \<le> sint w"
  shows "\<exists>ds. printint_u w 10 True = Some ds \<and> ds \<noteq> [] \<and> (\<forall>d\<in>set ds. is_digit d) \<and> decimal ds = sint w"
proof -
  let ?ds = "rev (map (\<lambda>d. udigits ! d) (digits_of 10 (unat w)))"
  have "printint_u w 10 True = Some ?ds" using assms uprint_loop_digits [of 10 w "[]"] by (simp add: printint_u_def)
  moreover have l: "d < 10" if "d \<in> set (digits_of 10 (unat w))" for d using digits_less [of 10 d] that by simp
  moreover have "decimal ?ds = int (unat w)" using decimal_rev_digits [of "digits_of 10 (unat w)"] l digits_value [of 10 "unat w"] by simp
  moreover have "int (unat w) = sint w" using assms by (rule sint_nonneg_unat)
  ultimately show ?thesis using digits_nonempty udigit_decimal by fastforce
qed

text \<open>C37. A number that is printed and read back is the number: for every \<^verbatim>\<open>int\<close> that is not negative, \<^verbatim>\<open>printf\<close> with the format \<^verbatim>\<open>%d\<close> ends, and
  \<^verbatim>\<open>atoi\<close>, where its text stands in memory followed by anything but a digit, returns the number.\<close>

theorem printf_atoi:
  assumes "0 \<le> sint w"
  shows "\<exists>out. printf [37, 100] [Val w] = Some out \<and>
    (\<forall>m s. bytes_at m s (length out) = out \<and> \<not> is_digit (m (s + of_nat (length out))) \<longrightarrow> atoi m s = Some w)"
proof -
  obtain ds where ds: "printint_u w 10 True = Some ds" "\<forall>d\<in>set ds. is_digit d" "decimal ds = sint w"
    using printint_decimal [OF assms] by blast
  have "printf [37, 100] [Val w] = Some ds" using ds(1) by (simp add: printf_def)
  moreover have "atoi m s = Some w" if b: "bytes_at m s (length ds) = ds" "\<not> is_digit (m (s + of_nat (length ds)))" for m s
  proof -
    have "is_digit (m (s + of_nat i))" if "i < length ds" for i
      using nth_bytes_at [OF that, of m s] b(1) ds(2) that by (metis nth_mem)
    then show ?thesis using atoi_decimal [of "length ds" m s] b ds(3) by simp
  qed
  ultimately show ?thesis by blast
qed

theorem printf_atoi_witness: "printf [37, 100] [Val 4207] = Some [52, 50, 48, 55] \<and>
  atoi ((\<lambda>_. 0)(100 := 52, 101 := 50, 102 := 48, 103 := 55)) 100 = Some 4207"
proof -
  let ?m = "(\<lambda>_. 0)(100 := 52, 101 := 50, 102 := 48, 103 := 55) :: memory"
  have p: "printf [37, 100] [Val 4207] = Some [52, 50, 48, 55]" by code_simp
  have "0 \<le> sint (4207 :: u32)" by simp
  from printf_atoi [OF this] p
  have "\<forall>m s. bytes_at m s 4 = [52, 50, 48, 55] \<and> \<not> is_digit (m (s + 4)) \<longrightarrow> atoi m s = Some 4207" by (simp add: numeral_eq_Suc)
  moreover have "bytes_at ?m 100 4 = [52, 50, 48, 55]" by (simp add: bytes_at_def upt_rec)
  moreover have "\<not> is_digit (?m (100 + 4))" by (simp add: is_digit_def)
  ultimately show ?thesis using p by blast
qed

end
