(* ===== verification/Ata.thy ===== *)
theory Ata
  imports Xv6_Mmu
begin

text \<open>
  The disk drive behind the I/O ports 0x1F0 to 0x1F7, which both the boot loader and the disk driver program. The drive is
  not code of the repository: it is a parameter, the functions that a port instruction runs on the drive's state. What
  the programs rely on is \<open>ata_drive\<close>, the documented behaviour of a drive in the mode they use: single-sector
  transfers, selected by a 28-bit sector number, through the data port. \<open>ideal_drive\<close> is a drive of that kind.
\<close>

unbundle bit_operations_syntax

section \<open>Ports\<close>

record 'd ata =
  ata_inb :: "u32 \<Rightarrow> 'd \<Rightarrow> u8 \<times> 'd"
  ata_outb :: "u32 \<Rightarrow> u8 \<Rightarrow> 'd \<Rightarrow> 'd"
  ata_insl :: "u32 \<Rightarrow> nat \<Rightarrow> 'd \<Rightarrow> u8 list \<times> 'd"
  ata_outsl :: "u32 \<Rightarrow> u8 list \<Rightarrow> 'd \<Rightarrow> 'd"

definition outbs :: "'d ata \<Rightarrow> (u32 \<times> u8) list \<Rightarrow> 'd \<Rightarrow> 'd" where
  "outbs A ws = fold (\<lambda>(p, v). ata_outb A p v) ws"

text \<open>Reading the status register until the bits of 0xC0 say "not busy, ready"; a drive that never is makes the loop run
  forever.\<close>

partial_function (option) poll :: "'d ata \<Rightarrow> 'd \<Rightarrow> (u8 \<times> 'd) option" where
  "poll A d = (case ata_inb A 0x1F7 d of (r, d') \<Rightarrow> if r AND 0xC0 \<noteq> 0x40 then poll A d' else Some (r, d'))"

section \<open>The documented behaviour\<close>

datatype phase = Idle | Reading u32 u32 | Writing u32 u32

record 'd ata_view =
  taskfile :: "'d \<Rightarrow> u32 \<Rightarrow> u8"
  sectors :: "'d \<Rightarrow> u32 \<Rightarrow> u32 \<Rightarrow> u8 list"
  phase_of :: "'d \<Rightarrow> phase"

text \<open>The drive and the sector that the registers select. Bit 6 of the drive register says that the other registers hold a
  sector number and not a cylinder, a head and a sector.\<close>

definition sel_lba :: "(u32 \<Rightarrow> u8) \<Rightarrow> bool" where
  "sel_lba r \<longleftrightarrow> r 0x1F6 AND 0x40 \<noteq> 0"

definition sel_drive :: "(u32 \<Rightarrow> u8) \<Rightarrow> u32" where
  "sel_drive r = drop_bit 4 (ucast (r 0x1F6)) AND 1"

definition sel_sector :: "(u32 \<Rightarrow> u8) \<Rightarrow> u32" where
  "sel_sector r = ucast (r 0x1F3) OR push_bit 8 (ucast (r 0x1F4)) OR push_bit 16 (ucast (r 0x1F5)) OR push_bit 24 (ucast (r 0x1F6) AND 0xF)"

text \<open>Reading the status changes nothing, and the drive becomes ready. Writing a register of the task file sets it; writing 0 to the
  control register (interrupts on, no reset) starts nothing. A read or write command for one sector, selected by its
  number, starts the transfer of that sector, and the transfer of its 128 words through the data port carries it out. The
  theorems are about drives that report no error.\<close>

definition same_view :: "'d ata_view \<Rightarrow> 'd \<Rightarrow> 'd \<Rightarrow> bool" where
  "same_view V d d' \<longleftrightarrow> taskfile V d' = taskfile V d \<and> sectors V d' = sectors V d \<and> phase_of V d' = phase_of V d"

definition ata_drive :: "'d ata \<Rightarrow> 'd ata_view \<Rightarrow> bool" where
  "ata_drive A V \<longleftrightarrow>
     (\<forall>d. same_view V d (snd (ata_inb A 0x1F7 d))) \<and>
     (\<forall>d. \<exists>n. fst (ata_inb A 0x1F7 (((\<lambda>d. snd (ata_inb A 0x1F7 d)) ^^ n) d)) AND 0xC0 = 0x40) \<and>
     (\<forall>d. fst (ata_inb A 0x1F7 d) AND 0xC0 = 0x40 \<longrightarrow> fst (ata_inb A 0x1F7 d) AND 0x21 = 0) \<and>
     (\<forall>p v d. p \<in> {0x1F2, 0x1F3, 0x1F4, 0x1F5, 0x1F6} \<longrightarrow>
        taskfile V (ata_outb A p v d) = (taskfile V d)(p := v) \<and> sectors V (ata_outb A p v d) = sectors V d \<and>
        phase_of V (ata_outb A p v d) = phase_of V d) \<and>
     (\<forall>d. same_view V d (ata_outb A 0x3F6 0 d)) \<and>
     (\<forall>d. taskfile V d 0x1F2 = 1 \<and> sel_lba (taskfile V d) \<longrightarrow> sectors V (ata_outb A 0x1F7 0x20 d) = sectors V d \<and>
        phase_of V (ata_outb A 0x1F7 0x20 d) = Reading (sel_drive (taskfile V d)) (sel_sector (taskfile V d))) \<and>
     (\<forall>d. taskfile V d 0x1F2 = 1 \<and> sel_lba (taskfile V d) \<longrightarrow> sectors V (ata_outb A 0x1F7 0x30 d) = sectors V d \<and>
        phase_of V (ata_outb A 0x1F7 0x30 d) = Writing (sel_drive (taskfile V d)) (sel_sector (taskfile V d))) \<and>
     (\<forall>d v n. phase_of V d = Reading v n \<longrightarrow> fst (ata_insl A 0x1F0 128 d) = sectors V d v n \<and>
        sectors V (snd (ata_insl A 0x1F0 128 d)) = sectors V d \<and> phase_of V (snd (ata_insl A 0x1F0 128 d)) = Idle) \<and>
     (\<forall>d v n xs. phase_of V d = Writing v n \<and> length xs = 512 \<longrightarrow>
        sectors V (ata_outsl A 0x1F0 xs d) = (sectors V d)(v := (sectors V d v)(n := xs)) \<and> phase_of V (ata_outsl A 0x1F0 xs d) = Idle)"

section \<open>Using a drive\<close>

lemma ata_status:
  assumes "ata_drive A V"
  shows "same_view V d (snd (ata_inb A 0x1F7 d))"
    "fst (ata_inb A 0x1F7 d) AND 0xC0 = 0x40 \<Longrightarrow> fst (ata_inb A 0x1F7 d) AND 0x21 = 0"
  using assms unfolding ata_drive_def by blast+

lemma ata_ready: "ata_drive A V \<Longrightarrow> \<exists>n. fst (ata_inb A 0x1F7 (((\<lambda>d. snd (ata_inb A 0x1F7 d)) ^^ n) d)) AND 0xC0 = 0x40"
  unfolding ata_drive_def by blast

lemma ata_reg:
  assumes "ata_drive A V" "p \<in> {0x1F2, 0x1F3, 0x1F4, 0x1F5, 0x1F6}"
  shows "taskfile V (ata_outb A p v d) = (taskfile V d)(p := v)" "sectors V (ata_outb A p v d) = sectors V d"
    "phase_of V (ata_outb A p v d) = phase_of V d"
  using assms unfolding ata_drive_def by blast+

lemma ata_control: "ata_drive A V \<Longrightarrow> same_view V d (ata_outb A 0x3F6 0 d)"
  unfolding ata_drive_def by blast

lemma ata_read:
  assumes "ata_drive A V" "taskfile V d 0x1F2 = 1" "sel_lba (taskfile V d)"
  shows "sectors V (ata_outb A 0x1F7 0x20 d) = sectors V d"
    "phase_of V (ata_outb A 0x1F7 0x20 d) = Reading (sel_drive (taskfile V d)) (sel_sector (taskfile V d))"
  using assms unfolding ata_drive_def by blast+

lemma ata_write:
  assumes "ata_drive A V" "taskfile V d 0x1F2 = 1" "sel_lba (taskfile V d)"
  shows "sectors V (ata_outb A 0x1F7 0x30 d) = sectors V d"
    "phase_of V (ata_outb A 0x1F7 0x30 d) = Writing (sel_drive (taskfile V d)) (sel_sector (taskfile V d))"
  using assms unfolding ata_drive_def by blast+

lemma ata_data_in:
  assumes "ata_drive A V" "phase_of V d = Reading v n"
  shows "fst (ata_insl A 0x1F0 128 d) = sectors V d v n" "sectors V (snd (ata_insl A 0x1F0 128 d)) = sectors V d"
    "phase_of V (snd (ata_insl A 0x1F0 128 d)) = Idle"
  using assms unfolding ata_drive_def by blast+

lemma ata_data_out:
  assumes "ata_drive A V" "phase_of V d = Writing v n" "length xs = 512"
  shows "sectors V (ata_outsl A 0x1F0 xs d) = (sectors V d)(v := (sectors V d v)(n := xs))" "phase_of V (ata_outsl A 0x1F0 xs d) = Idle"
  using assms unfolding ata_drive_def by blast+

text \<open>The polling loop ends, and what it changes of the drive does not matter.\<close>

lemma poll_ends:
  assumes "ata_drive A V"
  shows "\<exists>r d'. poll A d = Some (r, d') \<and> r AND 0x21 = 0 \<and> same_view V d d'"
proof -
  let ?next = "\<lambda>d. snd (ata_inb A 0x1F7 d)"
  obtain n where "fst (ata_inb A 0x1F7 ((?next ^^ n) d)) AND 0xC0 = 0x40" using ata_ready [OF assms] by blast
  then show ?thesis
  proof (induction n arbitrary: d)
    case 0
    then show ?case using ata_status [OF assms, of d] by (subst poll.simps) (auto split: prod.splits)
  next
    case (Suc n)
    show ?case
    proof (cases "fst (ata_inb A 0x1F7 d) AND 0xC0 = 0x40")
      case True
      then show ?thesis using ata_status [OF assms, of d] by (subst poll.simps) (auto split: prod.splits)
    next
      case False
      have "fst (ata_inb A 0x1F7 ((?next ^^ n) (?next d))) AND 0xC0 = 0x40" using Suc.prems by (simp only: funpow_Suc_right o_apply)
      then obtain r d' where "poll A (?next d) = Some (r, d')" "r AND 0x21 = 0" "same_view V (?next d) d'" using Suc.IH by blast
      moreover have "same_view V d (?next d)" using ata_status(1) [OF assms] .
      ultimately show ?thesis using False by (subst poll.simps) (auto simp: same_view_def split: prod.splits)
    qed
  qed
qed

section \<open>A drive\<close>

record drive =
  dr_regs :: "u32 \<Rightarrow> u8"
  dr_sectors :: "u32 \<Rightarrow> u32 \<Rightarrow> u8 list"
  dr_phase :: phase

definition ideal_drive :: "drive ata" where
  "ideal_drive = \<lparr>ata_inb = (\<lambda>p d. (if p = 0x1F7 then 0x40 else dr_regs d p, d)),
     ata_outb = (\<lambda>p v d.
       if p = 0x1F7 then d\<lparr>dr_phase := (if v = 0x20 then Reading else Writing) (sel_drive (dr_regs d)) (sel_sector (dr_regs d))\<rparr>
       else if p = 0x3F6 then d else d\<lparr>dr_regs := (dr_regs d)(p := v)\<rparr>),
     ata_insl = (\<lambda>p n d. case dr_phase d of Reading v k \<Rightarrow> (dr_sectors d v k, d\<lparr>dr_phase := Idle\<rparr>) | _ \<Rightarrow> ([], d)),
     ata_outsl = (\<lambda>p xs d. case dr_phase d of
         Writing v k \<Rightarrow> d\<lparr>dr_sectors := (dr_sectors d)(v := (dr_sectors d v)(k := xs)), dr_phase := Idle\<rparr>
       | _ \<Rightarrow> d)\<rparr>"

definition ideal_view :: "drive ata_view" where
  "ideal_view = \<lparr>taskfile = dr_regs, sectors = dr_sectors, phase_of = dr_phase\<rparr>"

lemma ideal_drive_ok: "ata_drive ideal_drive ideal_view"
  unfolding ata_drive_def by (auto simp: ideal_drive_def ideal_view_def same_view_def)

text \<open>Programming the registers with the bytes of a sector number below 2^28, as both programs do, selects that sector.\<close>

lemma sel_sector_bytes:
  assumes "r 0x1F3 = ucast n" "r 0x1F4 = ucast (drop_bit 8 n)" "r 0x1F5 = ucast (drop_bit 16 n)"
    "ucast (r 0x1F6) AND (0xF :: u32) = drop_bit 24 n AND 0xF" "n < 2 ^ 28"
  shows "sel_sector r = n"
proof (rule bit_word_eqI)
  fix k assume k: "k < LENGTH(32)"
  have m: "(0xF :: u32) = mask 4" by (simp add: mask_eq_exp_minus_1)
  have "n = take_bit 28 n" using assms(5) by (simp add: take_bit_eq_mod word_mod_def word_less_def)
  then have b: "bit n k \<Longrightarrow> k < 28" by (metis bit_take_bit_iff)
  have c: "k < 8 \<or> 8 \<le> k \<and> k < 16 \<or> 16 \<le> k \<and> k < 24 \<or> 24 \<le> k" by linarith
  show "bit (sel_sector r) k = bit n k"
    using k b c unfolding sel_sector_def assms(1-4) unfolding m
    by (elim disjE) (auto simp: bit_simps)
qed

end
