(* ===== verification/Bootmain.thy ===== *)
theory Bootmain
  imports Ata Xv6_String
begin

text \<open>
  The boot loader (\<^verbatim>\<open>bootmain.c\<close>): it loads the kernel's ELF image, which starts at sector 1 of the first drive, to the physical
  addresses its program headers name, and enters it. The state is the memory and the drive of \<^verbatim>\<open>Ata\<close>; \<open>None\<close> is a loop that
  never ends. The theorem on \<^verbatim>\<open>readseg\<close> says which bytes of the disk end up where.
\<close>

definition SECTSIZE :: u32 where "SECTSIZE = 512"

type_synonym 'd boot_state = "memory \<times> 'd"

definition waitdisk :: "'d ata \<Rightarrow> 'd \<Rightarrow> 'd option" where
  "waitdisk A d = map_option snd (poll A d)"

definition readsect :: "'d ata \<Rightarrow> u32 \<Rightarrow> u32 \<Rightarrow> 'd boot_state \<Rightarrow> 'd boot_state option" where
  "readsect A dst offset = (\<lambda>(m, d).
     case waitdisk A d of
       None \<Rightarrow> None
     | Some d1 \<Rightarrow>
         (case waitdisk A (outbs A [(0x1F2, 1), (0x1F3, ucast offset), (0x1F4, ucast (drop_bit 8 offset)),
            (0x1F5, ucast (drop_bit 16 offset)), (0x1F6, ucast (drop_bit 24 offset OR 0xE0)), (0x1F7, 0x20)] d1) of
            None \<Rightarrow> None
          | Some d2 \<Rightarrow> (case ata_insl A 0x1F0 (unat SECTSIZE div 4) d2 of (bs, d3) \<Rightarrow> Some (store_bytes bs dst m, d3))))"

text \<open>The loop of \<^verbatim>\<open>readseg\<close>: from \<open>pa\<close> up to \<open>epa\<close>, a sector at a time.\<close>

partial_function (option) readseg_loop :: "'d ata \<Rightarrow> u32 \<Rightarrow> u32 \<Rightarrow> u32 \<Rightarrow> 'd boot_state \<Rightarrow> 'd boot_state option" where
  "readseg_loop A pa epa offset st =
     (if pa < epa then
        (case readsect A pa offset st of None \<Rightarrow> None | Some st' \<Rightarrow> readseg_loop A (pa + SECTSIZE) epa (offset + 1) st')
      else Some st)"

definition readseg :: "'d ata \<Rightarrow> u32 \<Rightarrow> u32 \<Rightarrow> u32 \<Rightarrow> 'd boot_state \<Rightarrow> 'd boot_state option" where
  "readseg A pa count offset = readseg_loop A (pa - offset mod SECTSIZE) (pa + count) (offset div SECTSIZE + 1)"

definition load16 :: "memory \<Rightarrow> u32 \<Rightarrow> u16" where
  "load16 m a = ucast (m a) OR push_bit 8 (ucast (m (a + 1)))"

text \<open>The program headers lie in memory at \<open>ph\<close>, 32 bytes each: file offset at 4, physical address at 12, sizes at 16 and 20.\<close>

definition load_segment :: "'d ata \<Rightarrow> u32 \<Rightarrow> 'd boot_state \<Rightarrow> 'd boot_state option" where
  "load_segment A ph st =
     (let pa = load32 (fst st) (ph + 12); filesz = load32 (fst st) (ph + 16)
      in case readseg A pa filesz (load32 (fst st) (ph + 4)) st of
           None \<Rightarrow> None
         | Some (m, d) \<Rightarrow>
             (let memsz = load32 m (ph + 20); filesz' = load32 m (ph + 16)
              in Some (if memsz > filesz' then stosb (unat (memsz - filesz')) (pa + filesz') 0 m else m, d)))"

partial_function (option) load_kernel :: "'d ata \<Rightarrow> u32 \<Rightarrow> u32 \<Rightarrow> 'd boot_state \<Rightarrow> 'd boot_state option" where
  "load_kernel A ph eph st =
     (if ph < eph then
        (case load_segment A ph st of None \<Rightarrow> None | Some st' \<Rightarrow> load_kernel A (ph + 32) eph st')
      else Some st)"

datatype boot = Not_elf | Enter u32

definition bootmain :: "'d ata \<Rightarrow> 'd boot_state \<Rightarrow> (boot \<times> 'd boot_state) option" where
  "bootmain A st =
     (let elf = 0x10000
      in case readseg A elf 4096 0 st of
           None \<Rightarrow> None
         | Some (m, d) \<Rightarrow>
             if load32 m elf \<noteq> 0x464C457F then Some (Not_elf, m, d) else
             (let ph = elf + load32 m (elf + 28); eph = ph + 32 * ucast (load16 m (elf + 44))
              in case load_kernel A ph eph (m, d) of
                   None \<Rightarrow> None
                 | Some (m', d') \<Rightarrow> Some (Enter (load32 m' (elf + 24)), m', d')))"

section \<open>Reading from the drive\<close>

lemma waitdisk_ends: "ata_drive A V \<Longrightarrow> \<exists>d'. waitdisk A d = Some d' \<and> same_view V d d'"
  using poll_ends [of A V d] by (auto simp: waitdisk_def)

lemma sector_regs:
  assumes "ata_drive A V" "n < 2 ^ 28"
  shows "sectors V (outbs A [(0x1F2, 1), (0x1F3, ucast n), (0x1F4, ucast (drop_bit 8 n)), (0x1F5, ucast (drop_bit 16 n)),
      (0x1F6, ucast (drop_bit 24 n OR 0xE0)), (0x1F7, 0x20)] d) = sectors V d"
    "phase_of V (outbs A [(0x1F2, 1), (0x1F3, ucast n), (0x1F4, ucast (drop_bit 8 n)), (0x1F5, ucast (drop_bit 16 n)),
      (0x1F6, ucast (drop_bit 24 n OR 0xE0)), (0x1F7, 0x20)] d) = Reading 0 n"
proof -
  define d' where "d' = outbs A [(0x1F2, 1), (0x1F3, ucast n), (0x1F4, ucast (drop_bit 8 n)), (0x1F5, ucast (drop_bit 16 n)), (0x1F6, ucast (drop_bit 24 n OR 0xE0))] d"
  note r = ata_reg [OF assms(1)]
  have t: "taskfile V d' = (taskfile V d)(0x1F2 := 1, 0x1F3 := ucast n, 0x1F4 := ucast (drop_bit 8 n), 0x1F5 := ucast (drop_bit 16 n),
      0x1F6 := ucast (drop_bit 24 n OR 0xE0))" and s: "sectors V d' = sectors V d"
    by (simp_all add: d'_def outbs_def r)
  have m: "(0xF :: u32) = mask 4" "(1 :: u32) = mask 1" "(0xE0 :: u32) = push_bit 5 (mask 3)"
    by (simp_all add: mask_eq_exp_minus_1)
  have "n = take_bit 28 n" using assms(2) by (simp add: take_bit_eq_mod word_mod_def word_less_def)
  then have b: "bit n k \<Longrightarrow> k < 28" for k by (metis bit_take_bit_iff)
  have "sel_drive (taskfile V d') = 0"
    unfolding sel_drive_def t m by (rule bit_word_eqI) (auto simp: bit_simps dest: b)
  moreover have "ucast (ucast (drop_bit 24 n OR 0xE0) :: u8) AND (0xF :: u32) = drop_bit 24 n AND 0xF"
    unfolding m by (rule bit_word_eqI) (auto simp: bit_simps)
  then have "sel_sector (taskfile V d') = n" using assms(2) by (intro sel_sector_bytes) (simp_all add: t)
  moreover have "taskfile V d' 0x1F2 = 1" by (simp add: t)
  moreover have "bit (ucast (drop_bit 24 n OR 0xE0) AND 0x40 :: u8) 6" unfolding m by (simp add: bit_simps)
  then have "sel_lba (taskfile V d')" by (auto simp: sel_lba_def t)
  ultimately have "sectors V (ata_outb A 0x1F7 0x20 d') = sectors V d" "phase_of V (ata_outb A 0x1F7 0x20 d') = Reading 0 n"
    using ata_read [OF assms(1)] s by simp_all
  then show "sectors V (outbs A [(0x1F2, 1), (0x1F3, ucast n), (0x1F4, ucast (drop_bit 8 n)), (0x1F5, ucast (drop_bit 16 n)),
      (0x1F6, ucast (drop_bit 24 n OR 0xE0)), (0x1F7, 0x20)] d) = sectors V d"
    "phase_of V (outbs A [(0x1F2, 1), (0x1F3, ucast n), (0x1F4, ucast (drop_bit 8 n)), (0x1F5, ucast (drop_bit 16 n)),
      (0x1F6, ucast (drop_bit 24 n OR 0xE0)), (0x1F7, 0x20)] d) = Reading 0 n"
    by (simp_all add: d'_def outbs_def)
qed

lemma readsect_run:
  assumes "ata_drive A V" "n < 2 ^ 28"
  shows "\<exists>d'. readsect A dst n (m, d) = Some (store_bytes (sectors V d 0 n) dst m, d') \<and> sectors V d' = sectors V d"
proof -
  obtain d1 where d1: "waitdisk A d = Some d1" "same_view V d d1" using waitdisk_ends [OF assms(1)] by blast
  let ?d = "outbs A [(0x1F2, 1), (0x1F3, ucast n), (0x1F4, ucast (drop_bit 8 n)), (0x1F5, ucast (drop_bit 16 n)),
      (0x1F6, ucast (drop_bit 24 n OR 0xE0)), (0x1F7, 0x20)] d1"
  obtain d2 where d2: "waitdisk A ?d = Some d2" "same_view V ?d d2" using waitdisk_ends [OF assms(1)] by blast
  have v: "phase_of V d2 = Reading 0 n" "sectors V d2 = sectors V d"
    using d1(2) d2(2) sector_regs [OF assms, of d1] by (simp_all add: same_view_def)
  show ?thesis using d1(1) d2(1) ata_data_in [OF assms(1) v(1)] v(2)
    by (auto simp: readsect_def SECTSIZE_def split: prod.splits)
qed

text \<open>What the loop leaves in memory: from \<open>pa\<close> on, the bytes of the sectors from \<open>n\<close> on, up to the end of the sector that reaches \<open>epa\<close>.\<close>

lemma readseg_loop_run:
  assumes "ata_drive A V" "\<And>k. length (sectors V d 0 k) = 512"
    and "k = (unat epa - unat pa + 511) div 512" "unat epa + 512 \<le> 2 ^ 32" "unat n + k \<le> 2 ^ 28"
  shows "\<exists>m' d'. readseg_loop A pa epa n (m, d) = Some (m', d') \<and> sectors V d' = sectors V d \<and>
    (\<forall>a. m' a = (if unat (a - pa) < 512 * k then sectors V d 0 (n + of_nat (unat (a - pa) div 512)) ! (unat (a - pa) mod 512) else m a))"
  using assms(2-)
proof (induction k arbitrary: pa n m d)
  case 0
  then have "unat epa - unat pa = 0" by arith
  then have "\<not> pa < epa" by (simp add: word_less_nat_alt)
  then show ?case by (subst readseg_loop.simps) simp
next
  case (Suc k)
  have "unat pa < unat epa" using Suc.prems(2) by (cases "unat pa < unat epa") simp_all
  then have lt: "pa < epa" by (simp add: word_less_nat_alt)
  have n: "n < 2 ^ 28" using Suc.prems(4) by (simp add: word_less_nat_alt)
  obtain d1 where d1: "readsect A pa n (m, d) = Some (store_bytes (sectors V d 0 n) pa m, d1)" "sectors V d1 = sectors V d"
    using readsect_run [OF assms(1) n] by blast
  have up: "unat (pa + SECTSIZE) = unat pa + 512" using \<open>unat pa < unat epa\<close> Suc.prems(3) by (simp add: SECTSIZE_def unat_word_ariths)
  have n1: "unat (n + 1) = unat n + 1" using Suc.prems(4) by (simp add: unat_word_ariths)
  have kk: "k = (unat epa - unat (pa + SECTSIZE) + 511) div 512" using Suc.prems(2) up \<open>unat pa < unat epa\<close> by simp
  obtain m' d' where m': "readseg_loop A (pa + SECTSIZE) epa (n + 1) (store_bytes (sectors V d 0 n) pa m, d1) = Some (m', d')"
      "sectors V d' = sectors V d" and
    a: "\<And>a. m' a = (if unat (a - (pa + SECTSIZE)) < 512 * k then sectors V d 0 (n + 1 + of_nat (unat (a - (pa + SECTSIZE)) div 512)) ! (unat (a - (pa + SECTSIZE)) mod 512)
        else store_bytes (sectors V d 0 n) pa m a)"
    using Suc.IH [of d1 "pa + SECTSIZE" "n + 1" "store_bytes (sectors V d 0 n) pa m"] Suc.prems(1,3,4) d1(2) kk n1 by auto
  have k32: "512 * Suc k < 2 ^ 32" using Suc.prems(2,3) by (simp add: kk)
  have "m' a = (if unat (a - pa) < 512 * Suc k then sectors V d 0 (n + of_nat (unat (a - pa) div 512)) ! (unat (a - pa) mod 512) else m a)" for a
  proof (cases "unat (a - pa) < 512")
    case True
    have "unat (a - (pa + SECTSIZE)) = unat (a - pa) + 2 ^ 32 - 512"
      using True unat_sub_if_size [of "a - pa" "512 :: u32"] by (simp add: SECTSIZE_def word_size word_le_nat_alt diff_diff_eq)
    then have "\<not> unat (a - (pa + SECTSIZE)) < 512 * k" using k32 by simp
    then show ?thesis using True Suc.prems(1) by (simp add: a store_bytes_spec)
  next
    case False
    then have e: "unat (a - (pa + SECTSIZE)) = unat (a - pa) - 512"
      using unat_sub_if_size [of "a - pa" "512 :: u32"] by (simp add: SECTSIZE_def word_le_nat_alt diff_diff_eq)
    define j where "j = unat (a - pa) - 512"
    have j: "unat (a - pa) = j + 512" using False by (simp add: j_def)
    have "(j + 512) div 512 = Suc (j div 512)" by simp
    then show ?thesis using Suc.prems(1) by (simp add: a store_bytes_spec e j add.assoc)
  qed
  then show ?case using lt d1(1) m' by (subst readseg_loop.simps) auto
qed

text \<open>The bytes of the kernel image: sector 1 of the first drive and the sectors after it.\<close>

definition image_byte :: "'d ata_view \<Rightarrow> 'd \<Rightarrow> nat \<Rightarrow> u8" where
  "image_byte V d i = sectors V d 0 (1 + of_nat (i div 512)) ! (i mod 512)"

text \<open>C33. \<^verbatim>\<open>readseg\<close> ends, and puts \<^verbatim>\<open>count\<close> bytes of the kernel image, from \<^verbatim>\<open>offset\<close> on, at \<^verbatim>\<open>pa\<close>; whatever the alignment, what it writes beyond
  that stays within less than a sector below and a sector above, and the disk does not change. The range and a sector more must fit
  the address space.\<close>

theorem readseg_correct:
  assumes "ata_drive A V" "\<And>k. length (sectors V d 0 k) = 512"
    and "unat (offset mod 512) \<le> unat pa" "unat pa + unat count + 512 \<le> 2 ^ 32"
  shows "\<exists>m' d'. readseg A pa count offset (m, d) = Some (m', d') \<and> sectors V d' = sectors V d \<and>
    (\<forall>i<unat count. m' (pa + of_nat i) = image_byte V d (unat offset + i)) \<and>
    (\<forall>a. unat a < unat pa - unat (offset mod 512) \<or> unat pa + unat count + 511 \<le> unat a \<longrightarrow> m' a = m a)"
proof -
  define p where "p = pa - offset mod SECTSIZE"
  define r where "r = unat (offset mod 512)"
  have r: "r < 512" "r = unat offset mod 512" by (simp_all add: r_def unat_mod)
  have p: "unat p = unat pa - r" using assms(3) by (simp add: p_def r_def SECTSIZE_def unat_sub word_le_nat_alt)
  have e: "unat (pa + count) = unat pa + unat count" using assms(4) by (simp add: unat_word_ariths)
  define k where "k = (unat (pa + count) - unat p + 511) div 512"
  have k: "k \<le> 2 ^ 23" using assms(4) by (simp add: k_def e)
  have q: "unat offset div 512 < 8388608" by (rule less_mult_imp_div_less) simp
  have n: "unat (offset div SECTSIZE + 1) = unat offset div 512 + 1"
    using q by (simp add: SECTSIZE_def unat_word_ariths unat_div)
  obtain m' d' where m': "readseg_loop A p (pa + count) (offset div SECTSIZE + 1) (m, d) = Some (m', d')" "sectors V d' = sectors V d" and
    a: "\<And>a. m' a = (if unat (a - p) < 512 * k then sectors V d 0 (offset div SECTSIZE + 1 + of_nat (unat (a - p) div 512)) ! (unat (a - p) mod 512) else m a)"
    using readseg_loop_run [OF assms(1,2) k_def, of "offset div SECTSIZE + 1" m] assms(4) e n k q by auto
  have c: "unat count + r \<le> 512 * k" "512 * k \<le> unat count + r + 511" using assms(3) by (auto simp: k_def e p r_def)
  have "m' (pa + of_nat i) = image_byte V d (unat offset + i)" if "i < unat count" for i
  proof -
    have "pa + of_nat i - p = of_nat (i + r)" by (simp add: p_def r_def SECTSIZE_def)
    moreover have "i + r < 2 ^ 32" using that assms(3,4) by (simp add: r_def)
    ultimately have u: "unat (pa + of_nat i - p) = i + r" by (simp add: unat_of_nat del: of_nat_add)
    have o: "unat offset + i = (i + r) + 512 * (unat offset div 512)" using r(2) by simp
    have "offset div SECTSIZE = of_nat (unat offset div 512)" using q by (simp add: SECTSIZE_def word_unat_eq_iff unat_div unat_of_nat)
    then have s: "1 + of_nat ((unat offset + i) div 512) = offset div SECTSIZE + 1 + of_nat ((i + r) div 512)"
      unfolding o by simp
    have "(unat offset + i) mod 512 = (i + r) mod 512" unfolding o by simp
    then show ?thesis using c that u s by (simp add: a image_byte_def add_ac)
  qed
  moreover have "m' a = m a" if "unat a < unat pa - r \<or> unat pa + unat count + 511 \<le> unat a" for a
  proof -
    have "\<not> unat (a - p) < 512 * k"
    proof (cases "unat a < unat p")
      case True
      have "unat (a - p) = 2 ^ 32 + unat a - unat p" using True unat_sub_if_size [of a p] by (simp add: word_size word_le_nat_alt)
      then show ?thesis using c assms(3,4) p True by (simp add: r_def)
    next
      case False
      then have "unat (a - p) = unat a - unat p" by (simp add: unat_sub word_le_nat_alt)
      then show ?thesis using that False c(2) p assms(3) by (simp add: r_def)
    qed
    then show ?thesis by (simp add: a)
  qed
  ultimately show ?thesis using m' by (auto simp: readseg_def p_def r_def)
qed

text \<open>A disk whose sectors hold their own number, one byte of it.\<close>

definition boot_disk :: drive where
  "boot_disk = \<lparr>dr_regs = (\<lambda>_. 0), dr_sectors = (\<lambda>_ n. replicate 512 (ucast n)), dr_phase = Idle\<rparr>"

theorem readseg_correct_witness:
  "\<exists>m' d'. readseg ideal_drive 0x100100 0x500 0x300 (\<lambda>_. 0, boot_disk) = Some (m', d') \<and> m' 0x100100 = 2 \<and> m' 0x1005FF = 4 \<and> m' 0xFFFFF = 0"
proof -
  have l: "length (sectors ideal_view boot_disk 0 k) = 512" for k by (simp add: ideal_view_def boot_disk_def)
  obtain m' d' where m': "readseg ideal_drive 0x100100 0x500 0x300 (\<lambda>_. 0, boot_disk) = Some (m', d')"
      "\<And>i. i < 0x500 \<Longrightarrow> m' (0x100100 + of_nat i) = image_byte ideal_view boot_disk (0x300 + i)"
      "\<And>a. unat a < 0x100000 \<Longrightarrow> m' a = 0"
    using readseg_correct [OF ideal_drive_ok l, where offset = "0x300" and pa = "0x100100" and count = "0x500" and m = "\<lambda>_. 0"] by auto
  have b: "image_byte ideal_view boot_disk i = ucast (1 + of_nat (i div 512) :: u32)" for i
    by (simp add: image_byte_def ideal_view_def boot_disk_def)
  have "m' 0x100100 = 2" using m'(2) [of 0] by (simp add: b)
  moreover have "m' 0x1005FF = 4" using m'(2) [of "0x4FF"] by (simp add: b)
  moreover have "m' 0xFFFFF = 0" using m'(3) [of "0xFFFFF"] by simp
  ultimately show ?thesis using m'(1) by blast
qed

end
