(* ===== verification/Xv6_Mp.thy ===== *)
theory Xv6_Mp
  imports Xv6_String
begin

text \<open>
  Finding the processors (\<^verbatim>\<open>mp.c\<close>): the search for the floating pointer structure of the multiprocessor specification, the check
  of the configuration table, and the scan of its entries. The functions read the memory; what \<^verbatim>\<open>mpinit\<close> sets is the record
  \<open>mpst\<close>, with the local interrupt controller numbers of \<^verbatim>\<open>cpus[0]\<close> to \<^verbatim>\<open>cpus[ncpu-1]\<close> as a list and the port writes in order. \<open>None\<close>
  is a loop that never ends.
\<close>

section \<open>Searching\<close>

definition MPPROC :: u8 where "MPPROC = 0"
definition MPBUS :: u8 where "MPBUS = 1"
definition MPIOAPIC :: u8 where "MPIOAPIC = 2"
definition MPIOINTR :: u8 where "MPIOINTR = 3"
definition MPLINTR :: u8 where "MPLINTR = 4"

lemmas mp_types = MPPROC_def MPBUS_def MPIOAPIC_def MPIOINTR_def MPLINTR_def

definition sum_bytes :: "memory \<Rightarrow> u32 \<Rightarrow> nat \<Rightarrow> u8" where
  "sum_bytes m addr len = (\<Sum>i\<leftarrow>[0..<len]. m (addr + of_nat i))"

definition has_sig :: "memory \<Rightarrow> u32 \<Rightarrow> u8 list \<Rightarrow> bool" where
  "has_sig m p sig \<longleftrightarrow> map (\<lambda>i. m (p + of_nat i)) [0..<length sig] = sig"

definition MP_SIG :: "u8 list" where "MP_SIG = [0x5F, 0x4D, 0x50, 0x5F]"
definition PCMP_SIG :: "u8 list" where "PCMP_SIG = [0x50, 0x43, 0x4D, 0x50]"

definition mp_at :: "memory \<Rightarrow> u32 \<Rightarrow> bool" where
  "mp_at m p \<longleftrightarrow> has_sig m p MP_SIG \<and> sum_bytes m p 16 = 0"

text \<open>The loop over the addresses from \<open>p\<close> to \<open>e\<close>, 16 bytes apart; 0 is the null pointer.\<close>

partial_function (option) mpsearch_loop :: "memory \<Rightarrow> u32 \<Rightarrow> u32 \<Rightarrow> u32 option" where
  "mpsearch_loop m p e =
     (if p < e then (if mp_at m p then Some p else mpsearch_loop m (p + 16) e) else Some 0)"

definition mpsearch1 :: "memory \<Rightarrow> u32 \<Rightarrow> u32 \<Rightarrow> u32 option" where
  "mpsearch1 m a len = mpsearch_loop m (P2V a) (P2V a + len)"

definition mpsearch :: "memory \<Rightarrow> u32 option" where
  "mpsearch m =
     (let bda = P2V 0x400;
          ebda = push_bit 4 (push_bit 8 (ucast (m (bda + 0x0F))) OR ucast (m (bda + 0x0E)) :: u32);
          base = (push_bit 8 (ucast (m (bda + 0x14))) OR ucast (m (bda + 0x13))) * 1024
      in case (if ebda \<noteq> 0 then mpsearch1 m ebda 1024 else mpsearch1 m (base - 1024) 1024) of
           None \<Rightarrow> None
         | Some p \<Rightarrow> if p \<noteq> 0 then Some p else mpsearch1 m 0xF0000 0x10000)"

definition mem16 :: "memory \<Rightarrow> u32 \<Rightarrow> u16" where
  "mem16 m a = ucast (m a) OR push_bit 8 (ucast (m (a + 1)))"

text \<open>The table and the structure that led to it.\<close>

definition mpconfig :: "memory \<Rightarrow> (u32 \<times> u32) option option" where
  "mpconfig m =
     (case mpsearch m of
        None \<Rightarrow> None
      | Some p \<Rightarrow>
          if p = 0 then Some None
          else if load32 m (p + 4) = 0 then Some None
          else
            (let conf = P2V (load32 m (p + 4))
             in if \<not> has_sig m conf PCMP_SIG then Some None
                else if m (conf + 6) \<noteq> 1 \<and> m (conf + 6) \<noteq> 4 then Some None
                else if sum_bytes m conf (unat (mem16 m (conf + 4))) \<noteq> 0 then Some None
                else Some (Some (p, conf))))"

section \<open>The entries\<close>

record mpst =
  mp_apicids :: "u8 list"
  mp_ioapicid :: u8
  mp_lapic :: u32
  mp_ports :: "(u32 \<times> u8) list"

definition add_cpu :: "u8 \<Rightarrow> mpst \<Rightarrow> mpst" where
  "add_cpu a st = (if length (mp_apicids st) < NCPU then st\<lparr>mp_apicids := mp_apicids st @ [a]\<rparr> else st)"

text \<open>The scan. In the default case \<^verbatim>\<open>break\<close> leaves the \<^verbatim>\<open>switch\<close>, not the loop, and \<^verbatim>\<open>p\<close> has not moved.\<close>

partial_function (option) mp_scan :: "memory \<Rightarrow> u32 \<Rightarrow> u32 \<Rightarrow> bool \<Rightarrow> mpst \<Rightarrow> (bool \<times> mpst) option" where
  "mp_scan m p e ismp st =
     (if p < e then
        (if m p = MPPROC then mp_scan m (p + 20) e ismp (add_cpu (m (p + 1)) st)
         else if m p = MPIOAPIC then mp_scan m (p + 8) e ismp (st\<lparr>mp_ioapicid := m (p + 1)\<rparr>)
         else if m p = MPBUS \<or> m p = MPIOINTR \<or> m p = MPLINTR then mp_scan m (p + 8) e ismp st
         else mp_scan m p e False st)
      else Some (ismp, st))"

datatype mp_result = Mp_panic string | Mp_ok mpst

definition mpinit :: "memory \<Rightarrow> u8 \<Rightarrow> mpst \<Rightarrow> mp_result option" where
  "mpinit m in23 st =
     (case mpconfig m of
        None \<Rightarrow> None
      | Some None \<Rightarrow> Some (Mp_panic ''Expect to run on an SMP'')
      | Some (Some (mp, conf)) \<Rightarrow>
          (case mp_scan m (conf + 44) (conf + ucast (mem16 m (conf + 4))) True (st\<lparr>mp_lapic := load32 m (conf + 36)\<rparr>) of
             None \<Rightarrow> None
           | Some (ismp, st') \<Rightarrow>
               if \<not> ismp then Some (Mp_panic ''Didn't find a suitable machine'')
               else if m (mp + 12) \<noteq> 0 then Some (Mp_ok (st'\<lparr>mp_ports := mp_ports st' @ [(0x22, 0x70), (0x23, in23 OR 1)]\<rparr>))
               else Some (Mp_ok st')))"

section \<open>Well-formed tables\<close>

datatype mpentry = Processor u8 | Io_apic u8 | Other u8

primrec entry_size :: "mpentry \<Rightarrow> u32" where
  "entry_size (Processor a) = 20"
| "entry_size (Io_apic a) = 8"
| "entry_size (Other t) = 8"

primrec entry_at :: "memory \<Rightarrow> u32 \<Rightarrow> mpentry \<Rightarrow> bool" where
  "entry_at m p (Processor a) \<longleftrightarrow> m p = MPPROC \<and> m (p + 1) = a"
| "entry_at m p (Io_apic a) \<longleftrightarrow> m p = MPIOAPIC \<and> m (p + 1) = a"
| "entry_at m p (Other t) \<longleftrightarrow> m p = t \<and> t \<in> {MPBUS, MPIOINTR, MPLINTR}"

text \<open>The entries between \<open>p\<close> and \<open>e\<close>, none of them reaching beyond \<open>e\<close>.\<close>

primrec entries_at :: "memory \<Rightarrow> u32 \<Rightarrow> u32 \<Rightarrow> mpentry list \<Rightarrow> bool" where
  "entries_at m p e [] \<longleftrightarrow> p = e"
| "entries_at m p e (x # xs) \<longleftrightarrow> p < e \<and> entry_at m p x \<and> entries_at m (p + entry_size x) e xs"

primrec register :: "mpentry \<Rightarrow> mpst \<Rightarrow> mpst" where
  "register (Processor a) st = add_cpu a st"
| "register (Io_apic a) st = st\<lparr>mp_ioapicid := a\<rparr>"
| "register (Other t) st = st"

lemma mp_scan_entries:
  assumes "entries_at m p e xs"
  shows "mp_scan m p e ismp st = Some (ismp, fold register xs st)"
  using assms
proof (induction xs arbitrary: p st)
  case Nil
  then show ?case by (subst mp_scan.simps) simp
next
  case (Cons x xs)
  then show ?case by (subst mp_scan.simps) (cases x; auto simp: mp_types)
qed

definition processors :: "mpentry list \<Rightarrow> u8 list" where
  "processors xs = [a. Processor a \<leftarrow> xs]"

lemma fold_register_apicids:
  "mp_apicids (fold register xs st) = (if length (mp_apicids st) \<ge> NCPU then mp_apicids st else take NCPU (mp_apicids st @ processors xs))"
proof (induction xs arbitrary: st)
  case Nil
  then show ?case by (simp add: processors_def)
next
  case (Cons x xs)
  then show ?case by (cases x) (auto simp: processors_def add_cpu_def take_Cons')
qed

text \<open>A scan that finds an entry of another type does not end.\<close>

definition unknown :: "u8 \<Rightarrow> bool" where
  "unknown t \<longleftrightarrow> t \<notin> {MPPROC, MPBUS, MPIOAPIC, MPIOINTR, MPLINTR}"

lemma mp_scan_unknown:
  assumes "p < e" "unknown (m p)"
  shows "mp_scan m p e ismp st = None"
proof -
  have "p < e \<and> unknown (m p) \<longrightarrow> False" if "mp_scan m p e ismp st = Some y" for y
    using that
  proof (rule mp_scan.raw_induct [where P = "\<lambda>m p e ismp st y. p < e \<and> unknown (m p) \<longrightarrow> False", rotated])
    fix f m p e ismp st y
    assume "\<And>m p e ismp st y. f m p e ismp st = Some y \<Longrightarrow> p < e \<and> unknown (m p) \<longrightarrow> False"
      "(if p < e then if m p = MPPROC then f m (p + 20) e ismp (add_cpu (m (p + 1)) st)
        else if m p = MPIOAPIC then f m (p + 8) e ismp (st\<lparr>mp_ioapicid := m (p + 1)\<rparr>)
        else if m p = MPBUS \<or> m p = MPIOINTR \<or> m p = MPLINTR then f m (p + 8) e ismp st else f m p e False st
        else Some (ismp, st)) = Some y"
    then show "p < e \<and> unknown (m p) \<longrightarrow> False" by (cases y) (fastforce simp: unknown_def split: if_splits)
  qed
  then show ?thesis using assms by (cases "mp_scan m p e ismp st") auto
qed

lemma mp_scan_stuck:
  assumes "entries_at m p q xs" "q < e" "unknown (m q)"
  shows "mp_scan m p e ismp st = None"
  using assms(1)
proof (induction xs arbitrary: p st)
  case Nil
  then show ?case using mp_scan_unknown assms by simp
next
  case (Cons x xs)
  then show ?case using assms(2) by (subst mp_scan.simps) (cases x; auto simp: mp_types)
qed
section \<open>The search ends\<close>

lemma mpsearch_loop_ends:
  assumes "unat e + 16 \<le> 2 ^ 32"
  shows "\<exists>q. mpsearch_loop m p e = Some q \<and> (q = 0 \<or> mp_at m q)"
proof (induction "unat e - unat p" arbitrary: p rule: less_induct)
  case less
  show ?case
  proof (cases "p < e \<and> \<not> mp_at m p")
    case True
    then have "unat (p + 16) = unat p + 16" using assms by (simp add: word_less_nat_alt unat_word_ariths)
    then have "unat e - unat (p + 16) < unat e - unat p" using True by (auto simp: word_less_nat_alt)
    then obtain q where "mpsearch_loop m (p + 16) e = Some q" "q = 0 \<or> mp_at m q" using less by blast
    then show ?thesis using True by (subst mpsearch_loop.simps) simp
  next
    case False
    then show ?thesis by (subst mpsearch_loop.simps) auto
  qed
qed

lemma unat_pair: "unat (push_bit 8 (ucast (a :: u8)) OR ucast (b :: u8) :: u32) < 65536"
proof -
  let ?w = "push_bit 8 (ucast a) OR ucast b :: u32"
  have e: "take_bit 16 ?w = ?w" by (rule bit_word_eqI) (auto simp: bit_simps dest: bit_imp_le_length)
  have "unat (take_bit 16 ?w) < 2 ^ 16" unfolding unsigned_take_bit_eq by (rule take_bit_nat_less_exp)
  then show ?thesis unfolding e by simp
qed

lemma mpsearch1_ends:
  assumes "unat (P2V a) + unat len + 16 \<le> 2 ^ 32"
  shows "\<exists>q. mpsearch1 m a len = Some q \<and> (q = 0 \<or> mp_at m q)"
  unfolding mpsearch1_def
  using assms by (intro mpsearch_loop_ends) (simp add: unat_word_ariths)

lemma mpsearch_ends: "\<exists>q. mpsearch m = Some q \<and> (q = 0 \<or> mp_at m q)"
proof -
  let ?w = "\<lambda>i j. push_bit 8 (ucast (m (P2V 0x400 + i))) OR ucast (m (P2V 0x400 + j)) :: u32"
  have "unat (push_bit 4 (?w 0x0F 0x0E)) < 65536 * 16"
    using unat_pair [of "m (P2V 0x400 + 0x0F)" "m (P2V 0x400 + 0x0E)"] by (simp add: push_bit_eq_mult unat_word_ariths)
  then have 1: "unat (P2V (push_bit 4 (?w 0x0F 0x0E))) + unat (1024 :: u32) + 16 \<le> 2 ^ 32"
    by (simp add: P2V_def KERNBASE_def unat_word_ariths)
  have b: "unat (?w 0x14 0x13 * 1024) < 65536 * 1024"
    using unat_pair [of "m (P2V 0x400 + 0x14)" "m (P2V 0x400 + 0x13)"] by (simp add: unat_word_ariths)
  have 2: "unat (P2V (?w 0x14 0x13 * 1024 - 1024)) + unat (1024 :: u32) + 16 \<le> 2 ^ 32"
  proof -
    have "P2V (?w 0x14 0x13 * 1024 - 1024) = ?w 0x14 0x13 * 1024 + 0x7FFFFC00" by (simp add: P2V_def KERNBASE_def)
    then show ?thesis using b by (simp add: unat_word_ariths)
  qed
  have 3: "unat (P2V 0xF0000) + unat (0x10000 :: u32) + 16 \<le> 2 ^ 32" by (simp add: P2V_def KERNBASE_def)
  show ?thesis
    using mpsearch1_ends [OF 1, of m] mpsearch1_ends [OF 2, of m] mpsearch1_ends [OF 3, of m]
    by (auto simp: mpsearch_def Let_def split: option.splits)
qed

lemma mpconfig_ends: "\<exists>r. mpconfig m = Some r"
  using mpsearch_ends [of m] by (auto simp: mpconfig_def Let_def)

lemma mpconfig_found:
  assumes "mpconfig m = Some (Some (p, conf))"
  shows "mp_at m p \<and> has_sig m conf PCMP_SIG \<and> sum_bytes m conf (unat (mem16 m (conf + 4))) = 0"
  using assms mpsearch_ends [of m] by (auto simp: mpconfig_def Let_def split: option.splits if_splits)

definition conf_end :: "memory \<Rightarrow> u32 \<Rightarrow> u32" where
  "conf_end m conf = conf + ucast (mem16 m (conf + 4))"

text \<open>C34. \<^verbatim>\<open>mpinit\<close> on a machine whose tables are in order: the search always ends, and either there is no usable table and the kernel
  panics, or the signatures and checksums are right; then, if the entries fill the table exactly, the processors are registered in
  the order of the table, at most \<^verbatim>\<open>NCPU\<close> of them, and the address of the local interrupt controller is the table's.\<close>

theorem mpinit_correct:
  assumes "mp_apicids st = []"
  shows "\<exists>r. mpconfig m = Some r \<and> (case r of None \<Rightarrow> mpinit m in23 st = Some (Mp_panic ''Expect to run on an SMP'')
    | Some (p, conf) \<Rightarrow> mp_at m p \<and> has_sig m conf PCMP_SIG \<and> sum_bytes m conf (unat (mem16 m (conf + 4))) = 0 \<and>
       (\<forall>xs. entries_at m (conf + 44) (conf_end m conf) xs \<longrightarrow>
          (\<exists>st'. mpinit m in23 st = Some (Mp_ok st') \<and> mp_apicids st' = take NCPU (processors xs) \<and> mp_lapic st' = load32 m (conf + 36))))"
proof -
  obtain r where r: "mpconfig m = Some r" using mpconfig_ends by blast
  have l: "mp_lapic (fold register xs s) = mp_lapic s" for xs s
  proof (induction xs arbitrary: s)
    case (Cons x xs)
    then show ?case by (cases x) (simp_all add: add_cpu_def)
  qed simp
  show ?thesis
  proof (cases r)
    case None
    then show ?thesis using r by (simp add: mpinit_def)
  next
    case (Some pc)
    obtain p conf where pc: "pc = (p, conf)" by (cases pc)
    have "\<exists>st'. mpinit m in23 st = Some (Mp_ok st') \<and> mp_apicids st' = take NCPU (processors xs) \<and> mp_lapic st' = load32 m (conf + 36)"
      if "entries_at m (conf + 44) (conf_end m conf) xs" for xs
      using r Some pc assms mp_scan_entries [OF that] l by (simp add: mpinit_def conf_end_def fold_register_apicids NCPU_def)
    then show ?thesis using r Some pc mpconfig_found [of m p conf] by auto
  qed
qed

text \<open>C35. An entry of a type the code does not know hangs the machine: the default case of the scan does not advance, so \<^verbatim>\<open>mpinit\<close>
  never returns and the panic meant for this case is not reached.\<close>

theorem mpinit_hangs:
  assumes "mpconfig m = Some (Some (p, conf))" "entries_at m (conf + 44) q xs" "q < conf_end m conf" "unknown (m q)"
  shows "mpinit m in23 st = None"
  using assms(1) mp_scan_stuck [OF assms(2-4)] by (simp add: mpinit_def conf_end_def)

section \<open>A machine\<close>

text \<open>The floating pointer structure is at the start of the extended BIOS data area, the table at 0x20000. The table has one
  processor and one entry of type \<open>t\<close>.\<close>

definition mp_mem :: "u8 \<Rightarrow> memory" where
  "mp_mem t = (\<lambda>_. 0)(0x8000040F := 0x10,
     0x80010000 := 0x5F, 0x80010001 := 0x4D, 0x80010002 := 0x50, 0x80010003 := 0x5F, 0x80010006 := 2, 0x8001000A := 0xA3,
     0x80020000 := 0x50, 0x80020001 := 0x43, 0x80020002 := 0x4D, 0x80020003 := 0x50, 0x80020004 := 72, 0x80020006 := 1,
     0x80020007 := 0x87 - t, 0x80020040 := t)"

lemma mpconfig_mem: "mpconfig (mp_mem t) = Some (Some (0x80010000, 0x80020000))"
proof -
  have u: "[0..<16] = [0, 1, 2, 3, 4, 5, 6, 7, 8, 9, 10, 11, 12, 13, 14, 15]" by (simp add: upt_rec)
  have "mp_at (mp_mem t) 0x80010000" by (simp add: mp_at_def has_sig_def MP_SIG_def sum_bytes_def mp_mem_def u upt_rec)
  then have "mpsearch1 (mp_mem t) 0x10000 1024 = Some 0x80010000"
    by (simp add: mpsearch1_def mpsearch_loop.simps [of _ "0x80010000"] P2V_def KERNBASE_def)
  moreover have "mp_mem t 0x8000040F = 0x10" "mp_mem t 0x8000040E = 0" by (simp_all add: mp_mem_def)
  ultimately have s: "mpsearch (mp_mem t) = Some 0x80010000" by (simp add: mpsearch_def P2V_def KERNBASE_def)
  have "sum_bytes (mp_mem t) 0x80020000 72 = 0" by (simp add: sum_bytes_def mp_mem_def upt_rec)
  moreover have "mem16 (mp_mem t) 0x80020004 = 72" by (simp add: mem16_def mp_mem_def)
  moreover have "load32 (mp_mem t) 0x80010004 = 0x20000" by (simp add: load32_def word_of_bytes_def mp_mem_def)
  ultimately show ?thesis
    by (simp add: mpconfig_def s P2V_def KERNBASE_def has_sig_def PCMP_SIG_def) (simp add: mp_mem_def)
qed

lemma mp_mem_end: "conf_end (mp_mem t) 0x80020000 = 0x80020048"
  by (simp add: conf_end_def mem16_def mp_mem_def)

theorem mpinit_correct_witness:
  "\<exists>st'. mpinit (mp_mem 2) 0 \<lparr>mp_apicids = [], mp_ioapicid = 0, mp_lapic = 0, mp_ports = []\<rparr> = Some (Mp_ok st') \<and> mp_apicids st' = [0]"
proof -
  have "entries_at (mp_mem 2) (0x80020000 + 44) (conf_end (mp_mem 2) 0x80020000) [Processor 0, Io_apic 0]"
    unfolding mp_mem_end by (simp add: mp_mem_def mp_types)
  moreover have "\<forall>xs. entries_at (mp_mem 2) (0x80020000 + 44) (conf_end (mp_mem 2) 0x80020000) xs \<longrightarrow>
      (\<exists>st'. mpinit (mp_mem 2) 0 \<lparr>mp_apicids = [], mp_ioapicid = 0, mp_lapic = 0, mp_ports = []\<rparr> = Some (Mp_ok st') \<and> mp_apicids st' = take NCPU (processors xs))"
    using mpinit_correct [of "\<lparr>mp_apicids = [], mp_ioapicid = 0, mp_lapic = 0, mp_ports = []\<rparr>" "mp_mem 2" 0] mpconfig_mem [of 2] by auto
  moreover have "take NCPU (processors [Processor 0, Io_apic 0]) = [0]" by (simp add: processors_def NCPU_def)
  ultimately show ?thesis by metis
qed

theorem mpinit_hangs_witness: "mpinit (mp_mem 9) 0 \<lparr>mp_apicids = [], mp_ioapicid = 0, mp_lapic = 0, mp_ports = []\<rparr> = None"
  by (rule mpinit_hangs [OF mpconfig_mem, of _ "0x80020040" "[Processor 0]"])
    (simp_all add: mp_mem_end, simp_all add: mp_mem_def mp_types unknown_def)

end
