(* ===== verification/Xv6_Spinlock.thy ===== *)
theory Xv6_Spinlock
  imports Xv6_Mmu
begin

text \<open>
  Per-CPU state and spin locks: \<^verbatim>\<open>spinlock.c\<close>, the \<^verbatim>\<open>struct cpu\<close> of \<^verbatim>\<open>proc.h\<close> and \<^verbatim>\<open>mycpu\<close> of
  \<^verbatim>\<open>proc.c\<close>. The state is that of the CPU that executes, with the table of all CPUs and all
  spin locks. The record is extended by every later component, so an operation here works on
  the whole kernel state. The debugging field \<^verbatim>\<open>pcs\<close> of a lock, which no kernel code reads back,
  is left out.
\<close>

section \<open>Data\<close>

text \<open>The kernel's locks. A C pointer to a lock is the name of the lock here.\<close>

datatype sleeplockid = BufLock nat | InodeLock nat

datatype lockid = PtableLock | KmemLock | BcacheLock | LogLock | IcacheLock | FtableLock
  | IdeLock | ConsLock | TicksLock | PipeLock u32 | SleepSpin sleeplockid

record spinlock =
  locked :: u32
  lname :: string
  lcpu :: "nat option"

record cpu =
  apicid :: u8
  ts :: taskstate
  gdt :: "segdesc list"
  started :: bool
  ncli :: int
  intena :: bool
  cproc :: "nat option"

text \<open>The registers of the executing CPU that matter here, the CPU table and the locks, kept as one
  field of the kernel state.\<close>

record hart =
  eflags_if :: bool
  lapicid :: u8
  cpus :: "cpu list"
  locks :: "lockid \<Rightarrow> spinlock"

record kcpu =
  hw :: hart

definition getH :: "(hart \<Rightarrow> 'a) \<Rightarrow> ('z kcpu_scheme, 'a) kmon" where
  "getH f = getK (\<lambda>s. f (hw s))"

definition modH :: "(hart \<Rightarrow> hart) \<Rightarrow> ('z kcpu_scheme, unit) kmon" where
  "modH f = modK (\<lambda>s. s\<lparr>hw := f (hw s)\<rparr>)"

lemma getH_run [simp]: "getH f s = Done (f (hw s)) s"
  by (simp add: getH_def)

lemma modH_run [simp]: "modH f s = Done () (s\<lparr>hw := f (hw s)\<rparr>)"
  by (simp add: modH_def)

section \<open>Operations\<close>

definition cli :: "('z kcpu_scheme, unit) kmon" where
  "cli = modH (\<lambda>s. s\<lparr>eflags_if := False\<rparr>)"

definition sti :: "('z kcpu_scheme, unit) kmon" where
  "sti = modH (\<lambda>s. s\<lparr>eflags_if := True\<rparr>)"

definition readeflags_if :: "('z kcpu_scheme, bool) kmon" where
  "readeflags_if = getH eflags_if"

definition mycpu :: "('z kcpu_scheme, nat) kmon" where
  "mycpu =
     bindK readeflags_if (\<lambda>fl_if.
     if fl_if then panicK (''mycpu called with interrupts enabled'' @ [newline]) else
     bindK (getH (\<lambda>s. find_slot (\<lambda>c. apicid c = lapicid s) (cpus s))) (\<lambda>r.
     case r of Some i \<Rightarrow> returnK i | None \<Rightarrow> panicK (''unknown apicid'' @ [newline])))"

definition mod_cpu :: "nat \<Rightarrow> (cpu \<Rightarrow> cpu) \<Rightarrow> ('z kcpu_scheme, unit) kmon" where
  "mod_cpu c f = modH (\<lambda>s. s\<lparr>cpus := upd_slot c f (cpus s)\<rparr>)"

definition mod_lock :: "lockid \<Rightarrow> (spinlock \<Rightarrow> spinlock) \<Rightarrow> ('z kcpu_scheme, unit) kmon" where
  "mod_lock lk f = modH (\<lambda>s. s\<lparr>locks := (locks s)(lk := f (locks s lk))\<rparr>)"

definition pushcli :: "('z kcpu_scheme, unit) kmon" where
  "pushcli =
     bindK readeflags_if (\<lambda>eflags.
     thenK cli (
     bindK mycpu (\<lambda>c.
     bindK (getH (\<lambda>s. ncli (cpus s ! c))) (\<lambda>n.
     thenK (whenK (n = 0) (mod_cpu c (intena_update (\<lambda>_. eflags))))
           (mod_cpu c (ncli_update (\<lambda>k. k + 1)))))))"

definition popcli :: "('z kcpu_scheme, unit) kmon" where
  "popcli =
     bindK readeflags_if (\<lambda>fl_if.
     if fl_if then panicK ''popcli - interruptible'' else
     bindK mycpu (\<lambda>c.
     thenK (mod_cpu c (ncli_update (\<lambda>k. k - 1))) (
     bindK (getH (\<lambda>s. cpus s ! c)) (\<lambda>me.
     if ncli me < 0 then panicK ''popcli''
     else whenK (ncli me = 0 \<and> intena me) sti))))"

definition initlock :: "lockid \<Rightarrow> string \<Rightarrow> ('z kcpu_scheme, unit) kmon" where
  "initlock lk name = mod_lock lk (\<lambda>_. \<lparr>locked = 0, lname = name, lcpu = None\<rparr>)"

definition holding :: "lockid \<Rightarrow> ('z kcpu_scheme, bool) kmon" where
  "holding lk =
     thenK pushcli (
     bindK mycpu (\<lambda>c.
     bindK (getH (\<lambda>s. locked (locks s lk) \<noteq> 0 \<and> lcpu (locks s lk) = Some c)) (\<lambda>r.
     thenK popcli (returnK r))))"

text \<open>The atomic exchange of the \<^verbatim>\<open>locked\<close> word with 1: its old value.\<close>

definition xchg_locked :: "lockid \<Rightarrow> ('z kcpu_scheme, u32) kmon" where
  "xchg_locked lk =
     bindK (getH (\<lambda>s. locked (locks s lk))) (\<lambda>old.
     thenK (mod_lock lk (locked_update (\<lambda>_. 1))) (returnK old))"

definition acquire :: "lockid \<Rightarrow> ('z kcpu_scheme, unit) kmon" where
  "acquire lk =
     thenK pushcli (
     bindK (holding lk) (\<lambda>h.
     if h then panicK ''acquire'' else
     bindK (xchg_locked lk) (\<lambda>old.
     if old \<noteq> 0 then (\<lambda>s. Spins s) else
     bindK mycpu (\<lambda>c. mod_lock lk (lcpu_update (\<lambda>_. Some c))))))"

definition release :: "lockid \<Rightarrow> ('z kcpu_scheme, unit) kmon" where
  "release lk =
     bindK (holding lk) (\<lambda>h.
     if \<not> h then panicK ''release'' else
     thenK (mod_lock lk (lcpu_update (\<lambda>_. None))) (
     thenK (mod_lock lk (locked_update (\<lambda>_. 0)))
     popcli))"

section \<open>Well-formed CPU state\<close>

text \<open>The executing CPU is in the table, its nesting depth is not negative, and interrupts are off
  while it is positive.\<close>

definition this_cpu :: "hart \<Rightarrow> nat" where
  "this_cpu s = the (find_slot (\<lambda>c. apicid c = lapicid s) (cpus s))"

definition cpu_ok :: "hart \<Rightarrow> bool" where
  "cpu_ok s \<longleftrightarrow> (case find_slot (\<lambda>c. apicid c = lapicid s) (cpus s) of None \<Rightarrow> False
     | Some i \<Rightarrow> 0 \<le> ncli (cpus s ! i) \<and> (0 < ncli (cpus s ! i) \<longrightarrow> \<not> eflags_if s))"

definition lock_free :: "lockid \<Rightarrow> hart \<Rightarrow> bool" where
  "lock_free lk s \<longleftrightarrow> locked (locks s lk) = 0 \<and> lcpu (locks s lk) = None"

definition lock_held :: "lockid \<Rightarrow> hart \<Rightarrow> bool" where
  "lock_held lk s \<longleftrightarrow> locked (locks s lk) \<noteq> 0 \<and> lcpu (locks s lk) = Some (this_cpu s)"

text \<open>The nesting depth of the executing CPU.\<close>

definition depth :: "hart \<Rightarrow> int" where
  "depth s = ncli (cpus s ! this_cpu s)"

text \<open>The effect of \<^verbatim>\<open>pushcli\<close> and \<^verbatim>\<open>popcli\<close>, of a whole \<^verbatim>\<open>acquire\<close> and \<^verbatim>\<open>release\<close>, and what is left of
  a balanced pair: the saved interrupt flag of a CPU at depth 0.\<close>

definition pushed :: "hart \<Rightarrow> hart" where
  "pushed s = s\<lparr>eflags_if := False,
     cpus := upd_slot (this_cpu s)
       (\<lambda>c. c\<lparr>intena := (if ncli c = 0 then eflags_if s else intena c), ncli := ncli c + 1\<rparr>) (cpus s)\<rparr>"

definition popped :: "hart \<Rightarrow> hart" where
  "popped s = s\<lparr>eflags_if := (depth s = 1 \<and> intena (cpus s ! this_cpu s)),
     cpus := upd_slot (this_cpu s) (\<lambda>c. c\<lparr>ncli := ncli c - 1\<rparr>) (cpus s)\<rparr>"

definition settle :: "hart \<Rightarrow> hart" where
  "settle s = s\<lparr>cpus := upd_slot (this_cpu s)
     (\<lambda>c. c\<lparr>intena := (if ncli c = 0 then eflags_if s else intena c)\<rparr>) (cpus s)\<rparr>"

definition enter :: "lockid \<Rightarrow> hart \<Rightarrow> hart" where
  "enter lk s = (pushed s)\<lparr>locks := (locks s)(lk := (locks s lk)\<lparr>locked := 1, lcpu := Some (this_cpu s)\<rparr>)\<rparr>"

definition leave :: "lockid \<Rightarrow> hart \<Rightarrow> hart" where
  "leave lk s = (popped s)\<lparr>locks := (locks s)(lk := (locks s lk)\<lparr>lcpu := None, locked := 0\<rparr>)\<rparr>"

section \<open>Executing the operations\<close>

lemma cpu_ok_iff:
  "cpu_ok s \<longleftrightarrow> (\<exists>i. find_slot (\<lambda>c. apicid c = lapicid s) (cpus s) = Some i \<and>
     0 \<le> ncli (cpus s ! i) \<and> (0 < ncli (cpus s ! i) \<longrightarrow> \<not> eflags_if s))"
  by (auto simp: cpu_ok_def split: option.splits)

lemma cpu_okD:
  assumes "cpu_ok s"
  shows "find_slot (\<lambda>c. apicid c = lapicid s) (cpus s) = Some (this_cpu s)"
    and "this_cpu s < length (cpus s)" and "0 \<le> depth s" and "0 < depth s \<Longrightarrow> \<not> eflags_if s"
  using assms
  by (auto simp: cpu_ok_iff this_cpu_def depth_def split: option.splits dest: find_slot_SomeD)

lemma pushed_frame [simp]:
  "this_cpu (pushed s) = this_cpu s" "lapicid (pushed s) = lapicid s" "locks (pushed s) = locks s"
  "\<not> eflags_if (pushed s)" "lock_free l (pushed s) = lock_free l s"
  "lock_held l (pushed s) = lock_held l s"
  by (simp_all add: pushed_def this_cpu_def lock_free_def lock_held_def)

lemma popped_frame [simp]:
  "this_cpu (popped s) = this_cpu s" "lapicid (popped s) = lapicid s" "locks (popped s) = locks s"
  "lock_free l (popped s) = lock_free l s" "lock_held l (popped s) = lock_held l s"
  by (simp_all add: popped_def this_cpu_def lock_free_def lock_held_def)

lemma settle_frame [simp]:
  "this_cpu (settle s) = this_cpu s" "lapicid (settle s) = lapicid s" "locks (settle s) = locks s"
  "eflags_if (settle s) = eflags_if s" "lock_free l (settle s) = lock_free l s"
  "lock_held l (settle s) = lock_held l s"
  by (simp_all add: settle_def this_cpu_def lock_free_def lock_held_def)

lemma depth_pushed [simp]: "cpu_ok s \<Longrightarrow> depth (pushed s) = depth s + 1"
  using cpu_okD(2) [of s] by (simp add: depth_def) (simp add: pushed_def)

lemma depth_settle [simp]: "cpu_ok s \<Longrightarrow> depth (settle s) = depth s"
  using cpu_okD(2) [of s] by (simp add: depth_def) (simp add: settle_def)

lemma cpu_ok_pushed [simp]:
  assumes "cpu_ok s"
  shows "cpu_ok (pushed s)"
  using cpu_okD(1-3) [OF assms] by (simp add: cpu_ok_iff depth_def pushed_def)

lemma cpu_ok_settle [simp]:
  assumes "cpu_ok s"
  shows "cpu_ok (settle s)"
  using cpu_okD [OF assms] by (simp add: cpu_ok_iff depth_def settle_def)

lemma mycpu_run [run_simps]:
  "cpu_ok (hw s) \<Longrightarrow> \<not> eflags_if (hw s) \<Longrightarrow> mycpu s = Done (this_cpu (hw s)) s"
  by (simp add: mycpu_def readeflags_if_def cpu_okD)

lemma pushcli_run [run_simps]:
  assumes "cpu_ok (hw s)"
  shows "pushcli s = Done () (s\<lparr>hw := pushed (hw s)\<rparr>)"
proof -
  let ?h = "(hw s)\<lparr>eflags_if := False\<rparr>"
  have i: "this_cpu (hw s) < length (cpus (hw s))" using assms by (rule cpu_okD)
  have "cpu_ok ?h" "this_cpu ?h = this_cpu (hw s)"
    using assms by (auto simp: cpu_ok_iff this_cpu_def)
  then have "mycpu (s\<lparr>hw := ?h\<rparr>) = Done (this_cpu (hw s)) (s\<lparr>hw := ?h\<rparr>)"
    by (simp add: mycpu_run)
  moreover have "?h\<lparr>cpus := (if ncli (cpus (hw s) ! this_cpu (hw s)) = 0
        then upd_slot (this_cpu (hw s)) (ncli_update (\<lambda>k. k + 1) \<circ> intena_update (\<lambda>_. eflags_if (hw s))) (cpus (hw s))
        else upd_slot (this_cpu (hw s)) (ncli_update (\<lambda>k. k + 1)) (cpus (hw s)))\<rparr> = pushed (hw s)"
    using i by (auto simp: pushed_def intro!: hart.equality upd_slot_cong)
  ultimately show ?thesis
    by (auto simp: pushcli_def readeflags_if_def cli_def mod_cpu_def whenK_def split: if_splits)
qed

lemma popcli_run [run_simps]:
  assumes "cpu_ok (hw s)" and "0 < depth (hw s)"
  shows "popcli s = Done () (s\<lparr>hw := popped (hw s)\<rparr>)"
proof -
  note i = cpu_okD(2) [OF assms(1)] and off = cpu_okD(4) [OF assms]
  let ?c = "cpus (hw s) ! this_cpu (hw s)"
  let ?cs = "upd_slot (this_cpu (hw s)) (ncli_update (\<lambda>k. k - 1)) (cpus (hw s))"
  have "ncli ?c = 1 \<and> intena ?c \<Longrightarrow> (hw s)\<lparr>cpus := ?cs, eflags_if := True\<rparr> = popped (hw s)"
    by (auto simp: popped_def depth_def intro!: hart.equality upd_slot_cong)
  moreover have "\<not> (ncli ?c = 1 \<and> intena ?c) \<Longrightarrow> (hw s)\<lparr>cpus := ?cs\<rparr> = popped (hw s)"
    using off by (auto simp: popped_def depth_def intro!: hart.equality upd_slot_cong)
  ultimately show ?thesis using i off assms
    by (auto simp: popcli_def readeflags_if_def mycpu_run mod_cpu_def whenK_def sti_def depth_def)
qed

lemma popped_pushed:
  assumes ok: "cpu_ok s"
  shows "popped (pushed s) = settle s"
proof -
  note i = cpu_okD(2) [OF ok] and d = cpu_okD(4) [OF ok] and n = cpu_okD(3) [OF ok]
  have "depth s = 0 \<or> \<not> eflags_if s" using d n by linarith
  then have e: "eflags_if (popped (pushed s)) = eflags_if s"
    using i ok by (auto simp: popped_def) (auto simp: pushed_def depth_def)
  have c: "cpus (popped (pushed s)) = cpus (settle s)"
    by (simp add: popped_def) (auto simp: pushed_def settle_def intro!: upd_slot_cong)
  show ?thesis
    by (rule hart.equality) (use e c in \<open>simp_all add: popped_def pushed_def settle_def\<close>)
qed

lemma settle_deep [simp]: "cpu_ok s \<Longrightarrow> 0 < depth s \<Longrightarrow> settle s = s"
  by (simp add: settle_def depth_def upd_slot_same)

lemma settle_settle [simp]: "settle (settle s) = settle s"
proof -
  have "upd_slot (this_cpu s) (\<lambda>c. c\<lparr>intena := if ncli c = 0 then eflags_if s else intena c\<rparr>) (cpus (settle s))
      = cpus (settle s)"
    by (simp add: settle_def) (rule upd_slot_cong, simp)
  then have "(settle s)\<lparr>cpus := upd_slot (this_cpu s)
      (\<lambda>c. c\<lparr>intena := if ncli c = 0 then eflags_if s else intena c\<rparr>) (cpus (settle s))\<rparr> = settle s"
    by simp
  then show ?thesis by (simp only: settle_def [of "settle s"] settle_frame)
qed

lemma holding_run [run_simps]:
  "cpu_ok (hw s) \<Longrightarrow> holding lk s = Done (lock_held lk (hw s)) (s\<lparr>hw := settle (hw s)\<rparr>)"
  using cpu_okD(3) [of "hw s"]
  by (simp add: holding_def run_simps popped_pushed lock_held_def [of lk "hw s"])

lemma enter_frame [simp]:
  "this_cpu (enter lk s) = this_cpu s" "lapicid (enter lk s) = lapicid s" "\<not> eflags_if (enter lk s)"
  by (simp_all add: enter_def this_cpu_def pushed_def)

lemma depth_enter [simp]: "cpu_ok s \<Longrightarrow> depth (enter lk s) = depth s + 1"
  using depth_pushed [of s] by (simp add: depth_def) (simp add: enter_def)

lemma cpu_ok_enter [simp]: "cpu_ok s \<Longrightarrow> cpu_ok (enter lk s)"
  using cpu_ok_pushed [of s] by (simp add: cpu_ok_iff enter_def)

lemma lock_held_enter [simp]: "lock_held l (enter lk s) \<longleftrightarrow> l = lk \<or> lock_held l s"
  by (simp add: lock_held_def) (simp add: enter_def)

lemma lock_free_enter [simp]: "lock_free l (enter lk s) \<longleftrightarrow> l \<noteq> lk \<and> lock_free l s"
  by (simp add: lock_free_def enter_def)

lemma lock_free_not_held: "lock_free l s \<Longrightarrow> \<not> lock_held l s"
  by (simp add: lock_free_def lock_held_def)

lemma acquire_run [run_simps]:
  assumes "cpu_ok (hw s)" and "lock_free lk (hw s)"
  shows "acquire lk s = Done () (s\<lparr>hw := enter lk (hw s)\<rparr>)"
proof -
  have h: "holding lk (s\<lparr>hw := pushed (hw s)\<rparr>) = Done False (s\<lparr>hw := pushed (hw s)\<rparr>)"
    using assms cpu_okD(3) [OF assms(1)]
    by (simp add: holding_run lock_free_not_held)
  let ?t = "(pushed (hw s))\<lparr>locks := (locks (hw s))(lk := (locks (hw s) lk)\<lparr>locked := 1\<rparr>)\<rparr>"
  have "cpu_ok ?t" "\<not> eflags_if ?t" "this_cpu ?t = this_cpu (hw s)"
    using cpu_ok_pushed [OF assms(1)] by (simp_all add: cpu_ok_iff this_cpu_def pushed_def)
  then have "mycpu (s\<lparr>hw := ?t\<rparr>) = Done (this_cpu (hw s)) (s\<lparr>hw := ?t\<rparr>)" by (simp add: mycpu_run)
  with h show ?thesis using assms
    by (simp add: acquire_def pushcli_run xchg_locked_def mod_lock_def lock_free_def enter_def)
qed

text \<open>Acquiring a lock this CPU already holds panics; one that another CPU holds is waited for.\<close>

lemma acquire_held:
  assumes "cpu_ok (hw s)" and "lock_held lk (hw s)"
  shows "acquire lk s = Panics ''acquire''"
  using assms cpu_okD(3) [OF assms(1)] by (simp add: acquire_def run_simps)

lemma acquire_busy:
  assumes "cpu_ok (hw s)" and "locked (locks (hw s) lk) \<noteq> 0" and "\<not> lock_held lk (hw s)"
  shows "\<exists>t. acquire lk s = Spins t"
  using assms cpu_okD(3) [OF assms(1)]
  by (simp add: acquire_def run_simps xchg_locked_def mod_lock_def)

lemma release_run [run_simps]:
  assumes "cpu_ok (hw s)" and "lock_held lk (hw s)" and "0 < depth (hw s)"
  shows "release lk s = Done () (s\<lparr>hw := leave lk (hw s)\<rparr>)"
proof -
  let ?t = "(hw s)\<lparr>locks := (locks (hw s))(lk := (locks (hw s) lk)\<lparr>lcpu := None, locked := 0\<rparr>)\<rparr>"
  have "cpu_ok ?t" "depth ?t = depth (hw s)"
    using assms(1) by (simp_all add: cpu_ok_iff depth_def this_cpu_def)
  then have "popcli (s\<lparr>hw := ?t\<rparr>) = Done () (s\<lparr>hw := popped ?t\<rparr>)" using assms(3) by (simp add: popcli_run)
  moreover have "popped ?t = leave lk (hw s)"
    by (simp add: leave_def popped_def depth_def this_cpu_def)
  ultimately show ?thesis
    using assms by (simp add: release_def holding_run mod_lock_def)
qed

lemma release_not_held:
  assumes "cpu_ok (hw s)" and "\<not> lock_held lk (hw s)"
  shows "release lk s = Panics ''release''"
  using assms by (simp add: release_def holding_run)

lemma leave_frame [simp]:
  "this_cpu (leave lk s) = this_cpu s" "lapicid (leave lk s) = lapicid s"
  by (simp_all add: leave_def this_cpu_def popped_def)

lemma lock_free_leave [simp]: "lock_free l (leave lk s) \<longleftrightarrow> l = lk \<or> lock_free l s"
  by (simp add: lock_free_def leave_def)

lemma lock_held_leave [simp]: "lock_held l (leave lk s) \<longleftrightarrow> l \<noteq> lk \<and> lock_held l s"
  by (simp add: lock_held_def) (simp add: leave_def)

lemma cpu_ok_leave [simp]:
  assumes "cpu_ok s" and "0 < depth s"
  shows "cpu_ok (leave lk s)"
  using assms cpu_okD(1,2) [OF assms(1)]
  by (simp add: cpu_ok_iff leave_def popped_def depth_def)

lemma depth_leave [simp]:
  assumes "cpu_ok s"
  shows "depth (leave lk s) = depth s - 1"
  using cpu_okD(2) [OF assms] by (simp add: depth_def) (simp add: leave_def popped_def)

lemma popped_locks: "popped (s\<lparr>locks := l\<rparr>) = (popped s)\<lparr>locks := l\<rparr>"
  by (simp add: popped_def depth_def this_cpu_def)

lemma leave_enter [simp]:
  assumes "cpu_ok s" and "lock_free lk s"
  shows "leave lk (enter lk s) = settle s"
proof -
  have "(locks (enter lk s))(lk := (locks (enter lk s) lk)\<lparr>lcpu := None, locked := 0\<rparr>) = locks s"
    using assms(2) by (auto simp: enter_def lock_free_def)
  moreover have "popped (enter lk s) = (settle s)\<lparr>locks := locks (enter lk s)\<rparr>"
    by (simp add: enter_def popped_locks popped_pushed [OF assms(1)])
  ultimately show ?thesis by (simp add: leave_def)
qed

section \<open>The lock interface\<close>

text \<open>
  What a client of a lock relies on: in a state where the lock may be used, a free lock can be
  taken and is then held, a held lock can be given back and is then free, and a lock that is
  held cannot be taken again.
\<close>

locale mutex =
  fixes ready :: "'s \<Rightarrow> bool" and avail :: "'s \<Rightarrow> bool" and held :: "'s \<Rightarrow> bool"
    and acq :: "('s, unit) kmon" and rel :: "('s, unit) kmon"
  assumes acq_avail: "ready s \<Longrightarrow> avail s \<Longrightarrow> \<exists>t. acq s = Done () t \<and> ready t \<and> held t"
    and acq_held: "ready s \<Longrightarrow> held s \<Longrightarrow> acq s \<noteq> Done () t"
    and rel_held: "ready s \<Longrightarrow> held s \<Longrightarrow> \<exists>t. rel s = Done () t \<and> ready t \<and> avail t"
begin

lemma held_not_avail: "ready s \<Longrightarrow> held s \<Longrightarrow> \<not> avail s"
  using acq_avail acq_held by blast

lemma bracket_total: "totalK (\<lambda>s. ready s \<and> avail s) (thenK acq rel) (\<lambda>_ t. ready t \<and> avail t)"
  unfolding totalK_def
proof (intro allI impI)
  fix s assume "ready s \<and> avail s"
  then obtain t where t: "acq s = Done () t" "ready t" "held t" using acq_avail by blast
  then obtain u where "rel t = Done () u" "ready u" "avail u" using rel_held by blast
  with t show "\<exists>x u. thenK acq rel s = Done x u \<and> ready u \<and> avail u" by auto
qed

text \<open>A critical section: a body that returns and keeps the lock held, between the two calls,
  returns its own value and leaves the lock free.\<close>

lemma critical_section:
  assumes body: "\<And>t. ready t \<Longrightarrow> held t \<Longrightarrow> \<exists>x u. body t = Done x u \<and> ready u \<and> held u"
    and s: "ready s" "avail s"
  shows "\<exists>x u. thenK acq (bindK body (\<lambda>x. thenK rel (returnK x))) s = Done x u \<and> ready u \<and> avail u"
proof -
  obtain t where t: "acq s = Done () t" "ready t" "held t" using s acq_avail by blast
  obtain x u where u: "body t = Done x u" "ready u" "held u" using body [OF t(2,3)] by blast
  obtain v where "rel u = Done () v" "ready v" "avail v" using u rel_held by blast
  with t u show ?thesis by auto
qed

text \<open>Taking the lock inside its own critical section never succeeds.\<close>

lemma no_reentry: "ready s \<Longrightarrow> avail s \<Longrightarrow> thenK acq acq s \<noteq> Done () t"
proof -
  assume "ready s" "avail s"
  then obtain u where "acq s = Done () u" "ready u" "held u" using acq_avail by blast
  then show ?thesis using acq_held [of u t] by simp
qed

end

text \<open>A lock whose release checks that the caller holds it.\<close>

locale checked_mutex = mutex +
  assumes rel_not_held: "ready s \<Longrightarrow> \<not> held s \<Longrightarrow> \<exists>e. rel s = Panics e"
begin

lemma double_release: "ready s \<Longrightarrow> held s \<Longrightarrow> \<exists>e. thenK rel rel s = Panics e"
proof -
  assume s: "ready s" "held s"
  then obtain t where t: "rel s = Done () t" "ready t" "avail t" using rel_held by blast
  then have "\<not> held t" using held_not_avail by blast
  then show ?thesis using t rel_not_held [of t] by auto
qed

end

text \<open>Spin locks: a state is ready when the CPU is well-formed and the depth counts a held lock.\<close>

definition spin_ready :: "lockid \<Rightarrow> 'z kcpu_scheme \<Rightarrow> bool" where
  "spin_ready lk s \<longleftrightarrow> cpu_ok (hw s) \<and> (lock_held lk (hw s) \<longrightarrow> 0 < depth (hw s))"

interpretation spin: checked_mutex "spin_ready lk" "\<lambda>s. lock_free lk (hw s)" "\<lambda>s. lock_held lk (hw s)"
  "acquire lk" "release lk" for lk
proof
  fix s t :: "'z kcpu_scheme"
  show "spin_ready lk s \<Longrightarrow> lock_free lk (hw s) \<Longrightarrow>
      \<exists>t. acquire lk s = Done () t \<and> spin_ready lk t \<and> lock_held lk (hw t)"
    using cpu_okD(3) [of "hw s"] by (simp add: spin_ready_def run_simps)
  show "spin_ready lk s \<Longrightarrow> lock_held lk (hw s) \<Longrightarrow> acquire lk s \<noteq> Done () t"
    by (simp add: spin_ready_def acquire_held)
  show "spin_ready lk s \<Longrightarrow> lock_held lk (hw s) \<Longrightarrow>
      \<exists>t. release lk s = Done () t \<and> spin_ready lk t \<and> lock_free lk (hw t)"
    by (simp add: spin_ready_def run_simps)
  show "spin_ready lk s \<Longrightarrow> \<not> lock_held lk (hw s) \<Longrightarrow> \<exists>e. release lk s = Panics e"
    by (simp add: spin_ready_def release_not_held)
qed

section \<open>A machine with one CPU\<close>

text \<open>A concrete machine: one CPU, running process 0 with interrupts on, and every lock free.\<close>

definition cpu0 :: cpu where
  "cpu0 = \<lparr>apicid = 0, ts = \<lparr>esp0 = 0, ss0 = 0, iomb = 0\<rparr>, gdt = [], started = True, ncli = 0,
     intena = True, cproc = Some 0\<rparr>"

definition hart0 :: hart where
  "hart0 = \<lparr>eflags_if = True, lapicid = 0, cpus = [cpu0], locks = (\<lambda>_. \<lparr>locked = 0, lname = '''', lcpu = None\<rparr>)\<rparr>"

lemma hart0_simps [simp]:
  "cpu_ok hart0" "depth hart0 = 0" "lock_free l hart0" "this_cpu hart0 = 0" "cproc (cpus hart0 ! 0) = Some 0"
  by (simp_all add: cpu_ok_def depth_def lock_free_def this_cpu_def hart0_def cpu0_def)

end
