(* ===== verification/Xv6_Proc.thy ===== *)
theory Xv6_Proc
  imports Xv6_Spinlock
begin

text \<open>
  The process table and the scheduling primitives of \<^verbatim>\<open>proc.c\<close>: \<^verbatim>\<open>myproc\<close>, \<^verbatim>\<open>sched\<close>, \<^verbatim>\<open>yield\<close>,
  \<^verbatim>\<open>sleep\<close>, \<^verbatim>\<open>wakeup\<close> and \<^verbatim>\<open>kill\<close>. A call of \<^verbatim>\<open>sched\<close> switches to the scheduler, so the routine that
  makes it ends with the outcome \<open>Sleeps\<close>, which carries the state the scheduler resumes from; what
  the routine does when it is scheduled again is a definition of its own (\<open>sched_resume\<close>,
  \<open>sleep_resume\<close>, \<open>yield_resume\<close>), which takes the \<^verbatim>\<open>intena\<close> flag that \<^verbatim>\<open>sched\<close> kept on the stack. Creation and end of processes are in \<open>Xv6_Process\<close>.
\<close>

section \<open>Data\<close>

datatype procstate = UNUSED | EMBRYO | SLEEPING | RUNNABLE | RUNNING | ZOMBIE

text \<open>Sleep channels: the kernel uses the address of an object of its own as a channel.\<close>

datatype chan = ProcChan nat | BufChan nat | LogChan | SleepLockChan sleeplockid
  | PipeReadChan u32 | PipeWriteChan u32 | TicksChan | InputChan

record trapframe =
  tf_edi :: u32
  tf_esi :: u32
  tf_ebp :: u32
  tf_oesp :: u32
  tf_ebx :: u32
  tf_edx :: u32
  tf_ecx :: u32
  tf_eax :: u32
  tf_gs :: u16
  tf_fs :: u16
  tf_es :: u16
  tf_ds :: u16
  tf_trapno :: u32
  tf_err :: u32
  tf_eip :: u32
  tf_cs :: u16
  tf_eflags :: u32
  tf_esp :: u32
  tf_ss :: u16

text \<open>Where a saved kernel context resumes: a new process at \<^verbatim>\<open>forkret\<close>, any other inside \<^verbatim>\<open>sched\<close>.\<close>

datatype resume_pc = At_forkret | In_sched

text \<open>Pointers to processes, open files and inodes are indices of their tables; 0 is \<open>None\<close>. The
  trap frame, which lies at the top of the process's kernel stack, is kept as a value; \<open>None\<close> is a
  frame whose bytes have not been written yet.\<close>

record proc =
  sz :: u32
  pgdir :: u32
  kstack :: u32
  state :: procstate
  pid :: u32
  parent :: "nat option"
  tf :: "trapframe option"
  ctxt :: "resume_pc option"
  chan :: "chan option"
  killed :: bool
  ofile :: "nat option list"
  cwd :: "nat option"
  pname :: string
  exit_status :: u32

record kproc = kcpu +
  ptable :: "proc list"
  initproc :: "nat option"
  nextpid :: u32

definition mod_proc :: "nat \<Rightarrow> (proc \<Rightarrow> proc) \<Rightarrow> ('z kproc_scheme, unit) kmon" where
  "mod_proc i f = modK (\<lambda>s. s\<lparr>ptable := upd_slot i f (ptable s)\<rparr>)"

section \<open>Operations\<close>

definition pinit :: "('z kproc_scheme, unit) kmon" where
  "pinit = initlock PtableLock ''ptable''"

definition cpuid :: "('z kproc_scheme, nat) kmon" where
  "cpuid = mycpu"

definition myproc :: "('z kproc_scheme, nat option) kmon" where
  "myproc =
     thenK pushcli (
     bindK mycpu (\<lambda>c.
     bindK (getH (\<lambda>h. cproc (cpus h ! c))) (\<lambda>p.
     thenK popcli (returnK p))))"

text \<open>Dereferencing \<^verbatim>\<open>myproc()\<close> where no process runs is a fault in kernel mode, on which \<^verbatim>\<open>trap\<close>
  panics.\<close>

definition curproc :: "('z kproc_scheme, nat) kmon" where
  "curproc = bindK myproc (\<lambda>r. case r of Some p \<Rightarrow> returnK p | None \<Rightarrow> panicK ''trap'')"

definition sched :: "('z kproc_scheme, 'a) kmon" where
  "sched =
     bindK curproc (\<lambda>p.
     bindK (holding PtableLock) (\<lambda>h.
     if \<not> h then panicK ''sched ptable.lock'' else
     bindK mycpu (\<lambda>c.
     bindK (getH (\<lambda>h. ncli (cpus h ! c))) (\<lambda>n.
     if n \<noteq> 1 then panicK ''sched locks'' else
     bindK (getK (\<lambda>s. state (ptable s ! p))) (\<lambda>st.
     if st = RUNNING then panicK ''sched running'' else
     bindK readeflags_if (\<lambda>fl_if.
     if fl_if then panicK ''sched interruptible'' else
     thenK (mod_proc p (ctxt_update (\<lambda>_. Some In_sched)))
     (\<lambda>s. Sleeps s)))))))"

text \<open>The rest of \<^verbatim>\<open>sched\<close>, after the scheduler has switched back.\<close>

definition sched_resume :: "bool \<Rightarrow> ('z kproc_scheme, unit) kmon" where
  "sched_resume i = bindK mycpu (\<lambda>c. mod_cpu c (intena_update (\<lambda>_. i)))"

definition yield :: "('z kproc_scheme, unit) kmon" where
  "yield =
     thenK (acquire PtableLock) (
     bindK curproc (\<lambda>p.
     thenK (mod_proc p (state_update (\<lambda>_. RUNNABLE)))
     sched))"

definition yield_resume :: "bool \<Rightarrow> ('z kproc_scheme, unit) kmon" where
  "yield_resume i = thenK (sched_resume i) (release PtableLock)"

definition sleep :: "chan option \<Rightarrow> lockid option \<Rightarrow> ('z kproc_scheme, 'a) kmon" where
  "sleep ch lk =
     bindK myproc (\<lambda>r.
     case r of None \<Rightarrow> panicK ''sleep'' | Some p \<Rightarrow>
     (case lk of None \<Rightarrow> panicK ''sleep without lk'' | Some l \<Rightarrow>
     thenK (whenK (l \<noteq> PtableLock) (thenK (acquire PtableLock) (release l))) (
     thenK (mod_proc p (chan_update (\<lambda>_. ch))) (
     thenK (mod_proc p (state_update (\<lambda>_. SLEEPING)))
     sched))))"

text \<open>The rest of \<^verbatim>\<open>sleep\<close>, once the process runs again.\<close>

definition sleep_resume :: "nat \<Rightarrow> lockid \<Rightarrow> bool \<Rightarrow> ('z kproc_scheme, unit) kmon" where
  "sleep_resume p l i =
     thenK (sched_resume i) (
     thenK (mod_proc p (chan_update (\<lambda>_. None)))
     (whenK (l \<noteq> PtableLock) (thenK (release PtableLock) (acquire l))))"

definition wake :: "chan option \<Rightarrow> proc \<Rightarrow> proc" where
  "wake ch p = (if state p = SLEEPING \<and> chan p = ch then p\<lparr>state := RUNNABLE\<rparr> else p)"

definition wakeup1 :: "chan option \<Rightarrow> ('z kproc_scheme, unit) kmon" where
  "wakeup1 ch = modK (\<lambda>s. s\<lparr>ptable := map (wake ch) (ptable s)\<rparr>)"

definition wakeup :: "chan option \<Rightarrow> ('z kproc_scheme, unit) kmon" where
  "wakeup ch = thenK (acquire PtableLock) (thenK (wakeup1 ch) (release PtableLock))"

definition kill_proc :: "proc \<Rightarrow> proc" where
  "kill_proc p = (let q = p\<lparr>killed := True\<rparr>
                  in if state q = SLEEPING then q\<lparr>state := RUNNABLE\<rparr> else q)"

definition kill :: "u32 \<Rightarrow> ('z kproc_scheme, int) kmon" where
  "kill pd =
     thenK (acquire PtableLock) (
     bindK (getK (\<lambda>s. find_slot (\<lambda>p. pid p = pd) (ptable s))) (\<lambda>r.
     case r of
       Some i \<Rightarrow> thenK (mod_proc i kill_proc) (thenK (release PtableLock) (returnK 0))
     | None \<Rightarrow> thenK (release PtableLock) (returnK (-1))))"

section \<open>Executing the operations\<close>

definition cur_proc :: "hart \<Rightarrow> nat option" where
  "cur_proc h = cproc (cpus h ! this_cpu h)"

lemma cur_proc_frame [simp]:
  assumes "cpu_ok h"
  shows "cur_proc (pushed h) = cur_proc h" "cur_proc (enter l h) = cur_proc h"
    "cur_proc (leave l h) = cur_proc h" "cur_proc (settle h) = cur_proc h"
  using cpu_okD(2) [OF assms]
  by (simp_all add: cur_proc_def) (simp_all add: pushed_def popped_def settle_def enter_def leave_def)

lemma myproc_run [run_simps]:
  "cpu_ok (hw s) \<Longrightarrow> myproc s = Done (cur_proc (hw s)) (s\<lparr>hw := settle (hw s)\<rparr>)"
  using cpu_okD(3) [of "hw s"] cur_proc_frame(1) [of "hw s"]
  by (simp add: myproc_def run_simps popped_pushed cur_proc_def)

lemma curproc_run [run_simps]:
  "cpu_ok (hw s) \<Longrightarrow> cur_proc (hw s) = Some p \<Longrightarrow> curproc s = Done p (s\<lparr>hw := settle (hw s)\<rparr>)"
  by (simp add: curproc_def run_simps)

lemma curproc_none:
  "cpu_ok (hw s) \<Longrightarrow> cur_proc (hw s) = None \<Longrightarrow> curproc s = Panics ''trap''"
  by (simp add: curproc_def run_simps)

text \<open>The only way through \<^verbatim>\<open>sched\<close>: the table lock is the one lock held, interrupts are off and the
  process has left state RUNNING.\<close>

lemma sched_run [run_simps]:
  assumes "cpu_ok (hw s)" and "cur_proc (hw s) = Some p" and "lock_held PtableLock (hw s)"
    and "depth (hw s) = 1" and "state (ptable s ! p) \<noteq> RUNNING"
  shows "sched s = Sleeps (s\<lparr>ptable := upd_slot p (ctxt_update (\<lambda>_. Some In_sched)) (ptable s)\<rparr>)"
proof -
  have "\<not> eflags_if (hw s)" using assms by (simp add: cpu_okD)
  moreover have "ncli (cpus (hw s) ! this_cpu (hw s)) = 1" using assms(4) by (simp add: depth_def)
  ultimately show ?thesis
    using assms by (simp add: sched_def run_simps mod_proc_def readeflags_if_def)
qed

lemma sched_panics:
  assumes "cpu_ok (hw s)" and "cur_proc (hw s) = Some p" and "0 < depth (hw s)"
  shows "\<not> lock_held PtableLock (hw s) \<Longrightarrow> sched s = Panics ''sched ptable.lock''"
    and "lock_held PtableLock (hw s) \<Longrightarrow> depth (hw s) \<noteq> 1 \<Longrightarrow> sched s = Panics ''sched locks''"
    and "lock_held PtableLock (hw s) \<Longrightarrow> depth (hw s) = 1 \<Longrightarrow> state (ptable s ! p) = RUNNING \<Longrightarrow>
      sched s = Panics ''sched running''"
proof -
  have "\<not> eflags_if (hw s)" using assms by (simp add: cpu_okD)
  moreover have "ncli (cpus (hw s) ! this_cpu (hw s)) = depth (hw s)" by (simp add: depth_def)
  ultimately show "\<not> lock_held PtableLock (hw s) \<Longrightarrow> sched s = Panics ''sched ptable.lock''"
    and "lock_held PtableLock (hw s) \<Longrightarrow> depth (hw s) \<noteq> 1 \<Longrightarrow> sched s = Panics ''sched locks''"
    and "lock_held PtableLock (hw s) \<Longrightarrow> depth (hw s) = 1 \<Longrightarrow> state (ptable s ! p) = RUNNING \<Longrightarrow>
      sched s = Panics ''sched running''"
    using assms by (simp_all add: sched_def run_simps)
qed

lemma wakeup_run [run_simps]:
  assumes "cpu_ok (hw s)" and "lock_free PtableLock (hw s)"
  shows "wakeup ch s = Done () (s\<lparr>hw := settle (hw s), ptable := map (wake ch) (ptable s)\<rparr>)"
  using assms cpu_okD(3) [OF assms(1)] by (simp add: wakeup_def wakeup1_def run_simps)

definition asleep :: "chan option \<Rightarrow> proc \<Rightarrow> proc" where
  "asleep ch p = p\<lparr>chan := ch, state := SLEEPING, ctxt := Some In_sched\<rparr>"

lemma sleep_run [run_simps]:
  assumes "cpu_ok (hw s)" and "cur_proc (hw s) = Some p" and "p < length (ptable s)"
    and "l \<noteq> PtableLock" and "lock_held l (hw s)" and "lock_free PtableLock (hw s)"
    and "depth (hw s) = 1"
  shows "sleep ch (Some l) s
    = Sleeps (s\<lparr>hw := leave l (enter PtableLock (hw s)), ptable := upd_slot p (asleep ch) (ptable s)\<rparr>)"
proof -
  have "ctxt_update (\<lambda>_. Some In_sched) \<circ> (state_update (\<lambda>_. SLEEPING) \<circ> chan_update (\<lambda>_. ch)) = asleep ch"
    by (rule ext) (simp add: asleep_def)
  then show ?thesis
    using assms by (simp add: sleep_def run_simps mod_proc_def)
qed

lemma sleep_run_ptable:
  assumes "cpu_ok (hw s)" and "cur_proc (hw s) = Some p" and "p < length (ptable s)"
    and "lock_held PtableLock (hw s)" and "depth (hw s) = 1"
  shows "sleep ch (Some PtableLock) s = Sleeps (s\<lparr>ptable := upd_slot p (asleep ch) (ptable s)\<rparr>)"
proof -
  have "ctxt_update (\<lambda>_. Some In_sched) \<circ> (state_update (\<lambda>_. SLEEPING) \<circ> chan_update (\<lambda>_. ch)) = asleep ch"
    by (rule ext) (simp add: asleep_def)
  then show ?thesis
    using assms by (simp add: sleep_def run_simps mod_proc_def)
qed

lemma kill_run [run_simps]:
  assumes "cpu_ok (hw s)" and "lock_free PtableLock (hw s)"
  shows "kill pd s = (case find_slot (\<lambda>p. pid p = pd) (ptable s) of
      Some i \<Rightarrow> Done 0 (s\<lparr>hw := settle (hw s), ptable := upd_slot i kill_proc (ptable s)\<rparr>)
    | None \<Rightarrow> Done (-1) (s\<lparr>hw := settle (hw s)\<rparr>))"
  using assms cpu_okD(3) [OF assms(1)]
  by (simp add: kill_def run_simps mod_proc_def split: option.splits)

text \<open>No call of \<^verbatim>\<open>sched\<close> or \<^verbatim>\<open>sleep\<close> returns before the process is scheduled again.\<close>

lemma sched_not_Done: "sched s \<noteq> Done x t"
  by (auto simp: sched_def simp del: bindK_run thenK_run elim!: bindK_DoneE thenK_DoneE split: if_splits)

lemma sleep_not_Done: "sleep ch l s \<noteq> Done x t"
  by (auto simp: sleep_def sched_not_Done simp del: bindK_run thenK_run elim!: bindK_DoneE thenK_DoneE
      split: option.splits)

text \<open>A process runs system-call code on a well-formed CPU, outside every critical section, and the
  locks of the set \<open>L\<close> are free.\<close>

definition kready :: "lockid set \<Rightarrow> nat \<Rightarrow> 'z kproc_scheme \<Rightarrow> bool" where
  "kready L p s \<longleftrightarrow> cpu_ok (hw s) \<and> depth (hw s) = 0 \<and> cur_proc (hw s) = Some p \<and>
     p < length (ptable s) \<and> (\<forall>l\<in>L. lock_free l (hw s))"

lemma kreadyD:
  assumes "kready L p s"
  shows "cpu_ok (hw s)" "depth (hw s) = 0" "cur_proc (hw s) = Some p" "p < length (ptable s)"
    "l \<in> L \<Longrightarrow> lock_free l (hw s)"
  using assms by (simp_all add: kready_def)

lemma kready_mono: "kready L p s \<Longrightarrow> K \<subseteq> L \<Longrightarrow> kready K p s"
  by (auto simp: kready_def)

lemma kready_settled:
  assumes "kready L p s" and "hw t = settle (hw s)" and "length (ptable t) = length (ptable s)"
  shows "kready L p t"
  using assms by (simp add: kready_def)

text \<open>The same with every lock free, as a condition on the CPU state and the size of the process table
  alone; it does not notice a balanced use of locks.\<close>

definition hcalm :: "nat \<Rightarrow> hart \<Rightarrow> bool" where
  "hcalm n h \<longleftrightarrow> cpu_ok h \<and> depth h = 0 \<and> (\<exists>p. cur_proc h = Some p \<and> p < n) \<and> (\<forall>l. lock_free l h)"

lemma hart_settled:
  "cpu_ok (settle h) = cpu_ok h" "cur_proc (settle h) = cur_proc h" "depth (settle h) = depth h"
proof -
  have nth: "cpus (settle h) ! i = (if i = this_cpu h \<and> i < length (cpus h)
      then (cpus h ! i)\<lparr>intena := (if ncli (cpus h ! i) = 0 then eflags_if h else intena (cpus h ! i))\<rparr> else cpus h ! i)" for i
    by (cases "this_cpu h < length (cpus h)") (auto simp: settle_def upd_slot_def nth_list_update list_update_beyond)
  have "find_slot (\<lambda>c. apicid c = lapicid h) (cpus (settle h)) = find_slot (\<lambda>c. apicid c = lapicid h) (cpus h)"
    by (simp add: settle_def)
  then show "cpu_ok (settle h) = cpu_ok h" by (auto simp: cpu_ok_def nth split: option.splits)
  show "cur_proc (settle h) = cur_proc h" "depth (settle h) = depth h"
    by (simp_all add: cur_proc_def depth_def nth)
qed

lemma hcalm_settle [simp]: "hcalm n (settle h) = hcalm n h"
  by (simp add: hcalm_def hart_settled)

abbreviation calm :: "'z kproc_scheme \<Rightarrow> bool" where
  "calm s \<equiv> hcalm (length (ptable s)) (hw s)"

abbreviation me :: "'z kproc_scheme \<Rightarrow> nat" where
  "me s \<equiv> the (cur_proc (hw s))"

lemma calm_kready: "calm s \<Longrightarrow> kready L (me s) s"
  by (auto simp: hcalm_def kready_def)

lemma calmD:
  assumes "calm s"
  shows "cpu_ok (hw s)" "depth (hw s) = 0" "cur_proc (hw s) = Some (me s)" "me s < length (ptable s)" "lock_free l (hw s)"
  using assms by (auto simp: hcalm_def)

section \<open>Waking up\<close>

lemma wake_simps [simp]:
  "pid (wake ch p) = pid p" "parent (wake ch p) = parent p" "kstack (wake ch p) = kstack p"
  "pgdir (wake ch p) = pgdir p" "killed (wake ch p) = killed p" "ofile (wake ch p) = ofile p"
  "cwd (wake ch p) = cwd p" "sz (wake ch p) = sz p" "exit_status (wake ch p) = exit_status p"
  "tf (wake ch p) = tf p" "chan (wake ch p) = chan p" "pname (wake ch p) = pname p"
  by (simp_all add: wake_def)

lemma state_wake: "state (wake ch p) = (if state p = SLEEPING \<and> chan p = ch then RUNNABLE else state p)"
  by (simp add: wake_def)

lemma kill_proc_simps [simp]:
  "pid (kill_proc p) = pid p" "parent (kill_proc p) = parent p" "kstack (kill_proc p) = kstack p"
  "pgdir (kill_proc p) = pgdir p" "killed (kill_proc p)" "ofile (kill_proc p) = ofile p"
  "cwd (kill_proc p) = cwd p" "sz (kill_proc p) = sz p" "exit_status (kill_proc p) = exit_status p"
  by (simp_all add: kill_proc_def Let_def)

lemma state_kill_proc: "state (kill_proc p) = (if state p = SLEEPING then RUNNABLE else state p)"
  by (simp add: kill_proc_def Let_def)

lemma wake_idem [simp]: "wake ch (wake ch p) = wake ch p"
  by (simp add: wake_def)

section \<open>A concrete process\<close>

definition proc0 :: proc where
  "proc0 = \<lparr>sz = 4096, pgdir = 0x80300000, kstack = 0x80301000, state = RUNNING, pid = 1, parent = None,
     tf = None, ctxt = None, chan = None, killed = False, ofile = replicate 16 None, cwd = None,
     pname = ''init'', exit_status = 0\<rparr>"

lemma cur_proc_hart0 [simp]: "cur_proc hart0 = Some 0"
  by (simp add: cur_proc_def)

end
