(* ===== verification/Xv6_Sleeplock.thy ===== *)
theory Xv6_Sleeplock
  imports Xv6_Proc
begin

text \<open>
  Sleep locks (\<^verbatim>\<open>sleeplock.c\<close>): long-term locks held by a process, each protected by a spin lock of
  its own. Waiting for a held lock puts the process to sleep.
\<close>

section \<open>Data and operations\<close>

record sleeplock =
  sl_locked :: u32
  sl_name :: string
  sl_pid :: u32

record kslock = kproc +
  slocks :: "sleeplockid \<Rightarrow> sleeplock"

definition mod_slock :: "sleeplockid \<Rightarrow> (sleeplock \<Rightarrow> sleeplock) \<Rightarrow> ('z kslock_scheme, unit) kmon" where
  "mod_slock lk f = modK (\<lambda>s. s\<lparr>slocks := (slocks s)(lk := f (slocks s lk))\<rparr>)"

definition initsleeplock :: "sleeplockid \<Rightarrow> string \<Rightarrow> ('z kslock_scheme, unit) kmon" where
  "initsleeplock lk name =
     thenK (initlock (SleepSpin lk) ''sleep lock'')
           (mod_slock lk (\<lambda>_. \<lparr>sl_locked = 0, sl_name = name, sl_pid = 0\<rparr>))"

text \<open>The process's identifier, \<^verbatim>\<open>myproc()->pid\<close>.\<close>

definition mypid :: "('z kproc_scheme, u32) kmon" where
  "mypid = bindK curproc (\<lambda>p. getK (\<lambda>s. pid (ptable s ! p)))"

text \<open>The loop of \<^verbatim>\<open>acquiresleep\<close> and what follows it; a process that slept in the loop comes back to
  its start.\<close>

definition acquiresleep_loop :: "sleeplockid \<Rightarrow> ('z kslock_scheme, unit) kmon" where
  "acquiresleep_loop lk =
     bindK (getK (\<lambda>s. sl_locked (slocks s lk))) (\<lambda>w.
     if w \<noteq> 0 then sleep (Some (SleepLockChan lk)) (Some (SleepSpin lk)) else
     thenK (mod_slock lk (sl_locked_update (\<lambda>_. 1))) (
     bindK mypid (\<lambda>i.
     thenK (mod_slock lk (sl_pid_update (\<lambda>_. i)))
           (release (SleepSpin lk)))))"

definition acquiresleep :: "sleeplockid \<Rightarrow> ('z kslock_scheme, unit) kmon" where
  "acquiresleep lk = thenK (acquire (SleepSpin lk)) (acquiresleep_loop lk)"

definition acquiresleep_resume :: "nat \<Rightarrow> sleeplockid \<Rightarrow> bool \<Rightarrow> ('z kslock_scheme, unit) kmon" where
  "acquiresleep_resume p lk i = thenK (sleep_resume p (SleepSpin lk) i) (acquiresleep_loop lk)"

definition releasesleep :: "sleeplockid \<Rightarrow> ('z kslock_scheme, unit) kmon" where
  "releasesleep lk =
     thenK (acquire (SleepSpin lk)) (
     thenK (mod_slock lk (sl_locked_update (\<lambda>_. 0))) (
     thenK (mod_slock lk (sl_pid_update (\<lambda>_. 0))) (
     thenK (wakeup (Some (SleepLockChan lk)))
           (release (SleepSpin lk)))))"

definition holdingsleep :: "sleeplockid \<Rightarrow> ('z kslock_scheme, bool) kmon" where
  "holdingsleep lk =
     thenK (acquire (SleepSpin lk)) (
     bindK (getK (\<lambda>s. sl_locked (slocks s lk))) (\<lambda>w.
     bindK mypid (\<lambda>i.
     bindK (getK (\<lambda>s. w \<noteq> 0 \<and> sl_pid (slocks s lk) = i)) (\<lambda>r.
     thenK (release (SleepSpin lk)) (returnK r)))))"

section \<open>Executing the operations\<close>

definition sl_free :: "sleeplockid \<Rightarrow> 'z kslock_scheme \<Rightarrow> bool" where
  "sl_free lk s \<longleftrightarrow> sl_locked (slocks s lk) = 0"

definition sl_held :: "sleeplockid \<Rightarrow> nat \<Rightarrow> 'z kslock_scheme \<Rightarrow> bool" where
  "sl_held lk p s \<longleftrightarrow> sl_locked (slocks s lk) \<noteq> 0 \<and> sl_pid (slocks s lk) = pid (ptable s ! p)"

lemma mypid_run [run_simps]:
  "cpu_ok (hw s) \<Longrightarrow> cur_proc (hw s) = Some p \<Longrightarrow>
     mypid s = Done (pid (ptable s ! p)) (s\<lparr>hw := settle (hw s)\<rparr>)"
  by (simp add: mypid_def run_simps)

definition sl_taken :: "u32 \<Rightarrow> sleeplock \<Rightarrow> sleeplock" where
  "sl_taken i k = k\<lparr>sl_locked := 1, sl_pid := i\<rparr>"

definition sl_given :: "sleeplock \<Rightarrow> sleeplock" where
  "sl_given k = k\<lparr>sl_locked := 0, sl_pid := 0\<rparr>"

lemma acquiresleep_run [run_simps]:
  assumes "kready L p s" and "SleepSpin lk \<in> L" and "sl_free lk s"
  shows "acquiresleep lk s = Done () (s\<lparr>hw := settle (hw s),
    slocks := (slocks s)(lk := sl_taken (pid (ptable s ! p)) (slocks s lk))\<rparr>)"
  using kreadyD [OF assms(1)] kreadyD(5) [OF assms(1,2)] assms(3)
  by (simp add: acquiresleep_def acquiresleep_loop_def run_simps sl_free_def mod_slock_def sl_taken_def)

text \<open>A lock that is taken is waited for: the process is asleep on the lock's channel, and the spin
  lock that protects the sleep lock is free again.\<close>

lemma acquiresleep_waits:
  assumes "kready L p s" and "SleepSpin lk \<in> L" and "PtableLock \<in> L" and "\<not> sl_free lk s"
  shows "acquiresleep lk s = Sleeps (s\<lparr>hw := leave (SleepSpin lk) (enter PtableLock (enter (SleepSpin lk) (hw s))),
    ptable := upd_slot p (asleep (Some (SleepLockChan lk))) (ptable s)\<rparr>)"
  using kreadyD [OF assms(1)] kreadyD(5) [OF assms(1,2)] kreadyD(5) [OF assms(1,3)] assms(4)
  by (simp add: acquiresleep_def acquiresleep_loop_def run_simps sl_free_def)

lemma releasesleep_run [run_simps]:
  assumes "kready L p s" and "SleepSpin lk \<in> L" and "PtableLock \<in> L"
  shows "releasesleep lk s = Done () (s\<lparr>hw := settle (hw s),
    ptable := map (wake (Some (SleepLockChan lk))) (ptable s),
    slocks := (slocks s)(lk := sl_given (slocks s lk))\<rparr>)"
  using kreadyD [OF assms(1)] kreadyD(5) [OF assms(1,2)] kreadyD(5) [OF assms(1,3)]
  by (simp add: releasesleep_def run_simps mod_slock_def sl_given_def)

lemma holdingsleep_run [run_simps]:
  assumes "kready L p s" and "SleepSpin lk \<in> L"
  shows "holdingsleep lk s = Done (sl_held lk p s) (s\<lparr>hw := settle (hw s)\<rparr>)"
  using kreadyD [OF assms(1)] kreadyD(5) [OF assms(1,2)]
  by (simp add: holdingsleep_def run_simps sl_held_def)

section \<open>Sleep locks are locks\<close>

definition slock_ready :: "sleeplockid \<Rightarrow> nat \<Rightarrow> 'z kslock_scheme \<Rightarrow> bool" where
  "slock_ready lk p s \<longleftrightarrow> kready {SleepSpin lk, PtableLock} p s"

lemma slock_ready_settled:
  "slock_ready lk p s \<Longrightarrow> hw t = settle (hw s) \<Longrightarrow> length (ptable t) = length (ptable s) \<Longrightarrow> slock_ready lk p t"
  unfolding slock_ready_def by (rule kready_settled)

interpretation slp: mutex "slock_ready lk p" "sl_free lk" "sl_held lk p" "acquiresleep lk" "releasesleep lk"
  for lk p
proof
  fix s t :: "'z kslock_scheme"
  assume r: "slock_ready lk p s"
  note k = r [unfolded slock_ready_def]
  show "\<exists>t. acquiresleep lk s = Done () t \<and> slock_ready lk p t \<and> sl_held lk p t" if "sl_free lk s"
    using acquiresleep_run [OF k _ that]
    by (auto simp: sl_held_def sl_taken_def intro!: slock_ready_settled [OF r])
  show "acquiresleep lk s \<noteq> Done () t" if "sl_held lk p s"
    using that acquiresleep_waits [OF k, of lk] by (simp add: sl_free_def sl_held_def)
  show "\<exists>t. releasesleep lk s = Done () t \<and> slock_ready lk p t \<and> sl_free lk t" if "sl_held lk p s"
    using releasesleep_run [OF k, of lk]
    by (auto simp: sl_free_def sl_given_def intro!: slock_ready_settled [OF r])
qed

section \<open>Sleep locks when no spin lock is held\<close>

lemma acquiresleep_calm [run_simps]:
  "calm s \<Longrightarrow> sl_locked (slocks s lk) = 0 \<Longrightarrow> acquiresleep lk s = Done () (s\<lparr>hw := settle (hw s),
     slocks := (slocks s)(lk := sl_taken (pid (ptable s ! me s)) (slocks s lk))\<rparr>)"
  by (intro acquiresleep_run [of UNIV] calm_kready) (simp_all add: sl_free_def)

lemma releasesleep_calm [run_simps]:
  "calm s \<Longrightarrow> releasesleep lk s = Done () (s\<lparr>hw := settle (hw s),
     ptable := map (wake (Some (SleepLockChan lk))) (ptable s), slocks := (slocks s)(lk := sl_given (slocks s lk))\<rparr>)"
  by (intro releasesleep_run [of UNIV "me s"] calm_kready) simp_all

lemma holdingsleep_calm [run_simps]:
  "calm s \<Longrightarrow> holdingsleep lk s = Done (sl_held lk (me s) s) (s\<lparr>hw := settle (hw s)\<rparr>)"
  by (intro holdingsleep_run [of UNIV] calm_kready) simp_all

end
