(* ===== verification/Xv6_Kalloc.thy ===== *)
theory Xv6_Kalloc
  imports Xv6_Sleeplock Xv6_String
begin

text \<open>
  The physical page allocator (\<^verbatim>\<open>kalloc.c\<close>). The free list is threaded through the free pages
  themselves, so it is modelled in the byte memory: the first word of a free page is the address of
  the next one. \<open>kend\<close> and \<open>kdata\<close> are the addresses \<^verbatim>\<open>end\<close> and \<^verbatim>\<open>data\<close> that the linker gives. \<^verbatim>\<open>freemem\<close> is the system call that
  reports the free memory.
\<close>

section \<open>State and operations\<close>

record kmem =
  use_lock :: bool
  freelist :: u32

record kmemst = kslock +
  mem :: memory
  kend :: u32
  kdata :: u32
  kmem :: kmem

definition setmem :: "(memory \<Rightarrow> memory) \<Rightarrow> ('z kmemst_scheme, unit) kmon" where
  "setmem f = modK (\<lambda>s. s\<lparr>mem := f (mem s)\<rparr>)"

definition set_freelist :: "u32 \<Rightarrow> ('z kmemst_scheme, unit) kmon" where
  "set_freelist r = modK (\<lambda>s. s\<lparr>kmem := (kmem s)\<lparr>freelist := r\<rparr>\<rparr>)"

definition kfree :: "u32 \<Rightarrow> ('z kmemst_scheme, unit) kmon" where
  "kfree v =
     bindK (getK kend) (\<lambda>e.
     if v mod PGSIZE \<noteq> 0 \<or> v < e \<or> V2P v \<ge> PHYSTOP then panicK ''kfree'' else
     thenK (setmem (memset v 1 PGSIZE)) (
     bindK (getK (\<lambda>s. use_lock (kmem s))) (\<lambda>ul.
     thenK (whenK ul (acquire KmemLock)) (
     bindK (getK (\<lambda>s. freelist (kmem s))) (\<lambda>fl.
     thenK (setmem (store32 v fl)) (
     thenK (set_freelist v)
           (whenK ul (release KmemLock))))))))"

definition kalloc :: "('z kmemst_scheme, u32) kmon" where
  "kalloc =
     bindK (getK (\<lambda>s. use_lock (kmem s))) (\<lambda>ul.
     thenK (whenK ul (acquire KmemLock)) (
     bindK (getK (\<lambda>s. freelist (kmem s))) (\<lambda>r.
     bindK (getK (\<lambda>s. load32 (mem s) r)) (\<lambda>nxt.
     thenK (whenK (r \<noteq> 0) (set_freelist nxt)) (
     thenK (whenK ul (release KmemLock))
           (returnK r))))))"

text \<open>The loop of \<^verbatim>\<open>freerange\<close>. It ends because \<^verbatim>\<open>kfree\<close> panics on an address at which \<^verbatim>\<open>p\<close> could wrap.\<close>

lemma V2P_range: "V2P v < PHYSTOP \<Longrightarrow> 0x80000000 \<le> unat v \<and> unat v < 0x8E000000"
  by (auto simp: V2P_def KERNBASE_def PHYSTOP_def word_less_nat_alt unat_sub_if' split: if_splits)

lemma kfree_Done_range:
  "kfree v s = Done x t \<Longrightarrow> unat v + 4096 < 2 ^ 32"
proof -
  assume "kfree v s = Done x t"
  then have "V2P v < PHYSTOP" by (auto simp: kfree_def split: if_splits)
  then show ?thesis using V2P_range [of v] by simp
qed

function freerange_loop :: "u32 \<Rightarrow> u32 \<Rightarrow> ('z kmemst_scheme, unit) kmon" where
  "freerange_loop p vend s =
     (if p + PGSIZE \<le> vend then
        (case kfree p s of
           Done x t \<Rightarrow> freerange_loop (p + PGSIZE) vend t
         | Panics msg \<Rightarrow> Panics msg | Sleeps t \<Rightarrow> Sleeps t | Spins t \<Rightarrow> Spins t)
      else Done () s)"
  by pat_completeness auto
termination
proof (relation "measure (\<lambda>(p, vend, s). 2 ^ 32 - unat p)")
  fix p vend s x t
  assume "p + PGSIZE \<le> vend" and "kfree p (s :: 'z kmemst_scheme) = Done x t"
  then have "unat p + 4096 < 2 ^ 32" by (intro kfree_Done_range)
  then have "unat (p + PGSIZE) = unat p + 4096" by (simp add: PGSIZE_def unat_word_ariths)
  then show "((p + PGSIZE, vend, t), p, vend, s) \<in> measure (\<lambda>(p, vend, s). 2 ^ 32 - unat p)"
    using \<open>unat p + 4096 < 2 ^ 32\<close> by simp
qed simp

definition freerange :: "u32 \<Rightarrow> u32 \<Rightarrow> ('z kmemst_scheme, unit) kmon" where
  "freerange vstart vend = freerange_loop (PGROUNDUP vstart) vend"

definition kinit1 :: "u32 \<Rightarrow> u32 \<Rightarrow> ('z kmemst_scheme, unit) kmon" where
  "kinit1 vstart vend =
     thenK (initlock KmemLock ''kmem'') (
     thenK (modK (\<lambda>s. s\<lparr>kmem := (kmem s)\<lparr>use_lock := False\<rparr>\<rparr>))
           (freerange vstart vend))"

definition kinit2 :: "u32 \<Rightarrow> u32 \<Rightarrow> ('z kmemst_scheme, unit) kmon" where
  "kinit2 vstart vend =
     thenK (freerange vstart vend)
           (modK (\<lambda>s. s\<lparr>kmem := (kmem s)\<lparr>use_lock := True\<rparr>\<rparr>))"

text \<open>The loop of \<^verbatim>\<open>freemem\<close>; it returns only if the list ends. \<^verbatim>\<open>freeMemBytes\<close> is a 32-bit integer.\<close>

partial_function (option) freemem_loop :: "memory \<Rightarrow> u32 \<Rightarrow> u32 \<Rightarrow> u32 option" where
  "freemem_loop m r n = (if r = 0 then Some n else freemem_loop m (load32 m r) (n + 4096))"

definition freemem :: "('z kmemst_scheme, int) kmon" where
  "freemem =
     bindK (getK (\<lambda>s. use_lock (kmem s))) (\<lambda>ul.
     thenK (whenK ul (acquire KmemLock)) (
     bindK (getK (\<lambda>s. freemem_loop (mem s) (freelist (kmem s)) 0)) (\<lambda>c.
     case c of None \<Rightarrow> (\<lambda>s. Spins s)
     | Some n \<Rightarrow>
         thenK (whenK ul (release KmemLock))
               (returnK (if sint n < 0 then -1 else sint n)))))"

section \<open>The free list\<close>

text \<open>The pages the list starting at \<open>p\<close> goes through; the pages the allocator may own.\<close>

primrec chain :: "memory \<Rightarrow> u32 \<Rightarrow> u32 list \<Rightarrow> bool" where
  "chain m p [] = (p = 0)"
| "chain m p (x # xs) = (p = x \<and> x \<noteq> 0 \<and> chain m (load32 m x) xs)"

definition kpage :: "u32 \<Rightarrow> u32 \<Rightarrow> bool" where
  "kpage e v \<longleftrightarrow> v mod PGSIZE = 0 \<and> e \<le> v \<and> V2P v < PHYSTOP \<and> v \<noteq> 0"

definition in_page :: "u32 \<Rightarrow> u32 \<Rightarrow> bool" where
  "in_page v a \<longleftrightarrow> a - v < PGSIZE"

definition kmem_inv :: "'z kmemst_scheme \<Rightarrow> u32 list \<Rightarrow> bool" where
  "kmem_inv s xs \<longleftrightarrow> chain (mem s) (freelist (kmem s)) xs \<and> distinct xs \<and> (\<forall>x\<in>set xs. kpage (kend s) x)"

text \<open>The state in which the allocator can be called: its lock is free once it is in use. What a call
  does to the CPU.\<close>

definition kmem_ready :: "'z kmemst_scheme \<Rightarrow> bool" where
  "kmem_ready s \<longleftrightarrow> (use_lock (kmem s) \<longrightarrow> cpu_ok (hw s) \<and> lock_free KmemLock (hw s))"

definition khw :: "'z kmemst_scheme \<Rightarrow> hart" where
  "khw s = (if use_lock (kmem s) then settle (hw s) else hw s)"

lemma chain_cong: "\<forall>x\<in>set xs. load32 m x = load32 m' x \<Longrightarrow> chain m p xs = chain m' p xs"
  by (induction xs arbitrary: p) auto

lemma chain_unique: "chain m p xs \<Longrightarrow> chain m p ys \<Longrightarrow> xs = ys"
proof (induction xs arbitrary: p ys)
  case Nil
  then show ?case by (cases ys) auto
next
  case (Cons x xs)
  then show ?case by (cases ys) auto
qed

text \<open>Two different pages do not overlap.\<close>

lemma unat_mod_PGSIZE: "v mod PGSIZE = 0 \<Longrightarrow> unat v mod 4096 = 0"
proof -
  assume "v mod PGSIZE = 0"
  then have "unat (v mod PGSIZE) = 0" by simp
  then show ?thesis by (simp add: PGSIZE_def unat_mod)
qed

lemma page_floor: "u mod 4096 = 0 \<Longrightarrow> i < 4096 \<Longrightarrow> (u + i) div 4096 * 4096 = (u :: nat)"
  using div_mult_mod_eq [of u 4096] by (simp add: div_add1_eq)

lemma pages_apart:
  assumes "v mod PGSIZE = 0" "w mod PGSIZE = 0" "v \<noteq> w" "in_page v a"
  shows "\<not> in_page w a"
proof
  assume "in_page w a"
  have v: "unat v mod 4096 = 0" and w: "unat w mod 4096 = 0" using assms unat_mod_PGSIZE by auto
  define i where "i = unat (a - v)"
  define j where "j = unat (a - w)"
  have ij: "i < 4096" "j < 4096"
    using assms(4) \<open>in_page w a\<close> by (simp_all add: i_def j_def in_page_def PGSIZE_def word_less_nat_alt)
  have top: "unat x + k < 2 ^ 32" if "unat x mod 4096 = 0" "k < 4096" for x :: u32 and k
  proof -
    define q where "q = unat x div 4096"
    have q: "unat x = 4096 * q" using that(1) div_mult_mod_eq [of "unat x" 4096] by (simp add: q_def)
    then have "q < 1048576" using unat32_less [of x] by simp
    then show ?thesis using q that(2) by simp
  qed
  have "a = v + of_nat i" "a = w + of_nat j" by (simp_all add: i_def j_def)
  then have "unat v + i = unat w + j"
    using unat_offset [of v i] unat_offset [of w j] top [OF v ij(1)] top [OF w ij(2)] by metis
  moreover have "(unat v + i) div 4096 * 4096 = unat v" "(unat w + j) div 4096 * 4096 = unat w"
    using page_floor [OF v ij(1)] page_floor [OF w ij(2)] by simp_all
  ultimately have "unat v = unat w" by metis
  with assms(3) show False by (simp add: word_unat_eq_iff)
qed

lemma in_page_word:
  assumes "v mod PGSIZE = 0" "k < 4096"
  shows "in_page v (v + of_nat k)"
  using assms by (simp add: in_page_def PGSIZE_def word_less_nat_alt unat_of_nat)

lemma load32_other_page:
  assumes "v mod PGSIZE = 0" "x mod PGSIZE = 0" "v \<noteq> x" "\<And>a. \<not> in_page v a \<Longrightarrow> m a = m' a"
  shows "load32 m x = load32 m' x"
proof -
  have "m (x + of_nat k) = m' (x + of_nat k)" if "k < 4096" for k
    using assms(4) pages_apart [OF assms(2,1) assms(3)[symmetric] in_page_word [OF assms(2) that]] by blast
  from this [of 0] this [of 1] this [of 2] this [of 3] show ?thesis
    by (intro load32_cong) simp_all
qed

section \<open>Executing the operations\<close>

definition freed :: "u32 \<Rightarrow> 'z kmemst_scheme \<Rightarrow> 'z kmemst_scheme" where
  "freed v s = s\<lparr>hw := khw s, mem := store32 v (freelist (kmem s)) (memset v 1 PGSIZE (mem s)),
     kmem := (kmem s)\<lparr>freelist := v\<rparr>\<rparr>"

lemma kfree_run:
  assumes "kmem_ready s" "kpage (kend s) v"
  shows "kfree v s = Done () (freed v s)"
  using assms cpu_okD(3) [of "hw s"]
  by (cases "use_lock (kmem s)")
    (simp_all add: kfree_def kmem_ready_def kpage_def run_simps setmem_def set_freelist_def freed_def khw_def not_le not_less)

lemma kfree_panics:
  assumes "v mod PGSIZE \<noteq> 0 \<or> v < kend s \<or> PHYSTOP \<le> V2P v"
  shows "kfree v s = Panics ''kfree''"
  using assms by (auto simp: kfree_def)

lemma kalloc_run:
  assumes "kmem_ready s"
  shows "kalloc s = Done (freelist (kmem s)) (s\<lparr>hw := khw s,
    kmem := (if freelist (kmem s) = 0 then kmem s else (kmem s)\<lparr>freelist := load32 (mem s) (freelist (kmem s))\<rparr>)\<rparr>)"
  using assms cpu_okD(3) [of "hw s"]
  by (cases "use_lock (kmem s)") (simp_all add: kalloc_def kmem_ready_def run_simps set_freelist_def khw_def)

lemma freed_frame:
  assumes "v mod PGSIZE = 0" "\<not> in_page v a"
  shows "mem (freed v s) a = mem s a"
proof -
  have "\<not> unat (a - v) < 4" using assms(2) by (simp add: in_page_def PGSIZE_def word_less_nat_alt)
  then show ?thesis using assms(2) by (simp add: freed_def store32_spec memset_spec in_page_def)
qed

lemma kmem_ready_freed [simp]: "kmem_ready s \<Longrightarrow> kmem_ready (freed v s)"
  by (simp add: kmem_ready_def freed_def khw_def)

lemma kend_freed [simp]: "kend (freed v s) = kend s"
  by (simp add: freed_def)

lemma kmem_inv_freed:
  assumes "kmem_inv s xs" "kpage (kend s) v" "v \<notin> set xs"
  shows "kmem_inv (freed v s) (v # xs)"
proof -
  have "load32 (mem (freed v s)) x = load32 (mem s) x" if "x \<in> set xs" for x
    using assms that by (intro load32_other_page [of v]) (auto simp: kmem_inv_def kpage_def freed_frame)
  then have "chain (mem (freed v s)) (freelist (kmem s)) xs"
    using assms(1) chain_cong [of xs "mem (freed v s)" "mem s"] by (simp add: kmem_inv_def)
  moreover have "load32 (mem (freed v s)) v = freelist (kmem s)" by (simp add: freed_def)
  ultimately show ?thesis using assms by (simp add: kmem_inv_def) (simp add: freed_def kpage_def)
qed

section \<open>The allocator's contract\<close>

text \<open>What the clients of a page allocator rely on: \<open>free s xs\<close> says that the allocator holds exactly the
  pages of \<open>xs\<close> and can be called.\<close>

locale page_allocator =
  fixes frees :: "'s \<Rightarrow> u32 list \<Rightarrow> bool" and page :: "'s \<Rightarrow> u32 \<Rightarrow> bool" and memory_of :: "'s \<Rightarrow> memory"
    and alloc :: "('s, u32) kmon" and dealloc :: "u32 \<Rightarrow> ('s, unit) kmon"
  assumes alloc_some: "frees s (x # xs) \<Longrightarrow>
      \<exists>t. alloc s = Done x t \<and> frees t xs \<and> memory_of t = memory_of s \<and> page s x \<and> x \<notin> set xs \<and> (\<forall>v. page t v = page s v)"
    and alloc_none: "frees s [] \<Longrightarrow> \<exists>t. alloc s = Done 0 t \<and> frees t [] \<and> memory_of t = memory_of s"
    and dealloc_page: "frees s xs \<Longrightarrow> page s v \<Longrightarrow> v \<notin> set xs \<Longrightarrow>
      \<exists>t. dealloc v s = Done () t \<and> frees t (v # xs) \<and> (\<forall>a. \<not> in_page v a \<longrightarrow> memory_of t a = memory_of s a)
        \<and> (\<forall>w. page t w = page s w)"
    and page_aligned: "page s v \<Longrightarrow> v mod PGSIZE = 0 \<and> v \<noteq> 0"
begin

text \<open>Allocation never hands out a page twice: successive allocations return distinct pages, none of
  them null, until the list is empty.\<close>

primrec alloc_n :: "nat \<Rightarrow> ('s, u32 list) kmon" where
  "alloc_n 0 = returnK []"
| "alloc_n (Suc n) = bindK alloc (\<lambda>p. bindK (alloc_n n) (\<lambda>ps. returnK (p # ps)))"

lemma alloc_n_ok:
  assumes "frees s xs" "n \<le> length xs"
  shows "\<exists>t. alloc_n n s = Done (take n xs) t \<and> frees t (drop n xs) \<and> memory_of t = memory_of s"
  using assms
proof (induction n arbitrary: s xs)
  case 0
  then show ?case by simp
next
  case (Suc n)
  then obtain x ys where xs: "xs = x # ys" by (cases xs) auto
  obtain t where t: "alloc s = Done x t" "frees t ys" "memory_of t = memory_of s"
    using alloc_some [of s x ys] Suc.prems xs by auto
  obtain u where "alloc_n n t = Done (take n ys) u" "frees u (drop n ys)" "memory_of u = memory_of t"
    using Suc.IH [OF t(2)] Suc.prems xs by auto
  then show ?case using t xs by simp
qed

text \<open>A page that is freed is the next to be allocated, and the rest of memory is as before.\<close>

lemma dealloc_alloc:
  assumes "frees s xs" "page s v" "v \<notin> set xs"
  shows "\<exists>t u. dealloc v s = Done () t \<and> alloc t = Done v u \<and> frees u xs \<and>
    (\<forall>a. \<not> in_page v a \<longrightarrow> memory_of u a = memory_of s a)"
  using dealloc_page [OF assms] alloc_some [of _ v xs] by fastforce

end

definition kfrees :: "'z kmemst_scheme \<Rightarrow> u32 list \<Rightarrow> bool" where
  "kfrees s xs \<longleftrightarrow> kmem_ready s \<and> kmem_inv s xs"

interpretation kal: page_allocator kfrees "\<lambda>s. kpage (kend s)" mem kalloc kfree
proof
  fix s :: "'z kmemst_scheme" and x v :: u32 and xs :: "u32 list"
  show "\<exists>t. kalloc s = Done x t \<and> kfrees t xs \<and> mem t = mem s \<and> kpage (kend s) x \<and> x \<notin> set xs \<and> (\<forall>v. kpage (kend t) v = kpage (kend s) v)"
    if "kfrees s (x # xs)"
    using that kalloc_run [of s] by (auto simp: kfrees_def kmem_inv_def kmem_ready_def khw_def)
  show "\<exists>t. kalloc s = Done 0 t \<and> kfrees t [] \<and> mem t = mem s" if "kfrees s []"
    using that kalloc_run [of s] by (auto simp: kfrees_def kmem_inv_def kmem_ready_def khw_def)
  show "\<exists>t. kfree v s = Done () t \<and> kfrees t (v # xs) \<and> (\<forall>a. \<not> in_page v a \<longrightarrow> mem t a = mem s a)
      \<and> (\<forall>w. kpage (kend t) w = kpage (kend s) w)"
    if "kfrees s xs" "kpage (kend s) v" "v \<notin> set xs"
    using that kfree_run [of s v] kmem_inv_freed [of s xs v]
    by (auto simp: kfrees_def freed_frame kpage_def)
  show "v mod PGSIZE = 0 \<and> v \<noteq> 0" if "kpage (kend s) v" using that by (simp add: kpage_def)
qed

section \<open>Counting the free memory\<close>

lemma freemem_loop_chain: "chain m p xs \<Longrightarrow> freemem_loop m p n = Some (n + 4096 * of_nat (length xs))"
proof (induction xs arbitrary: p n)
  case Nil
  then show ?case by (subst freemem_loop.simps) simp
next
  case (Cons x xs)
  then show ?case by (subst freemem_loop.simps) (simp add: algebra_simps)
qed

text \<open>The allocator can never hold more pages than there are below \<^verbatim>\<open>PHYSTOP\<close>.\<close>

lemma free_bound:
  assumes "kmem_inv s xs"
  shows "length xs \<le> 57344"
proof -
  let ?f = "\<lambda>x. unat x div 4096"
  have r: "unat x mod 4096 = 0" "0x80000000 \<le> unat x" "unat x < 0x8E000000" if "x \<in> set xs" for x
    using assms that unat_mod_PGSIZE V2P_range [of x] by (auto simp: kmem_inv_def kpage_def)
  have "inj_on ?f (set xs)"
    by (rule inj_onI) (metis div_mult_mod_eq add.right_neutral r(1) word_unat_eq_iff)
  moreover have "?f ` set xs \<subseteq> {524288..<581632}"
  proof
    fix y assume "y \<in> ?f ` set xs"
    then obtain x where "x \<in> set xs" "y = unat x div 4096" by blast
    then show "y \<in> {524288..<581632}" using r [of x] by auto
  qed
  moreover have "card {524288..<581632 :: nat} = 57344" by simp
  ultimately have "card (set xs) \<le> 57344" by (metis card_inj_on_le finite_atLeastLessThan)
  then show ?thesis using assms by (simp add: kmem_inv_def distinct_card)
qed

lemma freemem_run:
  assumes "kfrees s xs"
  shows "\<exists>t. freemem s = Done (4096 * int (length xs)) t \<and> kfrees t xs \<and> mem t = mem s"
proof -
  have inv: "kmem_ready s" "kmem_inv s xs" using assms by (simp_all add: kfrees_def)
  have len: "length xs \<le> 57344" by (rule free_bound [OF inv(2)])
  have "sint (4096 * of_nat (length xs) :: u32) = 4096 * int (length xs)"
  proof -
    have "unat (4096 * of_nat (length xs) :: u32) = 4096 * length xs"
      using len by (simp add: unat_word_ariths unat_of_nat)
    then show ?thesis using len by (simp add: sint_small)
  qed
  then show ?thesis
    using inv cpu_okD(3) [of "hw s"]
    by (cases "use_lock (kmem s)")
      (auto simp: freemem_def kmem_inv_def kmem_ready_def run_simps freemem_loop_chain kfrees_def)
qed

section \<open>Filling the free list\<close>

definition pages_from :: "u32 \<Rightarrow> nat \<Rightarrow> u32 list" where
  "pages_from p n = map (\<lambda>i. p + of_nat (4096 * i)) [0..<n]"

lemma pages_from_Suc: "pages_from p (Suc n) = p # pages_from (p + 4096) n"
  by (simp add: pages_from_def upt_conv_Cons map_Suc_upt [symmetric] add.assoc del: upt_Suc)

lemma kpageI:
  assumes "p mod PGSIZE = 0" "e \<le> p" "0x80000000 \<le> unat e" "unat p < 0x8E000000"
  shows "kpage e p"
proof -
  have "0x80000000 \<le> unat p" using assms(2,3) by (simp add: word_le_nat_alt)
  then have "p - 0x80000000 < 0xE000000" using assms(4) by (auto simp: word_less_nat_alt unat_sub_if')
  moreover have "p \<noteq> 0" using \<open>0x80000000 \<le> unat p\<close> by auto
  ultimately show ?thesis using assms(1,2) by (simp add: kpage_def V2P_def KERNBASE_def PHYSTOP_def)
qed

lemma aligned_unat: "v mod PGSIZE = 0 \<longleftrightarrow> unat v mod 4096 = 0"
  by (simp add: PGSIZE_def word_unat_eq_iff unat_mod)

lemma next_page_aligned: "p mod PGSIZE = 0 \<Longrightarrow> unat (p + 4096) = unat p + 4096 \<Longrightarrow> (p + 4096) mod PGSIZE = 0"
  by (simp add: aligned_unat)

lemma unat_pages_from:
  assumes "unat p + 4096 * n < 2 ^ 32" "x \<in> set (pages_from p n)"
  shows "\<exists>i<n. unat x = unat p + 4096 * i"
  using assms by (auto simp: pages_from_def unat_offset simp del: of_nat_mult)

lemma freerange_loop_run:
  assumes "kfrees s xs" "p mod PGSIZE = 0" "0x80000000 \<le> unat (kend s)" "kend s \<le> p"
    "unat p + 4096 * n \<le> unat vend" "unat vend < unat p + 4096 * Suc n" "unat vend \<le> 0x8E000000"
    "set (pages_from p n) \<inter> set xs = {}"
  shows "\<exists>t. freerange_loop p vend s = Done () t \<and> kfrees t (rev (pages_from p n) @ xs)"
  using assms
proof (induction n arbitrary: p s xs)
  case 0
  then have "\<not> p + PGSIZE \<le> vend" by (simp add: word_le_nat_alt PGSIZE_def unat_word_ariths)
  then show ?case using 0 by (simp add: pages_from_def)
next
  case (Suc n)
  have k: "kpage (kend s) p" using Suc.prems by (intro kpageI) auto
  have up: "unat (p + 4096) = unat p + 4096" using Suc.prems by (simp add: unat_word_ariths)
  have le: "p + PGSIZE \<le> vend" using Suc.prems up by (simp add: word_le_nat_alt PGSIZE_def)
  have "p \<notin> set xs" using Suc.prems(8) by (simp add: pages_from_Suc)
  then obtain t where t: "kfree p s = Done () t" "kfrees t (p # xs)" "kend t = kend s"
    using kal.dealloc_page [OF Suc.prems(1) k] kfree_run [of s p] k Suc.prems(1) by (auto simp: kfrees_def)
  have "\<exists>u. freerange_loop (p + 4096) vend t = Done () u \<and> kfrees u (rev (pages_from (p + 4096) n) @ p # xs)"
  proof (rule Suc.IH [OF t(2)])
    show "(p + 4096) mod PGSIZE = 0" using Suc.prems(2) up by (rule next_page_aligned)
    show "kend t \<le> p + 4096" using Suc.prems(4) up t(3) by (simp add: word_le_nat_alt)
    have "p \<notin> set (pages_from (p + 4096) n)"
      using unat_pages_from [of "p + 4096" n p] Suc.prems up by auto
    then show "set (pages_from (p + 4096) n) \<inter> set (p # xs) = {}"
      using Suc.prems(8) by (auto simp: pages_from_Suc)
  qed (use Suc.prems up t(3) in auto)
  then show ?case using le t by (simp add: pages_from_Suc PGSIZE_def)
qed

section \<open>Properties\<close>

text \<open>A concrete state: one process, and one free page.\<close>

definition kmem0 :: kmemst where
  "kmem0 = \<lparr>hw = hart0, ptable = [proc0], initproc = Some 0, nextpid = 2,
     slocks = (\<lambda>_. \<lparr>sl_locked = 0, sl_name = '''', sl_pid = 0\<rparr>),
     mem = (\<lambda>_. 0), kend = 0x80120000, kdata = 0x80110000, kmem = \<lparr>use_lock = True, freelist = 0x80200000\<rparr>\<rparr>"

lemma kmem0_kfrees: "kfrees kmem0 [0x80200000]"
  by (simp add: kfrees_def kmem_ready_def kmem_inv_def kmem0_def load32_def word_of_bytes_def kpage_def
      PGSIZE_def PHYSTOP_def V2P_def KERNBASE_def)

text \<open>C8. The page allocator: a page in its range that it does not hold can be freed; it is then the
  next page allocated, the free list is as before, and no byte outside the page has changed.\<close>

theorem kfree_kalloc:
  assumes "kfrees s xs" "kpage (kend s) v" "v \<notin> set xs"
  shows "\<exists>t u. kfree v s = Done () t \<and> kfrees t (v # xs) \<and> kalloc t = Done v u \<and> kfrees u xs \<and>
    (\<forall>a. in_page v a \<or> mem u a = mem s a)"
  using kal.dealloc_page [OF assms] kal.alloc_some [of _ v xs] by fastforce

theorem kfree_kalloc_witness:
  "\<exists>t u. kfree 0x80201000 kmem0 = Done () t \<and> kfrees t [0x80201000, 0x80200000] \<and>
     kalloc t = Done 0x80201000 u \<and> kfrees u [0x80200000] \<and> (\<forall>a. in_page 0x80201000 a \<or> mem u a = mem kmem0 a)"
  by (rule kfree_kalloc [OF kmem0_kfrees])
    (simp_all add: kmem0_def kpage_def PGSIZE_def PHYSTOP_def V2P_def KERNBASE_def)

text \<open>Allocation hands out only pages of the free list, each in the allocator's range, and reports
  0 exactly when the list is empty; memory is left alone.\<close>

theorem kalloc_correct:
  assumes "kfrees s xs"
  shows "\<exists>t. kalloc s = Done (case xs of [] \<Rightarrow> 0 | x # _ \<Rightarrow> x) t \<and> kfrees t (tl xs) \<and> mem t = mem s \<and>
    (xs = [] \<or> kpage (kend s) (hd xs) \<and> hd xs \<notin> set (tl xs))"
  using assms kal.alloc_none [of s] kal.alloc_some [of s "hd xs" "tl xs"] by (cases xs) auto

theorem kalloc_correct_witness: "\<exists>t. kalloc kmem0 = Done 0x80200000 t \<and> kfrees t []"
  using kalloc_correct [OF kmem0_kfrees] by auto

text \<open>C12. \<^verbatim>\<open>freemem\<close> returns 4096 times the number of free pages, changes neither the list nor memory, and
  can never overflow: its \<open>-1\<close> answer is unreachable.\<close>

theorem freemem_correct:
  assumes "kfrees s xs"
  shows "\<exists>t. freemem s = Done (4096 * int (length xs)) t \<and> kfrees t xs \<and> mem t = mem s \<and> length xs \<le> 57344"
  using freemem_run [OF assms] free_bound [of s xs] assms by (auto simp: kfrees_def)

theorem freemem_correct_witness: "\<exists>t. freemem kmem0 = Done 4096 t"
  using freemem_correct [OF kmem0_kfrees] by auto

text \<open>\<^verbatim>\<open>freerange\<close> puts every whole page between its bounds on the free list and no other, when the
  range lies between the kernel's end and \<^verbatim>\<open>PHYSTOP\<close>; the loop ends.\<close>

theorem freerange_correct:
  assumes "kfrees s xs" "0x80000000 \<le> unat (kend s)" "kend s \<le> PGROUNDUP vstart"
    "PGROUNDUP vstart \<le> vend" "unat vend \<le> 0x8E000000"
    "set (pages_from (PGROUNDUP vstart) ((unat vend - unat (PGROUNDUP vstart)) div 4096)) \<inter> set xs = {}"
  shows "\<exists>t. freerange vstart vend s = Done () t \<and>
    kfrees t (rev (pages_from (PGROUNDUP vstart) ((unat vend - unat (PGROUNDUP vstart)) div 4096)) @ xs)"
  unfolding freerange_def
proof (rule freerange_loop_run [OF assms(1)])
  let ?p = "PGROUNDUP vstart" and ?n = "(unat vend - unat (PGROUNDUP vstart)) div 4096"
  have le: "unat ?p \<le> unat vend" using assms(4) by (simp add: word_le_nat_alt)
  show "unat ?p + 4096 * ?n \<le> unat vend" "unat vend < unat ?p + 4096 * Suc ?n"
    using le div_mult_mod_eq [of "unat vend - unat ?p" 4096] mod_less_divisor [of 4096 "unat vend - unat ?p"] by simp_all
  show "PGROUNDUP vstart mod PGSIZE = 0" by (rule PGROUND_aligned)
qed (use assms in auto)

theorem freerange_correct_witness:
  "\<exists>t. freerange 0x80400001 0x80403000 kmem0 = Done () t \<and> kfrees t [0x80402000, 0x80401000, 0x80200000]"
proof -
  have p: "PGROUNDUP 0x80400001 = 0x80401000" by (simp add: PGROUNDUP_def PGSIZE_def)
  have "pages_from 0x80401000 2 = [0x80401000, 0x80402000]" by (simp add: pages_from_def upt_rec)
  then show ?thesis
    using freerange_correct [OF kmem0_kfrees, of "0x80400001" "0x80403000"] by (simp add: p kmem0_def)
qed

end
