(* ===== verification/Xv6_Bio.thy ===== *)
theory Xv6_Bio
  imports Xv6_Kalloc
begin

text \<open>
  The in-memory disk (\<^verbatim>\<open>memide.c\<close>) and the buffer cache (\<^verbatim>\<open>bio.c\<close>). A disk block and the data of a
  buffer are lists of bytes. The circular list of buffers through \<^verbatim>\<open>prev\<close>/\<^verbatim>\<open>next\<close> is the list \<open>lru\<close> of
  buffer indices, most recently used first. The field \<open>dwrites\<close> records the blocks written to the disk
  in order; no code reads it, it is there to speak of a crash between two writes.
\<close>

section \<open>State\<close>

definition BSIZE :: nat where "BSIZE = 512"
definition B_VALID :: u32 where "B_VALID = 2"
definition B_DIRTY :: u32 where "B_DIRTY = 4"

record buf =
  bflags :: u32
  bdev :: u32
  bblockno :: u32
  brefcnt :: u32
  bdata :: "u8 list"

record biost =
  disk :: "u32 \<Rightarrow> u8 list"
  disksize :: u32
  dwrites :: "(u32 \<times> u8 list) list"
  bufs :: "buf list"
  lru :: "nat list"

record kbio = kmemst +
  bio :: biost

definition getB :: "(biost \<Rightarrow> 'a) \<Rightarrow> ('z kbio_scheme, 'a) kmon" where
  "getB f = getK (\<lambda>s. f (bio s))"

definition modB :: "(biost \<Rightarrow> biost) \<Rightarrow> ('z kbio_scheme, unit) kmon" where
  "modB f = modK (\<lambda>s. s\<lparr>bio := f (bio s)\<rparr>)"

definition mod_buf :: "nat \<Rightarrow> (buf \<Rightarrow> buf) \<Rightarrow> ('z kbio_scheme, unit) kmon" where
  "mod_buf b f = modB (\<lambda>s. s\<lparr>bufs := upd_slot b f (bufs s)\<rparr>)"

definition buf_data :: "nat \<Rightarrow> ('z kbio_scheme, u8 list) kmon" where
  "buf_data b = getB (\<lambda>s. bdata (bufs s ! b))"

definition set_data :: "nat \<Rightarrow> (u8 list \<Rightarrow> u8 list) \<Rightarrow> ('z kbio_scheme, unit) kmon" where
  "set_data b f = mod_buf b (\<lambda>k. k\<lparr>bdata := f (bdata k)\<rparr>)"

section \<open>The disk\<close>

definition ideinit :: "(u32 \<Rightarrow> u8 list) \<Rightarrow> u32 \<Rightarrow> ('z kbio_scheme, unit) kmon" where
  "ideinit img img_size = modB (\<lambda>s. s\<lparr>disk := img, disksize := img_size div of_nat BSIZE\<rparr>)"

definition iderw :: "nat \<Rightarrow> ('z kbio_scheme, unit) kmon" where
  "iderw b =
     bindK (holdingsleep (BufLock b)) (\<lambda>h.
     if \<not> h then panicK ''iderw: buf not locked'' else
     bindK (getB (\<lambda>s. bufs s ! b)) (\<lambda>k.
     if bflags k AND (B_VALID OR B_DIRTY) = B_VALID then panicK ''iderw: nothing to do'' else
     if bdev k \<noteq> 1 then panicK ''iderw: request not for disk 1'' else
     bindK (getB disksize) (\<lambda>n.
     if bblockno k \<ge> n then panicK ''iderw: block out of range'' else
     thenK
       (if bflags k AND B_DIRTY \<noteq> 0 then
          thenK (mod_buf b (bflags_update (\<lambda>f. f AND NOT B_DIRTY)))
                (modB (\<lambda>s. s\<lparr>disk := (disk s)(bblockno k := bdata k), dwrites := dwrites s @ [(bblockno k, bdata k)]\<rparr>))
        else
          modB (\<lambda>s. s\<lparr>bufs := upd_slot b (\<lambda>k. k\<lparr>bdata := disk s (bblockno k)\<rparr>) (bufs s)\<rparr>))
       (mod_buf b (bflags_update (\<lambda>f. f OR B_VALID))))))"

section \<open>The buffer cache\<close>

definition binit :: "('z kbio_scheme, unit) kmon" where
  "binit =
     thenK (initlock BcacheLock ''bcache'') (
     thenK (modB (\<lambda>s. s\<lparr>lru := []\<rparr>))
           (forK [0..<NBUF] (\<lambda>b.
              thenK (initsleeplock (BufLock b) ''buffer'')
                    (modB (\<lambda>s. s\<lparr>lru := b # lru s\<rparr>)))))"

definition bget :: "u32 \<Rightarrow> u32 \<Rightarrow> ('z kbio_scheme, nat) kmon" where
  "bget dev blockno =
     thenK (acquire BcacheLock) (
     bindK (getB (\<lambda>s. find (\<lambda>b. bdev (bufs s ! b) = dev \<and> bblockno (bufs s ! b) = blockno) (lru s))) (\<lambda>r.
     case r of
       Some b \<Rightarrow>
         thenK (mod_buf b (brefcnt_update (\<lambda>n. n + 1))) (
         thenK (release BcacheLock) (
         thenK (acquiresleep (BufLock b)) (returnK b)))
     | None \<Rightarrow>
         bindK (getB (\<lambda>s. find (\<lambda>b. brefcnt (bufs s ! b) = 0 \<and> bflags (bufs s ! b) AND B_DIRTY = 0) (rev (lru s)))) (\<lambda>r.
         case r of
           Some b \<Rightarrow>
             thenK (mod_buf b (\<lambda>k. k\<lparr>bdev := dev, bblockno := blockno, bflags := 0, brefcnt := 1\<rparr>)) (
             thenK (release BcacheLock) (
             thenK (acquiresleep (BufLock b)) (returnK b)))
         | None \<Rightarrow> panicK ''bget: no buffers'')))"

definition bread :: "u32 \<Rightarrow> u32 \<Rightarrow> ('z kbio_scheme, nat) kmon" where
  "bread dev blockno =
     bindK (bget dev blockno) (\<lambda>b.
     bindK (getB (\<lambda>s. bflags (bufs s ! b))) (\<lambda>f.
     thenK (whenK (f AND B_VALID = 0) (iderw b)) (returnK b)))"

definition bwrite :: "nat \<Rightarrow> ('z kbio_scheme, unit) kmon" where
  "bwrite b =
     bindK (holdingsleep (BufLock b)) (\<lambda>h.
     if \<not> h then panicK ''bwrite'' else
     thenK (mod_buf b (bflags_update (\<lambda>f. f OR B_DIRTY)))
           (iderw b))"

definition brelse :: "nat \<Rightarrow> ('z kbio_scheme, unit) kmon" where
  "brelse b =
     bindK (holdingsleep (BufLock b)) (\<lambda>h.
     if \<not> h then panicK ''brelse'' else
     thenK (releasesleep (BufLock b)) (
     thenK (acquire BcacheLock) (
     thenK (mod_buf b (brefcnt_update (\<lambda>n. n - 1))) (
     bindK (getB (\<lambda>s. brefcnt (bufs s ! b))) (\<lambda>n.
     thenK (whenK (n = 0) (modB (\<lambda>s. s\<lparr>lru := b # remove1 b (lru s)\<rparr>)))
           (release BcacheLock))))))"

lemma getB_run [simp]: "getB f s = Done (f (bio s)) s"
  by (simp add: getB_def)

lemma modB_run [simp]: "modB f s = Done () (s\<lparr>bio := f (bio s)\<rparr>)"
  by (simp add: modB_def)

section \<open>The cache invariant\<close>

definition valid :: "buf \<Rightarrow> bool" where "valid k \<longleftrightarrow> bflags k AND B_VALID \<noteq> 0"
definition dirty :: "buf \<Rightarrow> bool" where "dirty k \<longleftrightarrow> bflags k AND B_DIRTY \<noteq> 0"

text \<open>No two buffers hold the same block (device 0 marks a buffer never used); the order list has
  every buffer once; a valid buffer that is neither dirty nor in use agrees with the disk; a dirty one
  is valid; a buffer is referenced if and only if it is in the set \<open>H\<close> of buffers in use.\<close>

definition buf_ok :: "biost \<Rightarrow> bool \<Rightarrow> buf \<Rightarrow> bool" where
  "buf_ok c h k \<longleftrightarrow> (valid k \<and> \<not> dirty k \<and> \<not> h \<longrightarrow> bdata k = disk c (bblockno k)) \<and> (dirty k \<longrightarrow> valid k) \<and>
     (valid k \<longrightarrow> bdev k = 1 \<and> bblockno k < disksize c) \<and> brefcnt k = (if h then 1 else 0) \<and> (h \<longrightarrow> valid k)"

definition bc_inv :: "nat set \<Rightarrow> biost \<Rightarrow> bool" where
  "bc_inv H c \<longleftrightarrow> length (bufs c) = NBUF \<and> distinct (lru c) \<and> set (lru c) = {..<NBUF} \<and> H \<subseteq> {..<NBUF} \<and>
     (\<forall>i<NBUF. \<forall>j<NBUF. bdev (bufs c ! i) = bdev (bufs c ! j) \<and> bblockno (bufs c ! i) = bblockno (bufs c ! j) \<and>
        bdev (bufs c ! i) \<noteq> 0 \<longrightarrow> i = j) \<and>
     (\<forall>i<NBUF. buf_ok c (i \<in> H) (bufs c ! i))"

text \<open>The contents of a block as the file system sees it: the cached copy if there is a valid one,
  else the disk.\<close>

definition cached :: "biost \<Rightarrow> u32 \<Rightarrow> nat option" where
  "cached c b = find (\<lambda>i. bdev (bufs c ! i) = 1 \<and> bblockno (bufs c ! i) = b \<and> valid (bufs c ! i)) [0..<length (bufs c)]"

definition bview :: "biost \<Rightarrow> u32 \<Rightarrow> u8 list" where
  "bview c b = (case cached c b of Some i \<Rightarrow> bdata (bufs c ! i) | None \<Rightarrow> disk c b)"

section \<open>Executing the operations\<close>

definition slot_of :: "biost \<Rightarrow> u32 \<Rightarrow> nat option" where
  "slot_of c b = find (\<lambda>i. bdev (bufs c ! i) = 1 \<and> bblockno (bufs c ! i) = b) (lru c)"

definition recyclable :: "biost \<Rightarrow> nat option" where
  "recyclable c = find (\<lambda>i. brefcnt (bufs c ! i) = 0 \<and> bflags (bufs c ! i) AND B_DIRTY = 0) (rev (lru c))"

definition filled :: "u8 list \<Rightarrow> buf \<Rightarrow> buf" where
  "filled d k = (if valid k then k else k\<lparr>bdata := d, bflags := bflags k OR B_VALID\<rparr>)"

definition hit :: "biost \<Rightarrow> nat \<Rightarrow> biost" where
  "hit c i = c\<lparr>bufs := upd_slot i (\<lambda>k. filled (disk c (bblockno k)) (k\<lparr>brefcnt := brefcnt k + 1\<rparr>)) (bufs c)\<rparr>"

definition miss :: "biost \<Rightarrow> nat \<Rightarrow> u32 \<Rightarrow> biost" where
  "miss c i b = c\<lparr>bufs := upd_slot i (\<lambda>k. filled (disk c b) (k\<lparr>bdev := 1, bblockno := b, bflags := 0, brefcnt := 1\<rparr>)) (bufs c)\<rparr>"

lemma flag_exps: "B_VALID = 2 ^ 1" "B_DIRTY = 2 ^ 2"
  by (simp_all add: B_VALID_def B_DIRTY_def)

lemma bit_flags [simp]: "bit B_VALID n \<longleftrightarrow> n = 1" "bit B_DIRTY n \<longleftrightarrow> n = 2"
  unfolding flag_exps bit_exp_iff by auto

lemma and_flags [simp]: "f AND B_VALID = 0 \<longleftrightarrow> \<not> bit f 1" "f AND B_DIRTY = 0 \<longleftrightarrow> \<not> bit f 2"
  unfolding flag_exps by (simp_all only: and_exp_eq_0_iff_not_bit)

lemma nothing_to_do [simp]: "f AND (B_VALID OR B_DIRTY) = B_VALID \<longleftrightarrow> bit f 1 \<and> \<not> bit f 2"
proof
  assume "f AND (B_VALID OR B_DIRTY) = B_VALID"
  then have "bit (f AND (B_VALID OR B_DIRTY)) n = bit B_VALID n" for n by simp
  from this [of 1] this [of 2] show "bit f 1 \<and> \<not> bit f 2" by (simp add: bit_simps)
next
  assume "bit f 1 \<and> \<not> bit f 2"
  then show "f AND (B_VALID OR B_DIRTY) = B_VALID" by (intro bit_word_eqI) (auto simp: bit_simps)
qed

lemma flags_nonzero [simp]: "B_VALID \<noteq> 0" "B_DIRTY \<noteq> 0"
  by (simp_all add: B_VALID_def B_DIRTY_def)

lemma valid_iff [simp]: "valid k \<longleftrightarrow> bit (bflags k) 1" by (simp add: valid_def)
lemma dirty_iff [simp]: "dirty k \<longleftrightarrow> bit (bflags k) 2" by (simp add: dirty_def)

lemma bread_hit:
  assumes "calm s" "slot_of (bio s) b = Some i" "sl_locked (slocks s (BufLock i)) = 0" "i < length (bufs (bio s))"
    "b < disksize (bio s)" "dirty (bufs (bio s) ! i) \<longrightarrow> valid (bufs (bio s) ! i)"
  shows "bread 1 b s = Done i (s\<lparr>hw := settle (hw s),
    slocks := (slocks s)(BufLock i := sl_taken (pid (ptable s ! me s)) (slocks s (BufLock i))), bio := hit (bio s) i\<rparr>)"
proof -
  have i: "bdev (bufs (bio s) ! i) = 1" "bblockno (bufs (bio s) ! i) = b"
    using assms(2) by (auto simp: slot_of_def find_Some_iff)
  show ?thesis
    using assms i calmD [OF assms(1)]
    by (cases "valid (bufs (bio s) ! i)")
      (auto simp: bread_def bget_def slot_of_def [symmetric] run_simps mod_buf_def iderw_def hit_def filled_def
        sl_held_def sl_taken_def hart_settled not_le intro!: kbio.equality biost.equality upd_slot_cong)
qed

lemma bread_miss:
  assumes "calm s" "slot_of (bio s) b = None" "recyclable (bio s) = Some i" "sl_locked (slocks s (BufLock i)) = 0"
    "i < length (bufs (bio s))" "b < disksize (bio s)"
  shows "bread 1 b s = Done i (s\<lparr>hw := settle (hw s),
    slocks := (slocks s)(BufLock i := sl_taken (pid (ptable s ! me s)) (slocks s (BufLock i))), bio := miss (bio s) i b\<rparr>)"
  using assms calmD [OF assms(1)]
  by (auto simp: bread_def bget_def slot_of_def [symmetric] recyclable_def [symmetric, simplified] run_simps mod_buf_def iderw_def miss_def filled_def
        sl_held_def sl_taken_def hart_settled not_le intro!: kbio.equality biost.equality upd_slot_cong)

lemma bget_no_buffers:
  assumes "calm s" "slot_of (bio s) b = None" "recyclable (bio s) = None"
  shows "bread 1 b s = Panics ''bget: no buffers''"
  using assms calmD [OF assms(1)]
  by (auto simp: bread_def bget_def slot_of_def [symmetric] recyclable_def [symmetric, simplified] run_simps)

definition written :: "biost \<Rightarrow> nat \<Rightarrow> biost" where
  "written c i = c\<lparr>bufs := upd_slot i (\<lambda>k. k\<lparr>bflags := (bflags k OR B_DIRTY) AND NOT B_DIRTY OR B_VALID\<rparr>) (bufs c),
     disk := (disk c)(bblockno (bufs c ! i) := bdata (bufs c ! i)),
     dwrites := dwrites c @ [(bblockno (bufs c ! i), bdata (bufs c ! i))]\<rparr>"

lemma written_simps [simp]:
  "disk (written c i) = (disk c)(bblockno (bufs c ! i) := bdata (bufs c ! i))" "disksize (written c i) = disksize c"
  "dwrites (written c i) = dwrites c @ [(bblockno (bufs c ! i), bdata (bufs c ! i))]"
  by (simp_all add: written_def)

lemma bwrite_run:
  assumes "calm s" "sl_held (BufLock i) (me s) s" "i < length (bufs (bio s))"
    "bdev (bufs (bio s) ! i) = 1" "bblockno (bufs (bio s) ! i) < disksize (bio s)"
  shows "bwrite i s = Done () (s\<lparr>hw := settle (hw s), bio := written (bio s) i\<rparr>)"
  using assms calmD [OF assms(1)]
  by (auto simp: bwrite_def run_simps mod_buf_def iderw_def written_def sl_held_def hart_settled not_le bit_simps
      intro!: kbio.equality biost.equality upd_slot_cong)

definition released :: "biost \<Rightarrow> nat \<Rightarrow> biost" where
  "released c i = (let c' = c\<lparr>bufs := upd_slot i (\<lambda>k. k\<lparr>brefcnt := brefcnt k - 1\<rparr>) (bufs c)\<rparr>
     in if brefcnt (bufs c ! i) = 1 then c'\<lparr>lru := i # remove1 i (lru c)\<rparr> else c')"

lemma released_simps [simp]:
  "disk (released c i) = disk c" "disksize (released c i) = disksize c" "dwrites (released c i) = dwrites c"
  by (simp_all add: released_def Let_def)

lemma brelse_run:
  assumes "calm s" "sl_held (BufLock i) (me s) s" "i < length (bufs (bio s))"
  shows "brelse i s = Done () (s\<lparr>hw := settle (hw s), ptable := map (wake (Some (SleepLockChan (BufLock i)))) (ptable s),
    slocks := (slocks s)(BufLock i := sl_given (slocks s (BufLock i))), bio := released (bio s) i\<rparr>)"
  using assms calmD [OF assms(1)]
  by (auto simp: brelse_def run_simps mod_buf_def released_def Let_def hart_settled whenK_def
      intro!: kbio.equality biost.equality upd_slot_cong)

lemma brelse_not_held:
  assumes "calm s" "\<not> sl_held (BufLock i) (me s) s"
  shows "brelse i s = Panics ''brelse''" "bwrite i s = Panics ''bwrite''"
  using assms by (simp_all add: brelse_def bwrite_def run_simps)

section \<open>The invariant is kept\<close>

lemma bc_invD:
  assumes "bc_inv H c"
  shows "length (bufs c) = NBUF" "distinct (lru c)" "set (lru c) = {..<NBUF}" "i \<in> H \<Longrightarrow> i < NBUF"
    "i < NBUF \<Longrightarrow> buf_ok c (i \<in> H) (bufs c ! i)"
    "i < NBUF \<Longrightarrow> j < NBUF \<Longrightarrow> bdev (bufs c ! i) = bdev (bufs c ! j) \<Longrightarrow> bblockno (bufs c ! i) = bblockno (bufs c ! j)
      \<Longrightarrow> bdev (bufs c ! i) \<noteq> 0 \<Longrightarrow> i = j"
  using assms by (auto simp: bc_inv_def)

lemma bview_cached:
  assumes "bc_inv H c" "i < NBUF" "valid (bufs c ! i)"
  shows "bview c (bblockno (bufs c ! i)) = bdata (bufs c ! i)"
proof -
  have dev: "bdev (bufs c ! i) = 1" using bc_invD(5) [OF assms(1,2)] assms(3) by (simp add: buf_ok_def)
  have "cached c (bblockno (bufs c ! i)) = Some i"
  proof (cases "cached c (bblockno (bufs c ! i))")
    case None
    then show ?thesis using assms dev bc_invD(1) [OF assms(1)] by (auto simp: cached_def find_None_iff)
  next
    case (Some j)
    then have "j < NBUF" "bdev (bufs c ! j) = 1" "bblockno (bufs c ! j) = bblockno (bufs c ! i)"
      using bc_invD(1) [OF assms(1)] by (auto simp: cached_def find_Some_iff)
    then have "j = i" using bc_invD(6) [OF assms(1), of j i] assms(2) dev by simp
    then show ?thesis using Some by simp
  qed
  then show ?thesis by (simp add: bview_def)
qed

lemma bview_uncached:
  assumes "length (bufs c) = NBUF" "\<And>i. i < NBUF \<Longrightarrow> \<not> (bdev (bufs c ! i) = 1 \<and> bblockno (bufs c ! i) = b \<and> valid (bufs c ! i))"
  shows "bview c b = disk c b"
proof -
  have "cached c b = None" using assms by (auto simp: cached_def find_None_iff)
  then show ?thesis by (simp add: bview_def)
qed

text \<open>The view is determined by the valid buffers.\<close>

lemma bview_eqI:
  assumes "bc_inv H c" "bc_inv K d" "disk d = disk c"
    "\<And>i. i < NBUF \<Longrightarrow> valid (bufs d ! i) \<Longrightarrow> bdata (bufs d ! i) = bview c (bblockno (bufs d ! i))"
    "\<And>i. i < NBUF \<Longrightarrow> dirty (bufs c ! i) \<or> i \<in> H \<Longrightarrow> bufs d ! i = bufs c ! i \<or> (valid (bufs d ! i) \<and> bblockno (bufs d ! i) = bblockno (bufs c ! i))"
  shows "bview d = bview c"
proof
  fix b
  show "bview d b = bview c b"
  proof (cases "\<exists>i<NBUF. valid (bufs d ! i) \<and> bblockno (bufs d ! i) = b")
    case True
    then show ?thesis using assms(4) bview_cached [OF assms(2)] by metis
  next
    case False
    then have "bview d b = disk c b" using bview_uncached [of d b] bc_invD(1) [OF assms(2)] assms(3) by auto
    also have "\<dots> = bview c b"
    proof (cases "\<exists>i<NBUF. valid (bufs c ! i) \<and> bblockno (bufs c ! i) = b")
      case True
      then obtain i where i: "i < NBUF" "valid (bufs c ! i)" "bblockno (bufs c ! i) = b" by blast
      have "\<not> (dirty (bufs c ! i) \<or> i \<in> H)"
      proof
        assume "dirty (bufs c ! i) \<or> i \<in> H"
        then have "valid (bufs d ! i) \<and> bblockno (bufs d ! i) = b" using assms(5) [OF i(1)] i by auto
        then show False using False i(1) by blast
      qed
      then have "bdata (bufs c ! i) = disk c b" using bc_invD(5) [OF assms(1) i(1)] i by (simp add: buf_ok_def)
      then show ?thesis using bview_cached [OF assms(1) i(1,2)] i(3) by simp
    next
      case False
      then have "bview c b = disk c b" by (intro bview_uncached [OF bc_invD(1) [OF assms(1)]]) blast
      then show ?thesis by simp
    qed
    finally show ?thesis .
  qed
qed

lemma buf_ok_disk: "disk d = disk c \<Longrightarrow> disksize d = disksize c \<Longrightarrow> buf_ok d = buf_ok c"
  by (intro ext) (simp add: buf_ok_def)

text \<open>Changing one buffer.\<close>

lemma bc_inv_upd:
  assumes "bc_inv H c" "i < NBUF" "bufs d = upd_slot i g (bufs c)" "distinct (lru d)" "set (lru d) = {..<NBUF}"
    "\<And>j h. j < NBUF \<Longrightarrow> j \<noteq> i \<Longrightarrow> buf_ok c h (bufs c ! j) \<Longrightarrow> buf_ok d h (bufs c ! j)"
    "buf_ok d (i \<in> K) (g (bufs c ! i))" "\<And>j. j \<noteq> i \<Longrightarrow> j \<in> K \<longleftrightarrow> j \<in> H"
    "\<And>j. j < NBUF \<Longrightarrow> j \<noteq> i \<Longrightarrow> bdev (g (bufs c ! i)) \<noteq> 0 \<Longrightarrow>
      \<not> (bdev (bufs c ! j) = bdev (g (bufs c ! i)) \<and> bblockno (bufs c ! j) = bblockno (g (bufs c ! i)))"
  shows "bc_inv K d"
proof -
  have nth: "bufs d ! j = (if j = i then g (bufs c ! i) else bufs c ! j)" if "j < NBUF" for j
    using that bc_invD(1) [OF assms(1)] assms(2,3) by (simp add: nth_upd_slot)
  have "buf_ok d (j \<in> K) (bufs d ! j)" if "j < NBUF" for j
    using that assms(6) [OF that] assms(7,8) bc_invD(5) [OF assms(1) that] by (auto simp: nth)
  moreover have "j = k" if "j < NBUF" "k < NBUF" "bdev (bufs d ! j) = bdev (bufs d ! k)"
    "bblockno (bufs d ! j) = bblockno (bufs d ! k)" "bdev (bufs d ! j) \<noteq> 0" for j k
    using that assms(9) [of j] assms(9) [of k] bc_invD(6) [OF assms(1), of j k] by (auto simp: nth split: if_splits)
  moreover have "K \<subseteq> {..<NBUF}"
  proof
    fix x assume "x \<in> K"
    then show "x \<in> {..<NBUF}" using assms(8) [of x] assms(2) bc_invD(4) [OF assms(1), of x] by (cases "x = i") auto
  qed
  moreover have "length (bufs d) = NBUF" using bc_invD(1) [OF assms(1)] assms(3) by simp
  ultimately show ?thesis using assms(4,5) unfolding bc_inv_def by blast
qed

lemma slot_of_Some:
  assumes "bc_inv H c" "slot_of c b = Some i"
  shows "i < NBUF" "bdev (bufs c ! i) = 1" "bblockno (bufs c ! i) = b"
  using assms(2) bc_invD(3) [OF assms(1)] by (auto simp: slot_of_def find_Some_iff)

lemma slot_of_None:
  assumes "bc_inv H c" "slot_of c b = None" "j < NBUF"
  shows "\<not> (bdev (bufs c ! j) = 1 \<and> bblockno (bufs c ! j) = b)"
  using assms(2,3) bc_invD(3) [OF assms(1)] by (auto simp: slot_of_def find_None_iff)

lemma recyclable_Some:
  assumes "bc_inv H c" "recyclable c = Some i"
  shows "i < NBUF" "i \<notin> H" "\<not> dirty (bufs c ! i)"
proof -
  have *: "i \<in> set (lru c)" "brefcnt (bufs c ! i) = 0" "\<not> dirty (bufs c ! i)"
    using assms(2) by (auto simp: recyclable_def find_Some_iff rev_nth)
  then show "i < NBUF" "\<not> dirty (bufs c ! i)" using bc_invD(3) [OF assms(1)] by auto
  then show "i \<notin> H" using bc_invD(5) [OF assms(1)] * by (auto simp: buf_ok_def)
qed

lemma recyclable_None:
  assumes "bc_inv H c" "recyclable c = None" "i < NBUF"
  shows "i \<in> H \<or> dirty (bufs c ! i)"
  using assms(2,3) bc_invD(3) [OF assms(1)] bc_invD(5) [OF assms(1,3)] by (auto simp: recyclable_def find_None_iff buf_ok_def)

lemma bc_inv_hit:
  assumes "bc_inv H c" "slot_of c b = Some i" "i \<notin> H" "b < disksize c"
  shows "bc_inv (insert i H) (hit c i)"
proof (rule bc_inv_upd [OF assms(1) slot_of_Some(1) [OF assms(1,2)]])
  note i = slot_of_Some [OF assms(1,2)]
  show "bufs (hit c i) = upd_slot i (\<lambda>k. filled (disk c (bblockno k)) (k\<lparr>brefcnt := brefcnt k + 1\<rparr>)) (bufs c)"
    by (simp add: hit_def)
  show "buf_ok (hit c i) (i \<in> insert i H) (filled (disk c (bblockno (bufs c ! i))) ((bufs c ! i)\<lparr>brefcnt := brefcnt (bufs c ! i) + 1\<rparr>))"
    using bc_invD(5) [OF assms(1) i(1)] assms(3,4) i by (auto simp: buf_ok_def filled_def hit_def bit_simps)
  show "\<not> (bdev (bufs c ! j) = bdev (filled (disk c (bblockno (bufs c ! i))) ((bufs c ! i)\<lparr>brefcnt := brefcnt (bufs c ! i) + 1\<rparr>))
      \<and> bblockno (bufs c ! j) = bblockno (filled (disk c (bblockno (bufs c ! i))) ((bufs c ! i)\<lparr>brefcnt := brefcnt (bufs c ! i) + 1\<rparr>)))"
    if "j < NBUF" "j \<noteq> i" for j using that bc_invD(6) [OF assms(1) that(1) i(1)] i by (auto simp: filled_def)
qed (use bc_invD [OF assms(1)] in \<open>auto simp: hit_def buf_ok_def\<close>)

lemma bc_inv_miss:
  assumes "bc_inv H c" "slot_of c b = None" "recyclable c = Some i" "b < disksize c"
  shows "bc_inv (insert i H) (miss c i b)"
proof (rule bc_inv_upd [OF assms(1) recyclable_Some(1) [OF assms(1,3)]])
  show "bufs (miss c i b) = upd_slot i (\<lambda>k. filled (disk c b) (k\<lparr>bdev := 1, bblockno := b, bflags := 0, brefcnt := 1\<rparr>)) (bufs c)"
    by (simp add: miss_def)
  show "buf_ok (miss c i b) (i \<in> insert i H) (filled (disk c b) ((bufs c ! i)\<lparr>bdev := 1, bblockno := b, bflags := 0, brefcnt := 1\<rparr>))"
    using assms(4) by (auto simp: buf_ok_def filled_def miss_def bit_simps)
  show "\<not> (bdev (bufs c ! j) = bdev (filled (disk c b) ((bufs c ! i)\<lparr>bdev := 1, bblockno := b, bflags := 0, brefcnt := 1\<rparr>))
      \<and> bblockno (bufs c ! j) = bblockno (filled (disk c b) ((bufs c ! i)\<lparr>bdev := 1, bblockno := b, bflags := 0, brefcnt := 1\<rparr>)))"
    if "j < NBUF" "j \<noteq> i" for j using slot_of_None [OF assms(1,2) that(1)] by (simp add: filled_def)
qed (use bc_invD [OF assms(1)] in \<open>auto simp: miss_def buf_ok_def\<close>)

lemma bview_hit:
  assumes "bc_inv H c" "slot_of c b = Some i" "i \<notin> H" "b < disksize c"
  shows "bview (hit c i) = bview c" "bdata (bufs (hit c i) ! i) = bview c b" "bblockno (bufs (hit c i) ! i) = b"
proof -
  note i = slot_of_Some [OF assms(1,2)] and len = bc_invD(1) [OF assms(1)]
  have nth: "bufs (hit c i) ! j = (if j = i then filled (disk c b) ((bufs c ! i)\<lparr>brefcnt := brefcnt (bufs c ! i) + 1\<rparr>) else bufs c ! j)"
    if "j < NBUF" for j using that i len by (simp add: hit_def nth_upd_slot)
  have un: "bview c b = disk c b" if "\<not> valid (bufs c ! i)"
  proof (rule bview_uncached [OF len])
    show "\<not> (bdev (bufs c ! j) = 1 \<and> bblockno (bufs c ! j) = b \<and> valid (bufs c ! j))" if "j < NBUF" for j
      using bc_invD(6) [OF assms(1) that i(1)] i \<open>\<not> valid (bufs c ! i)\<close> by auto
  qed
  show d: "bdata (bufs (hit c i) ! i) = bview c b"
    using i un bview_cached [OF assms(1) i(1)] by (auto simp: nth filled_def)
  show k: "bblockno (bufs (hit c i) ! i) = b" using i by (simp add: nth filled_def)
  show "bview (hit c i) = bview c"
  proof (rule bview_eqI [OF assms(1) bc_inv_hit [OF assms]])
    show "bdata (bufs (hit c i) ! j) = bview c (bblockno (bufs (hit c i) ! j))" if "j < NBUF" "valid (bufs (hit c i) ! j)" for j
      using that d k bview_cached [OF assms(1) that(1)] by (cases "j = i") (auto simp: nth)
    show "bufs (hit c i) ! j = bufs c ! j \<or> (valid (bufs (hit c i) ! j) \<and> bblockno (bufs (hit c i) ! j) = bblockno (bufs c ! j))"
      if "j < NBUF" for j using that by (auto simp: nth filled_def bit_simps)
  qed (simp add: hit_def)
qed

lemma bview_miss:
  assumes "bc_inv H c" "slot_of c b = None" "recyclable c = Some i" "b < disksize c"
  shows "bview (miss c i b) = bview c" "bdata (bufs (miss c i b) ! i) = bview c b" "bblockno (bufs (miss c i b) ! i) = b"
proof -
  note i = recyclable_Some [OF assms(1,3)] and len = bc_invD(1) [OF assms(1)]
  have nth: "bufs (miss c i b) ! j = (if j = i then filled (disk c b) ((bufs c ! i)\<lparr>bdev := 1, bblockno := b, bflags := 0, brefcnt := 1\<rparr>) else bufs c ! j)"
    if "j < NBUF" for j using that i len by (simp add: miss_def nth_upd_slot)
  have "bview c b = disk c b" using slot_of_None [OF assms(1,2)] by (intro bview_uncached [OF len]) blast
  then show d: "bdata (bufs (miss c i b) ! i) = bview c b" using i by (simp add: nth filled_def)
  show k: "bblockno (bufs (miss c i b) ! i) = b" using i by (simp add: nth filled_def)
  show "bview (miss c i b) = bview c"
  proof (rule bview_eqI [OF assms(1) bc_inv_miss [OF assms]])
    show "bdata (bufs (miss c i b) ! j) = bview c (bblockno (bufs (miss c i b) ! j))" if "j < NBUF" "valid (bufs (miss c i b) ! j)" for j
      using that d k bview_cached [OF assms(1) that(1)] by (cases "j = i") (auto simp: nth)
    show "bufs (miss c i b) ! j = bufs c ! j \<or> (valid (bufs (miss c i b) ! j) \<and> bblockno (bufs (miss c i b) ! j) = bblockno (bufs c ! j))"
      if "j < NBUF" "dirty (bufs c ! j) \<or> j \<in> H" for j using that i by (auto simp: nth)
  qed (simp add: miss_def)
qed

section \<open>The cache as a store of blocks\<close>

text \<open>The cache invariant with the locks: the buffers of \<open>H\<close> are locked by the running process and no
  other buffer is locked.\<close>

definition bio_inv :: "nat set \<Rightarrow> 'z kbio_scheme \<Rightarrow> bool" where
  "bio_inv H s \<longleftrightarrow> calm s \<and> bc_inv H (bio s) \<and>
     (\<forall>i<NBUF. if i \<in> H then sl_held (BufLock i) (me s) s else sl_locked (slocks s (BufLock i)) = 0)"

text \<open>What every operation of the cache leaves unchanged: all but the CPU's interrupt state, the
  waking of processes, the buffer locks and the cache.\<close>

definition unsleep :: "proc \<Rightarrow> proc" where
  "unsleep p = (if state p = SLEEPING then p\<lparr>state := RUNNABLE\<rparr> else p)"

definition bframe :: "'z kbio_scheme \<Rightarrow> 'z kbio_scheme \<Rightarrow> bool" where
  "bframe s t \<longleftrightarrow> initproc t = initproc s \<and> nextpid t = nextpid s \<and> mem t = mem s \<and> kend t = kend s \<and> kdata t = kdata s \<and>
     kmem t = kmem s \<and> kbio.more t = kbio.more s \<and>
     map unsleep (ptable t) = map unsleep (ptable s) \<and> cur_proc (hw t) = cur_proc (hw s) \<and>
     (\<forall>l. (\<forall>i. l \<noteq> BufLock i) \<longrightarrow> slocks t l = slocks s l) \<and>
     disksize (bio t) = disksize (bio s)"

lemma bframe_refl [simp]: "bframe s s"
  by (simp add: bframe_def)

lemma bframe_trans [trans]: "bframe s t \<Longrightarrow> bframe t u \<Longrightarrow> bframe s u"
  by (simp add: bframe_def)

lemma unsleep_wake [simp]: "unsleep (wake ch p) = unsleep p"
  by (simp add: unsleep_def wake_def)

lemma pid_unsleep [simp]: "pid (unsleep p) = pid p"
  by (simp add: unsleep_def)

lemma bio_invD:
  assumes "bio_inv H s"
  shows "calm s" "bc_inv H (bio s)" "i \<in> H \<Longrightarrow> sl_held (BufLock i) (me s) s"
    "i < NBUF \<Longrightarrow> i \<notin> H \<Longrightarrow> sl_locked (slocks s (BufLock i)) = 0"
  using assms bc_invD(4) [of H "bio s" i] by (auto simp: bio_inv_def)

text \<open>The state after \<^verbatim>\<open>bread\<close>.\<close>

definition bread_post :: "nat set \<Rightarrow> 'z kbio_scheme \<Rightarrow> u32 \<Rightarrow> nat \<Rightarrow> 'z kbio_scheme \<Rightarrow> bool" where
  "bread_post H s b i t \<longleftrightarrow> i < NBUF \<and> i \<notin> H \<and> bio_inv (insert i H) t \<and> bframe s t \<and>
     bblockno (bufs (bio t) ! i) = b \<and> bdata (bufs (bio t) ! i) = bview (bio s) b \<and> bview (bio t) = bview (bio s) \<and>
     disk (bio t) = disk (bio s) \<and> dwrites (bio t) = dwrites (bio s) \<and>
     (\<forall>j<NBUF. dirty (bufs (bio t) ! j) = dirty (bufs (bio s) ! j) \<and> (j \<noteq> i \<longrightarrow> bufs (bio t) ! j = bufs (bio s) ! j)) \<and>
     (\<not> dirty (bufs (bio t) ! i) \<longrightarrow> bview (bio s) b = disk (bio s) b) \<and>
     (dirty (bufs (bio t) ! i) \<longrightarrow> bblockno (bufs (bio s) ! i) = b)"

lemma bread_ok:
  assumes "bio_inv H s" "b < disksize (bio s)" "\<And>i. i \<in> H \<Longrightarrow> bblockno (bufs (bio s) ! i) \<noteq> b"
    "slot_of (bio s) b = None \<Longrightarrow> \<exists>i<NBUF. i \<notin> H \<and> \<not> dirty (bufs (bio s) ! i)"
  shows "\<exists>i t. bread 1 b s = Done i t \<and> bread_post H s b i t"
proof -
  note calm = bio_invD(1) [OF assms(1)] and inv = bio_invD(2) [OF assms(1)]
  let ?s = "\<lambda>i c. s\<lparr>hw := settle (hw s),
    slocks := (slocks s)(BufLock i := sl_taken (pid (ptable s ! me s)) (slocks s (BufLock i))), bio := c\<rparr>"
  have locks: "bio_inv (insert i H) (?s i c)" if "bc_inv (insert i H) c" "i \<notin> H" for i c
    using assms(1) that by (auto simp: bio_inv_def sl_held_def sl_taken_def hart_settled)
  have fr: "bframe s (?s i c)" if "disksize c = disksize (bio s)" for i c
    using that by (auto simp: bframe_def hart_settled)
  show ?thesis
  proof (cases "slot_of (bio s) b")
    case (Some i)
    note i = slot_of_Some [OF inv Some]
    have nH: "i \<notin> H" using assms(3) i(3) by auto
    have ok: "buf_ok (bio s) False (bufs (bio s) ! i)" using bc_invD(5) [OF inv i(1)] nH by simp
    then have "bread 1 b s = Done i (?s i (hit (bio s) i))"
      using calm Some i nH assms(1,2) bc_invD(1) [OF inv] by (intro bread_hit) (auto simp: buf_ok_def dest: bio_invD(4))
    moreover have "bread_post H s b i (?s i (hit (bio s) i))"
      unfolding bread_post_def
      using i nH bview_hit [OF inv Some nH assms(2)] locks [OF bc_inv_hit [OF inv Some nH assms(2)] nH] fr [of "hit (bio s) i" i]
        bc_invD(1) [OF inv] ok bview_cached [OF inv i(1)]
      by (auto simp: hit_def nth_upd_slot filled_def buf_ok_def bit_simps)
    ultimately show ?thesis by blast
  next
    case None
    obtain i where r: "recyclable (bio s) = Some i" using assms(4) [OF None] recyclable_None [OF inv] by fastforce
    note i = recyclable_Some [OF inv r]
    have "bread 1 b s = Done i (?s i (miss (bio s) i b))"
      using calm None r i assms(1,2) bc_invD(1) [OF inv] by (intro bread_miss) (auto dest: bio_invD(4))
    moreover have "bread_post H s b i (?s i (miss (bio s) i b))"
      unfolding bread_post_def
      using i bview_miss [OF inv None r assms(2)] locks [OF bc_inv_miss [OF inv None r assms(2)] i(2)] fr [of "miss (bio s) i b" i]
        bc_invD(1) [OF inv]
      by (auto simp: miss_def nth_upd_slot filled_def bit_simps)
    ultimately show ?thesis by blast
  qed
qed

text \<open>Changing a buffer in use, keeping its block and its validity.\<close>

lemma bc_inv_change:
  assumes "bc_inv H c" "i \<in> H" "bufs d = upd_slot i g (bufs c)" "lru d = lru c" "disk d = disk c" "disksize d = disksize c"
    "bdev (g (bufs c ! i)) = bdev (bufs c ! i)" "bblockno (g (bufs c ! i)) = bblockno (bufs c ! i)"
    "brefcnt (g (bufs c ! i)) = brefcnt (bufs c ! i)" "valid (g (bufs c ! i))"
  shows "bc_inv H d" "bview d = (bview c)(bblockno (bufs c ! i) := bdata (g (bufs c ! i)))"
proof -
  note i = bc_invD(4) [OF assms(1,2)]
  have ok: "buf_ok c True (bufs c ! i)" using bc_invD(5) [OF assms(1) i] assms(2) by simp
  show d: "bc_inv H d"
  proof (rule bc_inv_upd [OF assms(1) i assms(3)])
    show "buf_ok d (i \<in> H) (g (bufs c ! i))" using ok assms by (simp add: buf_ok_def)
    show "\<not> (bdev (bufs c ! j) = bdev (g (bufs c ! i)) \<and> bblockno (bufs c ! j) = bblockno (g (bufs c ! i)))"
      if "j < NBUF" "j \<noteq> i" "bdev (g (bufs c ! i)) \<noteq> 0" for j
      using that bc_invD(6) [OF assms(1) that(1) i] assms(7,8) by auto
  qed (use bc_invD [OF assms(1)] assms in \<open>auto simp: buf_ok_def\<close>)
  have nth: "bufs d ! j = (if j = i then g (bufs c ! i) else bufs c ! j)" if "j < NBUF" for j
    using that bc_invD(1) [OF assms(1)] i assms(3) by (simp add: nth_upd_slot)
  show "bview d = (bview c)(bblockno (bufs c ! i) := bdata (g (bufs c ! i)))"
  proof
    fix b
    show "bview d b = ((bview c)(bblockno (bufs c ! i) := bdata (g (bufs c ! i)))) b"
    proof (cases "b = bblockno (bufs c ! i)")
      case True
      then show ?thesis using bview_cached [OF d i] assms(8,10) by (simp add: nth i)
    next
      case False
      show ?thesis
      proof (cases "\<exists>j<NBUF. valid (bufs c ! j) \<and> bblockno (bufs c ! j) = b")
        case True
        then obtain j where j: "j < NBUF" "valid (bufs c ! j)" "bblockno (bufs c ! j) = b" by blast
        then have "j \<noteq> i" using False by auto
        then show ?thesis using bview_cached [OF assms(1) j(1,2)] bview_cached [OF d j(1)] j False by (simp add: nth)
      next
        case none: False
        then have "bview c b = disk c b" by (intro bview_uncached [OF bc_invD(1) [OF assms(1)]]) blast
        moreover have "bview d b = disk d b"
          using none False assms(8) by (intro bview_uncached [OF bc_invD(1) [OF d]]) (auto simp: nth)
        ultimately show ?thesis using False assms(5) by simp
      qed
    qed
  qed
qed

lemma bio_inv_bio: "bio_inv H s \<Longrightarrow> bc_inv H c \<Longrightarrow> bio_inv H (s\<lparr>bio := c\<rparr>)"
  by (auto simp: bio_inv_def sl_held_def)

lemma bio_inv_settle: "bio_inv H s \<Longrightarrow> bio_inv H (s\<lparr>hw := settle (hw s)\<rparr>)"
  by (auto simp: bio_inv_def sl_held_def hart_settled)

lemma held_valid:
  assumes "bio_inv H s" "i \<in> H"
  shows "i < NBUF" "valid (bufs (bio s) ! i)" "bdev (bufs (bio s) ! i) = 1" "bblockno (bufs (bio s) ! i) < disksize (bio s)"
    "bview (bio s) (bblockno (bufs (bio s) ! i)) = bdata (bufs (bio s) ! i)" "length (bufs (bio s)) = NBUF"
proof -
  note inv = bio_invD(2) [OF assms(1)]
  show i: "i < NBUF" by (rule bc_invD(4) [OF inv assms(2)])
  then show v: "valid (bufs (bio s) ! i)" "bdev (bufs (bio s) ! i) = 1" "bblockno (bufs (bio s) ! i) < disksize (bio s)"
    using bc_invD(5) [OF inv i] assms(2) by (auto simp: buf_ok_def)
  show "bview (bio s) (bblockno (bufs (bio s) ! i)) = bdata (bufs (bio s) ! i)" by (rule bview_cached [OF inv i v(1)])
  show "length (bufs (bio s)) = NBUF" by (rule bc_invD(1) [OF inv])
qed

lemma set_data_ok:
  assumes "bio_inv H s" "i \<in> H"
  shows "\<exists>t. set_data i f s = Done () t \<and> bio_inv H t \<and> bframe s t \<and>
    bview (bio t) = (bview (bio s))(bblockno (bufs (bio s) ! i) := f (bdata (bufs (bio s) ! i))) \<and>
    disk (bio t) = disk (bio s) \<and> dwrites (bio t) = dwrites (bio s) \<and>
    bufs (bio t) = upd_slot i (\<lambda>k. k\<lparr>bdata := f (bdata k)\<rparr>) (bufs (bio s))"
proof -
  let ?c = "(bio s)\<lparr>bufs := upd_slot i (\<lambda>k. k\<lparr>bdata := f (bdata k)\<rparr>) (bufs (bio s))\<rparr>"
  have "bc_inv H ?c" "bview ?c = (bview (bio s))(bblockno (bufs (bio s) ! i) := f (bdata (bufs (bio s) ! i)))"
    using bc_inv_change [OF bio_invD(2) [OF assms(1)] assms(2), of ?c "\<lambda>k. k\<lparr>bdata := f (bdata k)\<rparr>"] held_valid [OF assms] by auto
  then show ?thesis using bio_inv_bio [OF assms(1)] by (simp add: set_data_def mod_buf_def bframe_def)
qed

lemma mark_dirty_ok:
  assumes "bio_inv H s" "i \<in> H"
  shows "\<exists>t. mod_buf i (bflags_update (\<lambda>f. f OR B_DIRTY)) s = Done () t \<and> bio_inv H t \<and> bframe s t \<and>
    bview (bio t) = bview (bio s) \<and> disk (bio t) = disk (bio s) \<and> dwrites (bio t) = dwrites (bio s) \<and>
    bufs (bio t) = upd_slot i (bflags_update (\<lambda>f. f OR B_DIRTY)) (bufs (bio s))"
proof -
  let ?c = "(bio s)\<lparr>bufs := upd_slot i (bflags_update (\<lambda>f. f OR B_DIRTY)) (bufs (bio s))\<rparr>"
  have "bc_inv H ?c" "bview ?c = (bview (bio s))(bblockno (bufs (bio s) ! i) := bdata (bufs (bio s) ! i))"
    using bc_inv_change [OF bio_invD(2) [OF assms(1)] assms(2), of ?c "bflags_update (\<lambda>f. f OR B_DIRTY)"] held_valid [OF assms]
    by (auto simp: bit_simps)
  moreover have "bview ?c = bview (bio s)" using calculation(2) held_valid(5) [OF assms] by auto
  ultimately show ?thesis using bio_inv_bio [OF assms(1)] by (simp add: mod_buf_def bframe_def)
qed

lemma bwrite_ok:
  assumes "bio_inv H s" "i \<in> H"
  shows "\<exists>t. bwrite i s = Done () t \<and> bio_inv H t \<and> bframe s t \<and> bview (bio t) = bview (bio s) \<and>
    disk (bio t) = (disk (bio s))(bblockno (bufs (bio s) ! i) := bdata (bufs (bio s) ! i)) \<and>
    dwrites (bio t) = dwrites (bio s) @ [(bblockno (bufs (bio s) ! i), bdata (bufs (bio s) ! i))] \<and>
    (\<forall>j<NBUF. bblockno (bufs (bio t) ! j) = bblockno (bufs (bio s) ! j) \<and> bdata (bufs (bio t) ! j) = bdata (bufs (bio s) ! j) \<and>
       dirty (bufs (bio t) ! j) = (j \<noteq> i \<and> dirty (bufs (bio s) ! j)))"
proof -
  note h = held_valid [OF assms] and inv = bio_invD(2) [OF assms(1)]
  let ?b = "bblockno (bufs (bio s) ! i)" and ?c = "written (bio s) i"
  let ?g = "\<lambda>k. k\<lparr>bflags := (bflags k OR B_DIRTY) AND NOT B_DIRTY OR B_VALID\<rparr>"
  have run: "bwrite i s = Done () (s\<lparr>hw := settle (hw s), bio := ?c\<rparr>)"
    using bio_invD(1,3) [OF assms(1)] assms(2) h by (intro bwrite_run) auto
  have nth: "bufs ?c ! j = (if j = i then ?g (bufs (bio s) ! i) else bufs (bio s) ! j)" if "j < NBUF" for j
    using that h by (simp add: written_def nth_upd_slot)
  have other: "buf_ok ?c hh (bufs (bio s) ! j)" if "j < NBUF" "j \<noteq> i" "buf_ok (bio s) hh (bufs (bio s) ! j)" for j hh
  proof -
    have "bblockno (bufs (bio s) ! j) \<noteq> ?b" if "valid (bufs (bio s) ! j)"
      using bc_invD(6) [OF inv \<open>j < NBUF\<close> h(1)] that \<open>j \<noteq> i\<close> \<open>buf_ok (bio s) hh (bufs (bio s) ! j)\<close> h(3) by (auto simp: buf_ok_def)
    then show ?thesis using that(3) by (auto simp: buf_ok_def written_def)
  qed
  have c: "bc_inv H ?c"
  proof (rule bc_inv_upd [OF inv h(1), of _ ?g])
    show "buf_ok ?c (i \<in> H) (?g (bufs (bio s) ! i))"
      using bc_invD(5) [OF inv h(1)] assms(2) h(3,4) by (auto simp: buf_ok_def written_def bit_simps)
    show "\<not> (bdev (bufs (bio s) ! j) = bdev (?g (bufs (bio s) ! i)) \<and> bblockno (bufs (bio s) ! j) = bblockno (?g (bufs (bio s) ! i)))"
      if "j < NBUF" "j \<noteq> i" for j using that bc_invD(6) [OF inv that(1) h(1)] h(3) by auto
  qed (use bc_invD [OF inv] other in \<open>auto simp: written_def\<close>)
  have "bview ?c = bview (bio s)"
  proof
    fix b
    show "bview ?c b = bview (bio s) b"
    proof (cases "\<exists>j<NBUF. valid (bufs (bio s) ! j) \<and> bblockno (bufs (bio s) ! j) = b")
      case True
      then obtain j where j: "j < NBUF" "valid (bufs (bio s) ! j)" "bblockno (bufs (bio s) ! j) = b" by blast
      then show ?thesis using bview_cached [OF inv j(1,2)] bview_cached [OF c j(1)] by (cases "j = i") (auto simp: nth bit_simps)
    next
      case none: False
      then have "b \<noteq> ?b" using h by auto
      have "bview (bio s) b = disk (bio s) b" using none by (intro bview_uncached [OF h(6)]) blast
      moreover have "bview ?c b = disk ?c b"
        using none \<open>b \<noteq> ?b\<close> by (intro bview_uncached [OF bc_invD(1) [OF c]]) (auto simp: nth)
      ultimately show ?thesis using \<open>b \<noteq> ?b\<close> by (simp add: written_def)
    qed
  qed
  then show ?thesis
    using run bio_inv_bio [OF bio_inv_settle [OF assms(1)] c]
    by (auto simp: bframe_def nth hart_settled bit_simps)
qed

lemma brelse_ok:
  assumes "bio_inv H s" "i \<in> H" "dirty (bufs (bio s) ! i) \<or> bdata (bufs (bio s) ! i) = disk (bio s) (bblockno (bufs (bio s) ! i))"
  shows "\<exists>t. brelse i s = Done () t \<and> bio_inv (H - {i}) t \<and> bframe s t \<and> bview (bio t) = bview (bio s) \<and>
    disk (bio t) = disk (bio s) \<and> dwrites (bio t) = dwrites (bio s) \<and>
    (\<forall>j<NBUF. bblockno (bufs (bio t) ! j) = bblockno (bufs (bio s) ! j) \<and> bdata (bufs (bio t) ! j) = bdata (bufs (bio s) ! j) \<and>
       dirty (bufs (bio t) ! j) = dirty (bufs (bio s) ! j))"
proof -
  note h = held_valid [OF assms(1,2)] and inv = bio_invD(2) [OF assms(1)]
  let ?c = "released (bio s) i" and ?g = "\<lambda>k. k\<lparr>brefcnt := brefcnt k - 1\<rparr>"
  let ?t = "s\<lparr>hw := settle (hw s), ptable := map (wake (Some (SleepLockChan (BufLock i)))) (ptable s),
    slocks := (slocks s)(BufLock i := sl_given (slocks s (BufLock i))), bio := ?c\<rparr>"
  have one: "brefcnt (bufs (bio s) ! i) = 1" using bc_invD(5) [OF inv h(1)] assms(2) by (simp add: buf_ok_def)
  have run: "brelse i s = Done () ?t"
    using bio_invD(1,3) [OF assms(1)] assms(2) h by (intro brelse_run) auto
  have nth: "bufs ?c ! j = (if j = i then ?g (bufs (bio s) ! i) else bufs (bio s) ! j)" if "j < NBUF" for j
    using that h by (simp add: released_def Let_def nth_upd_slot)
  have ok: "buf_ok (bio s) True (bufs (bio s) ! i)" using bc_invD(5) [OF inv h(1)] assms(2) by simp
  have i_in: "i \<in> set (lru (bio s))" using bc_invD(3) [OF inv] h(1) by simp
  have c: "bc_inv (H - {i}) ?c"
  proof (rule bc_inv_upd [OF inv h(1), of _ ?g])
    show "buf_ok ?c (i \<in> H - {i}) (?g (bufs (bio s) ! i))"
      using ok one assms(3) by (auto simp: buf_ok_def released_def Let_def)
    show "distinct (lru ?c)" using bc_invD(2) [OF inv] one by (simp add: released_def Let_def)
    show "set (lru ?c) = {..<NBUF}" using bc_invD(2,3) [OF inv] one i_in by (auto simp: released_def Let_def set_remove1_eq)
    show "\<not> (bdev (bufs (bio s) ! j) = bdev (?g (bufs (bio s) ! i)) \<and> bblockno (bufs (bio s) ! j) = bblockno (?g (bufs (bio s) ! i)))"
      if "j < NBUF" "j \<noteq> i" for j using that bc_invD(6) [OF inv that(1) h(1)] h(3) by auto
  qed (use assms(2) in \<open>auto simp: released_def Let_def buf_ok_def\<close>)
  have "bview ?c = bview (bio s)"
  proof (rule bview_eqI [OF inv c])
    show "disk ?c = disk (bio s)" by (simp add: released_def Let_def)
    show "bdata (bufs ?c ! j) = bview (bio s) (bblockno (bufs ?c ! j))" if "j < NBUF" "valid (bufs ?c ! j)" for j
      using that bview_cached [OF inv that(1)] by (auto simp: nth split: if_splits)
    show "bufs ?c ! j = bufs (bio s) ! j \<or> (valid (bufs ?c ! j) \<and> bblockno (bufs ?c ! j) = bblockno (bufs (bio s) ! j))" if "j < NBUF" for j
      using that h(2) by (auto simp: nth)
  qed
  moreover have "bio_inv (H - {i}) ?t"
    using assms(1,2) c by (auto simp: bio_inv_def sl_held_def sl_given_def hart_settled calmD(4))
  moreover have "bframe s ?t"
    by (auto simp: bframe_def hart_settled o_def)
  ultimately show ?thesis using run by (auto simp: nth)
qed

section \<open>The cache as a store of blocks for its clients\<close>

text \<open>What the layers above rely on: reading a block gives its contents, changing a block changes that block
  only. The number bounds how many changes are still possible, for stores that can take only so many.\<close>

primrec upd_seq :: "('b \<times> ('d \<Rightarrow> 'd)) list \<Rightarrow> ('b \<Rightarrow> 'd) \<Rightarrow> 'b \<Rightarrow> 'd" where
  "upd_seq [] v = v"
| "upd_seq (w # ws) v = upd_seq ws (v(fst w := snd w (v (fst w))))"

locale block_store =
  fixes inv :: "nat \<Rightarrow> 's \<Rightarrow> bool" and ok :: "'s \<Rightarrow> 'b \<Rightarrow> bool" and view :: "'s \<Rightarrow> 'b \<Rightarrow> 'd"
    and rd :: "'b \<Rightarrow> ('s, 'd) kmon" and wr :: "'b \<Rightarrow> ('d \<Rightarrow> 'd) \<Rightarrow> ('s, unit) kmon"
  assumes rd_law: "inv k s \<Longrightarrow> ok s b \<Longrightarrow> \<exists>t. rd b s = Done (view s b) t \<and> inv k t \<and> view t = view s \<and> ok t = ok s"
    and wr_law: "inv (Suc k) s \<Longrightarrow> ok s b \<Longrightarrow>
      \<exists>t. wr b f s = Done () t \<and> inv k t \<and> view t = (view s)(b := f (view s b)) \<and> ok t = ok s"
begin

lemma read_back:
  assumes "inv (Suc k) s" "ok s b" "ok s c"
  shows "\<exists>t. thenK (wr b f) (rd c) s = Done (if c = b then f (view s b) else view s c) t \<and> inv k t"
proof -
  obtain t where t: "wr b f s = Done () t" "inv k t" "view t = (view s)(b := f (view s b))" "ok t = ok s"
    using wr_law [OF assms(1,2)] by blast
  then show ?thesis using rd_law [OF t(2), of c] assms(3) by auto
qed

text \<open>A sequence of changes.\<close>

lemma write_seq:
  assumes "inv (length ws + k) s" "\<And>b f. (b, f) \<in> set ws \<Longrightarrow> ok s b"
  shows "\<exists>t. forK ws (\<lambda>(b, f). wr b f) s = Done () t \<and> inv k t \<and> ok t = ok s \<and>
    view t = upd_seq ws (view s)"
  using assms
proof (induction ws arbitrary: s)
  case Nil
  then show ?case by simp
next
  case (Cons w ws)
  obtain b f where w: "w = (b, f)" by fastforce
  obtain t where t: "wr b f s = Done () t" "inv (length ws + k) t" "view t = (view s)(b := f (view s b))" "ok t = ok s"
    using wr_law [of "length ws + k" s b f] Cons.prems w by auto
  have "\<exists>u. forK ws (\<lambda>(b, f). wr b f) t = Done () u \<and> inv k u \<and> ok u = ok t \<and>
    view u = upd_seq ws (view t)"
    using t Cons.prems(2) by (intro Cons.IH) auto
  then show ?case using t w by auto
qed

end

text \<open>The two idioms of the cache's clients: look at a block; change a block and write it through, as
  \<^verbatim>\<open>write_head\<close> does.\<close>

definition peek_block :: "u32 \<Rightarrow> ('z kbio_scheme, u8 list) kmon" where
  "peek_block b = bindK (bread 1 b) (\<lambda>i. bindK (buf_data i) (\<lambda>d. thenK (brelse i) (returnK d)))"

definition write_through :: "u32 \<Rightarrow> (u8 list \<Rightarrow> u8 list) \<Rightarrow> ('z kbio_scheme, unit) kmon" where
  "write_through b f = bindK (bread 1 b) (\<lambda>i. thenK (set_data i f) (thenK (bwrite i) (brelse i)))"

lemma peek_ok:
  assumes "bio_inv H s" "b < disksize (bio s)" "\<And>i. i \<in> H \<Longrightarrow> bblockno (bufs (bio s) ! i) \<noteq> b"
    "\<exists>i<NBUF. i \<notin> H \<and> \<not> dirty (bufs (bio s) ! i)"
  shows "\<exists>t. peek_block b s = Done (bview (bio s) b) t \<and> bio_inv H t \<and> bframe s t \<and> bview (bio t) = bview (bio s) \<and>
    disk (bio t) = disk (bio s) \<and> dwrites (bio t) = dwrites (bio s) \<and>
    (\<forall>j<NBUF. dirty (bufs (bio t) ! j) = dirty (bufs (bio s) ! j) \<and>
       (j \<in> H \<or> dirty (bufs (bio s) ! j) \<longrightarrow> bblockno (bufs (bio t) ! j) = bblockno (bufs (bio s) ! j)) \<and>
       (j \<in> H \<longrightarrow> bdata (bufs (bio t) ! j) = bdata (bufs (bio s) ! j)))"
proof -
  obtain i t where t: "bread 1 b s = Done i t" and p: "bread_post H s b i t" using bread_ok [OF assms] by blast
  have t': "i \<notin> H" "bio_inv (insert i H) t" "bframe s t" "bdata (bufs (bio t) ! i) = bview (bio s) b" "bview (bio t) = bview (bio s)"
    "disk (bio t) = disk (bio s)" "dwrites (bio t) = dwrites (bio s)"
    "dirty (bufs (bio t) ! i) \<or> bdata (bufs (bio t) ! i) = disk (bio t) (bblockno (bufs (bio t) ! i))"
    using p by (auto simp: bread_post_def)
  have j: "\<forall>j<NBUF. dirty (bufs (bio t) ! j) = dirty (bufs (bio s) ! j) \<and> (j \<noteq> i \<longrightarrow> bufs (bio t) ! j = bufs (bio s) ! j) \<and>
    (dirty (bufs (bio s) ! j) \<longrightarrow> bblockno (bufs (bio t) ! j) = bblockno (bufs (bio s) ! j))"
    using p by (auto simp: bread_post_def)
  obtain u where u: "brelse i t = Done () u" "bio_inv (insert i H - {i}) u" "bframe t u" "bview (bio u) = bview (bio t)"
    "disk (bio u) = disk (bio t)" "dwrites (bio u) = dwrites (bio t)"
    "\<forall>j<NBUF. bblockno (bufs (bio u) ! j) = bblockno (bufs (bio t) ! j) \<and> bdata (bufs (bio u) ! j) = bdata (bufs (bio t) ! j) \<and>
       dirty (bufs (bio u) ! j) = dirty (bufs (bio t) ! j)"
    using brelse_ok [OF t'(2) insertI1 t'(8)] by blast
  have "insert i H - {i} = H" using t'(1) by auto
  moreover have "j \<noteq> i" if "j \<in> H" for j using that t'(1) by blast
  ultimately show ?thesis
    using t t' u j bframe_trans [OF t'(3) u(3)] by (intro exI [of _ u]) (auto simp: peek_block_def buf_data_def)
qed

lemma write_through_ok:
  assumes "bio_inv {} s" "b < disksize (bio s)" "\<exists>i<NBUF. \<not> dirty (bufs (bio s) ! i)"
  shows "\<exists>t. write_through b f s = Done () t \<and> bio_inv {} t \<and> bframe s t \<and> (\<exists>i<NBUF. \<not> dirty (bufs (bio t) ! i)) \<and>
    bview (bio t) = (bview (bio s))(b := f (bview (bio s) b)) \<and> disk (bio t) = (disk (bio s))(b := f (bview (bio s) b)) \<and>
    dwrites (bio t) = dwrites (bio s) @ [(b, f (bview (bio s) b))]"
proof -
  obtain i t where t: "bread 1 b s = Done i t" and p: "bread_post {} s b i t" using bread_ok [OF assms(1,2)] assms(3) by auto
  have t': "bio_inv {i} t" "bframe s t" "bblockno (bufs (bio t) ! i) = b" "bdata (bufs (bio t) ! i) = bview (bio s) b"
    "bview (bio t) = bview (bio s)" "disk (bio t) = disk (bio s)" "dwrites (bio t) = dwrites (bio s)"
    using p by (simp_all add: bread_post_def)
  note i = held_valid(1,6) [OF t'(1), of i]
  obtain u where u: "set_data i f t = Done () u" "bio_inv {i} u" "bframe t u"
    "bview (bio u) = (bview (bio t))(b := f (bview (bio s) b))" "disk (bio u) = disk (bio t)" "dwrites (bio u) = dwrites (bio t)"
    "bufs (bio u) = upd_slot i (\<lambda>k. k\<lparr>bdata := f (bdata k)\<rparr>) (bufs (bio t))"
    using set_data_ok [OF t'(1), of i f] t'(3,4) by auto
  have ui: "bblockno (bufs (bio u) ! i) = b" "bdata (bufs (bio u) ! i) = f (bview (bio s) b)" using i t'(3,4) by (simp_all add: u(7))
  obtain v where v: "bwrite i u = Done () v" "bio_inv {i} v" "bframe u v" "bview (bio v) = bview (bio u)"
    "disk (bio v) = (disk (bio u))(b := f (bview (bio s) b))" "dwrites (bio v) = dwrites (bio u) @ [(b, f (bview (bio s) b))]"
    "\<forall>j<NBUF. bblockno (bufs (bio v) ! j) = bblockno (bufs (bio u) ! j) \<and> bdata (bufs (bio v) ! j) = bdata (bufs (bio u) ! j) \<and>
       dirty (bufs (bio v) ! j) = (j \<noteq> i \<and> dirty (bufs (bio u) ! j))"
    using bwrite_ok [OF u(2), of i] unfolding ui by blast
  have "bdata (bufs (bio v) ! i) = disk (bio v) (bblockno (bufs (bio v) ! i))" using v(5,7) i(1) ui by simp
  then obtain w where w: "brelse i v = Done () w" "bio_inv ({i} - {i}) w" "bframe v w" "bview (bio w) = bview (bio v)"
    "disk (bio w) = disk (bio v)" "dwrites (bio w) = dwrites (bio v)" "\<forall>j<NBUF. dirty (bufs (bio w) ! j) = dirty (bufs (bio v) ! j)"
    using brelse_ok [OF v(2) insertI1] by blast
  have "bframe s w" using t'(2) u(3) v(3) w(3) by (meson bframe_trans)
  moreover have "\<not> dirty (bufs (bio w) ! i)" using w(7) v(7) i(1) by simp
  ultimately show ?thesis
    using t t' u v w i by (intro exI [of _ w]) (auto simp: write_through_def simp del: dirty_iff)
qed

definition through_inv :: "nat \<Rightarrow> 'z kbio_scheme \<Rightarrow> bool" where
  "through_inv k s \<longleftrightarrow> bio_inv {} s \<and> (\<exists>i<NBUF. \<not> dirty (bufs (bio s) ! i))"

interpretation thr: block_store through_inv "\<lambda>s b. b < disksize (bio s)" "\<lambda>s. bview (bio s)" peek_block write_through
proof
  fix k b and s :: "'z kbio_scheme"
  assume ok: "b < disksize (bio s)"
  show "\<exists>t. peek_block b s = Done (bview (bio s) b) t \<and> through_inv k t \<and> bview (bio t) = bview (bio s) \<and>
    (\<lambda>b. b < disksize (bio t)) = (\<lambda>b. b < disksize (bio s))" if "through_inv k s"
    using peek_ok [of "{}" s b] that ok by (fastforce simp: through_inv_def bframe_def simp del: dirty_iff)
  show "\<exists>t. write_through b f s = Done () t \<and> through_inv k t \<and> bview (bio t) = (bview (bio s))(b := f (bview (bio s) b)) \<and>
    (\<lambda>b. b < disksize (bio t)) = (\<lambda>b. b < disksize (bio s))" if "through_inv (Suc k) s" for f
    using write_through_ok [of s b f] that ok by (fastforce simp: through_inv_def bframe_def simp del: dirty_iff)
qed

section \<open>Properties\<close>

text \<open>A concrete cache: every buffer unused, or the first one holding a modified block.\<close>

definition unused :: buf where
  "unused = \<lparr>bflags = 0, bdev = 0, bblockno = 0, brefcnt = 0, bdata = replicate 512 0\<rparr>"

definition bio0 :: biost where
  "bio0 = \<lparr>disk = (\<lambda>_. replicate 512 0), disksize = 1000, dwrites = [], bufs = replicate NBUF unused, lru = [0..<NBUF]\<rparr>"

definition bio1 :: "u32 \<Rightarrow> u8 list \<Rightarrow> biost" where
  "bio1 b d = bio0\<lparr>bufs := upd_slot 0 (\<lambda>_. \<lparr>bflags = 6, bdev = 1, bblockno = b, brefcnt = 0, bdata = d\<rparr>) (bufs bio0)\<rparr>"

definition kbio0 :: "biost \<Rightarrow> kbio" where
  "kbio0 c = \<lparr>hw = hart0, ptable = [proc0], initproc = Some 0, nextpid = 2,
     slocks = (\<lambda>_. \<lparr>sl_locked = 0, sl_name = '''', sl_pid = 0\<rparr>),
     mem = (\<lambda>_. 0), kend = 0x80120000, kdata = 0x80110000, kmem = \<lparr>use_lock = True, freelist = 0x80200000\<rparr>, bio = c\<rparr>"

lemma bits_6: "bit (6 :: u32) 1" "bit (6 :: u32) 2"
  by (simp_all add: bit_iff_odd)

lemma bc_inv_bio0: "bc_inv {} bio0"
  by (auto simp: bc_inv_def bio0_def buf_ok_def unused_def atLeast0LessThan)

lemma bc_inv_bio1: "b < 1000 \<Longrightarrow> bc_inv {} (bio1 b d)"
  using bits_6
  by (intro bc_inv_upd [OF bc_inv_bio0, of 0 _ "\<lambda>_. \<lparr>bflags = 6, bdev = 1, bblockno = b, brefcnt = 0, bdata = d\<rparr>"])
    (auto simp: bio1_def bio0_def buf_ok_def unused_def atLeast0LessThan NBUF_def MAXOPBLOCKS_def)

lemma hcalm_hart0: "hcalm (Suc n) hart0"
  by (simp add: hcalm_def)

lemma bio_inv_kbio0: "bc_inv {} c \<Longrightarrow> bio_inv {} (kbio0 c)"
  by (simp add: bio_inv_def kbio0_def hcalm_hart0)

text \<open>C9. Reading a block returns a locked buffer with the current contents of the block; no other buffer has
  the block, no buffer's contents or the contents of any block change, and the cache's invariant holds again.\<close>

theorem bread_coherent:
  assumes "bio_inv H s" "b < disksize (bio s)" "\<And>i. i \<in> H \<Longrightarrow> bblockno (bufs (bio s) ! i) \<noteq> b"
    "\<exists>i<NBUF. i \<notin> H \<and> \<not> dirty (bufs (bio s) ! i)"
  shows "\<exists>i t. bread 1 b s = Done i t \<and> i < NBUF \<and> i \<notin> H \<and> bio_inv (insert i H) t \<and> sl_held (BufLock i) (me t) t \<and>
    bdata (bufs (bio t) ! i) = bview (bio s) b \<and> bview (bio t) = bview (bio s) \<and> disk (bio t) = disk (bio s) \<and>
    (\<forall>j<NBUF. j \<noteq> i \<longrightarrow> bufs (bio t) ! j = bufs (bio s) ! j \<and> \<not> (bdev (bufs (bio t) ! j) = 1 \<and> bblockno (bufs (bio t) ! j) = b))"
proof -
  obtain i t where t: "bread 1 b s = Done i t" "bread_post H s b i t" using bread_ok [OF assms] by blast
  have p: "i < NBUF" "i \<notin> H" "bio_inv (insert i H) t" "bblockno (bufs (bio t) ! i) = b" "bdata (bufs (bio t) ! i) = bview (bio s) b"
    "bview (bio t) = bview (bio s)" "disk (bio t) = disk (bio s)" "\<forall>j<NBUF. j \<noteq> i \<longrightarrow> bufs (bio t) ! j = bufs (bio s) ! j"
    using t(2) by (auto simp: bread_post_def)
  have "bdev (bufs (bio t) ! i) = 1" using held_valid(3) [OF p(3)] by simp
  then have "\<not> (bdev (bufs (bio t) ! j) = 1 \<and> bblockno (bufs (bio t) ! j) = b)" if "j < NBUF" "j \<noteq> i" for j
    using bc_invD(6) [OF bio_invD(2) [OF p(3)] that(1) p(1)] that(2) p(4) by auto
  moreover have "sl_held (BufLock i) (me t) t" using bio_invD(3) [OF p(3)] by simp
  ultimately show ?thesis using t(1) p by blast
qed

theorem bread_coherent_witness:
  "\<exists>i t. bread 1 40 (kbio0 (bio1 40 [7])) = Done i t \<and> bdata (bufs (bio t) ! i) = [7]"
proof -
  have v: "bview (bio1 40 [7]) 40 = [7]"
    using bview_cached [OF bc_inv_bio1 [of 40 "[7]"], of 0] bits_6 by (simp add: bio1_def bio0_def NBUF_def MAXOPBLOCKS_def)
  have c: "\<exists>i<NBUF. i \<notin> {} \<and> \<not> dirty (bufs (bio (kbio0 (bio1 40 [7]))) ! i)"
    by (rule exI [of _ 1]) (simp add: kbio0_def bio1_def bio0_def unused_def NBUF_def MAXOPBLOCKS_def)
  have i: "bio_inv {} (kbio0 (bio1 40 [7]))" by (rule bio_inv_kbio0) (simp add: bc_inv_bio1)
  show ?thesis
    using bread_coherent [OF i _ _ c, of 40] v by (auto simp: kbio0_def bio1_def bio0_def)
qed

text \<open>C25. The cache as a store: after a block has been changed and written through, reading it gives the new contents and
  reading any other block gives that block's old contents.\<close>

theorem cache_read_back:
  assumes "through_inv (Suc k) s" "b < disksize (bio s)" "c < disksize (bio s)"
  shows "\<exists>t. thenK (write_through b f) (peek_block c) s = Done (if c = b then f (bview (bio s) b) else bview (bio s) c) t \<and> through_inv k t"
  using assms by (rule thr.read_back)

theorem cache_read_back_witness:
  "\<exists>t. thenK (write_through 7 (\<lambda>_. [1, 2])) (peek_block 7) (kbio0 bio0) = Done [1, 2] t"
proof -
  have "through_inv (Suc 0) (kbio0 bio0)"
    using bio_inv_kbio0 [OF bc_inv_bio0] unfolding through_inv_def
    by (intro conjI exI [of _ 0]) (simp_all add: kbio0_def bio0_def unused_def NBUF_def MAXOPBLOCKS_def)
  from cache_read_back [OF this, of 7 7 "\<lambda>_. [1, 2]"] show ?thesis by (auto simp: kbio0_def bio0_def)
qed

text \<open>Modified blocks are never evicted: when every buffer is in use or modified, reading a block that is not cached
  panics rather than recycling a buffer.\<close>

theorem bread_never_evicts:
  assumes "bio_inv H s" "slot_of (bio s) b = None" "\<And>i. i < NBUF \<Longrightarrow> i \<in> H \<or> dirty (bufs (bio s) ! i)"
  shows "bread 1 b s = Panics ''bget: no buffers''"
proof (rule bget_no_buffers [OF bio_invD(1) [OF assms(1)] assms(2)])
  show "recyclable (bio s) = None"
  proof (cases "recyclable (bio s)")
    case (Some i)
    then show ?thesis using recyclable_Some [OF bio_invD(2) [OF assms(1)] Some] assms(3) [of i] by auto
  qed simp
qed

definition bio_full :: biost where
  "bio_full = bio0\<lparr>bufs := map (\<lambda>i. \<lparr>bflags = 6, bdev = 1, bblockno = of_nat i, brefcnt = 0, bdata = [of_nat i]\<rparr>) [0..<NBUF]\<rparr>"

lemma of_nat_slot: "i < NBUF \<Longrightarrow> unat (of_nat i :: u32) = i"
  by (rule unat_of_nat_small) (simp add: NBUF_def MAXOPBLOCKS_def)

lemma bc_inv_full: "bc_inv {} bio_full"
proof -
  have "i = j" if "i < NBUF" "j < NBUF" "of_nat i = (of_nat j :: u32)" for i j
    using of_nat_slot [OF that(1)] of_nat_slot [OF that(2)] unfolding that(3) by (rule subst [of _ i])
  moreover have "(of_nat i :: u32) < 1000" if "i < NBUF" for i
    using of_nat_slot [OF that] that by (simp add: word_less_nat_alt NBUF_def MAXOPBLOCKS_def)
  ultimately show ?thesis
    using bits_6 by (auto simp: bc_inv_def bio_full_def bio0_def buf_ok_def atLeast0LessThan)
qed

theorem bread_never_evicts_witness: "bread 1 500 (kbio0 bio_full) = Panics ''bget: no buffers''"
proof (rule bread_never_evicts [OF bio_inv_kbio0 [OF bc_inv_full]])
  have "(of_nat i :: u32) \<noteq> 500" if "i < NBUF" for i
  proof
    assume "(of_nat i :: u32) = 500"
    then have "unat (of_nat i :: u32) = 500" by simp
    then show False using that of_nat_slot [OF that] by (simp add: NBUF_def MAXOPBLOCKS_def)
  qed
  then show "slot_of (bio (kbio0 bio_full)) 500 = None"
    by (auto simp: slot_of_def find_None_iff kbio0_def bio_full_def bio0_def)
  show "i \<in> {} \<or> dirty (bufs (bio (kbio0 bio_full)) ! i)" if "i < NBUF" for i
    using that bits_6 by (simp add: kbio0_def bio_full_def)
qed

end
