(* ===== verification/Xv6_Irq.thy ===== *)
theory Xv6_Irq
  imports Xv6_Mmu
begin

text \<open>
  Interrupt numbers (\<^verbatim>\<open>traps.h\<close>) and the I/O interrupt controller (\<^verbatim>\<open>ioapic.c\<close>). The controller is reached through two
  memory-mapped words, an index and a data window; its state here is the index written last and the registers behind the
  window.
\<close>

definition T_SYSCALL :: u32 where "T_SYSCALL = 64"
definition T_IRQ0 :: u32 where "T_IRQ0 = 32"
definition IRQ_TIMER :: u32 where "IRQ_TIMER = 0"
definition IRQ_KBD :: u32 where "IRQ_KBD = 1"
definition IRQ_COM1 :: u32 where "IRQ_COM1 = 4"
definition IRQ_IDE :: u32 where "IRQ_IDE = 14"
definition IRQ_ERROR :: u32 where "IRQ_ERROR = 19"
definition IRQ_SPURIOUS :: u32 where "IRQ_SPURIOUS = 31"

lemmas irq_defs = T_SYSCALL_def T_IRQ0_def IRQ_TIMER_def IRQ_KBD_def IRQ_COM1_def IRQ_IDE_def IRQ_ERROR_def IRQ_SPURIOUS_def

definition REG_ID :: u32 where "REG_ID = 0"
definition REG_VER :: u32 where "REG_VER = 1"
definition REG_TABLE :: u32 where "REG_TABLE = 0x10"
definition INT_DISABLED :: u32 where "INT_DISABLED = 0x10000"

record ioapic =
  io_reg :: u32
  io_regs :: "u32 \<Rightarrow> u32"

definition ioapicread :: "u32 \<Rightarrow> ioapic \<Rightarrow> u32 \<times> ioapic" where
  "ioapicread r a = (let a' = a\<lparr>io_reg := r\<rparr> in (io_regs a' (io_reg a'), a'))"

definition ioapicwrite :: "u32 \<Rightarrow> u32 \<Rightarrow> ioapic \<Rightarrow> ioapic" where
  "ioapicwrite r v a = (let a' = a\<lparr>io_reg := r\<rparr> in a'\<lparr>io_regs := (io_regs a')(io_reg a' := v)\<rparr>)"

definition ioapic_mask :: "u32 \<Rightarrow> ioapic \<Rightarrow> ioapic" where
  "ioapic_mask i a = ioapicwrite (REG_TABLE + 2 * i + 1) 0 (ioapicwrite (REG_TABLE + 2 * i) (INT_DISABLED OR (T_IRQ0 + i)) a)"

text \<open>The result tells whether the identification differs from the one in the multiprocessor tables, in which case the
  code prints a warning.\<close>

definition ioapicinit :: "u8 \<Rightarrow> ioapic \<Rightarrow> bool \<times> ioapic" where
  "ioapicinit ioapicid a =
     (let (v, a1) = ioapicread REG_VER a; maxintr = drop_bit 16 v AND 0xFF;
          (w, a2) = ioapicread REG_ID a1; ident = drop_bit 24 w
      in (ident \<noteq> ucast ioapicid, fold (\<lambda>i. ioapic_mask (of_nat i)) [0..<unat maxintr + 1] a2))"

definition ioapicenable :: "u32 \<Rightarrow> u32 \<Rightarrow> ioapic \<Rightarrow> ioapic" where
  "ioapicenable irq cpunum a =
     ioapicwrite (REG_TABLE + 2 * irq + 1) (push_bit 24 cpunum) (ioapicwrite (REG_TABLE + 2 * irq) (T_IRQ0 + irq) a)"

end
