(* ===== verification/Xv6_Ide.thy ===== *)
theory Xv6_Ide
  imports Xv6_Bio Xv6_Irq Ata
begin

text \<open>
  The disk driver that programs a real drive (\<^verbatim>\<open>ide.c\<close>), the alternative to \<^verbatim>\<open>memide.c\<close> in \<^verbatim>\<open>Xv6_Bio\<close>; the functions have the suffix
  \<open>_pio\<close> here. The request queue is linked through \<^verbatim>\<open>qnext\<close> as in the code. The drive is the parameter of \<^verbatim>\<open>Ata\<close>. The theorems
  show that requests are served in the order of their arrival with the effect that \<^verbatim>\<open>memide.c\<close> has at once.
\<close>

section \<open>State\<close>

definition SECTOR_SIZE :: nat where "SECTOR_SIZE = 512"
definition IDE_BSY :: u8 where "IDE_BSY = 0x80"
definition IDE_DRDY :: u8 where "IDE_DRDY = 0x40"
definition IDE_DF :: u8 where "IDE_DF = 0x20"
definition IDE_ERR :: u8 where "IDE_ERR = 0x01"
definition IDE_CMD_READ :: u8 where "IDE_CMD_READ = 0x20"
definition IDE_CMD_WRITE :: u8 where "IDE_CMD_WRITE = 0x30"
definition IDE_CMD_RDMUL :: u8 where "IDE_CMD_RDMUL = 0xC4"
definition IDE_CMD_WRMUL :: u8 where "IDE_CMD_WRMUL = 0xC5"

record 'd idest =
  idequeue :: "nat option"
  qnext :: "nat \<Rightarrow> nat option"
  havedisk1 :: bool
  drv :: 'd
  ioap :: ioapic

record 'd kide = kbio +
  ide :: "'d idest"

definition getI :: "('d idest \<Rightarrow> 'a) \<Rightarrow> (('d, 'z) kide_scheme, 'a) kmon" where
  "getI f = getK (\<lambda>s. f (ide s))"

definition modI :: "('d idest \<Rightarrow> 'd idest) \<Rightarrow> (('d, 'z) kide_scheme, unit) kmon" where
  "modI f = modK (\<lambda>s. s\<lparr>ide := f (ide s)\<rparr>)"

definition port_out :: "'d ata \<Rightarrow> u32 \<Rightarrow> u8 \<Rightarrow> (('d, 'z) kide_scheme, unit) kmon" where
  "port_out A p v = modI (\<lambda>i. i\<lparr>drv := ata_outb A p v (drv i)\<rparr>)"

section \<open>Operations\<close>

text \<open>The wait for the drive; its polling loop is \<open>poll\<close>, whose mask 0xC0 is \<^verbatim>\<open>IDE_BSY|IDE_DRDY\<close>.\<close>

definition idewait :: "'d ata \<Rightarrow> bool \<Rightarrow> (('d, 'z) kide_scheme, int) kmon" where
  "idewait A checkerr = (\<lambda>s.
     case poll A (drv (ide s)) of
       None \<Rightarrow> Spins s
     | Some (r, d) \<Rightarrow> Done (if checkerr \<and> r AND (IDE_DF OR IDE_ERR) \<noteq> 0 then -1 else 0) (s\<lparr>ide := (ide s)\<lparr>drv := d\<rparr>\<rparr>))"

primrec probe_disk1 :: "'d ata \<Rightarrow> nat \<Rightarrow> 'd idest \<Rightarrow> 'd idest" where
  "probe_disk1 A 0 i = i"
| "probe_disk1 A (Suc n) i =
     (let (r, d) = ata_inb A 0x1F7 (drv i); i' = i\<lparr>drv := d\<rparr>
      in if r \<noteq> 0 then i'\<lparr>havedisk1 := True\<rparr> else probe_disk1 A n i')"

definition ideinit_pio :: "'d ata \<Rightarrow> nat \<Rightarrow> (('d, 'z) kide_scheme, unit) kmon" where
  "ideinit_pio A ncpu =
     thenK (initlock IdeLock ''ide'') (
     thenK (modI (\<lambda>i. i\<lparr>ioap := ioapicenable IRQ_IDE (of_int (int ncpu - 1)) (ioap i)\<rparr>)) (
     thenK (bindK (idewait A False) (\<lambda>_. returnK ())) (
     thenK (port_out A 0x1F6 (0xE0 OR push_bit 4 1)) (
     thenK (modI (probe_disk1 A 1000))
           (port_out A 0x1F6 (0xE0 OR push_bit 4 0))))))"

definition idestart :: "'d ata \<Rightarrow> nat option \<Rightarrow> (('d, 'z) kide_scheme, unit) kmon" where
  "idestart A b' =
     (case b' of None \<Rightarrow> panicK ''idestart'' | Some b \<Rightarrow>
      bindK (getB (\<lambda>s. bufs s ! b)) (\<lambda>k.
      if bblockno k \<ge> of_nat FSSIZE then panicK ''incorrect blockno'' else
      let sector_per_block = BSIZE div SECTOR_SIZE;
          sector = bblockno k * of_nat sector_per_block;
          read_cmd = if sector_per_block = 1 then IDE_CMD_READ else IDE_CMD_RDMUL;
          write_cmd = if sector_per_block = 1 then IDE_CMD_WRITE else IDE_CMD_WRMUL
      in
      if sector_per_block > 7 then panicK ''idestart'' else
      thenK (bindK (idewait A False) (\<lambda>_. returnK ())) (
      thenK (port_out A 0x3F6 0) (
      thenK (port_out A 0x1F2 (of_nat sector_per_block)) (
      thenK (port_out A 0x1F3 (ucast (sector AND 0xFF))) (
      thenK (port_out A 0x1F4 (ucast (drop_bit 8 sector AND 0xFF))) (
      thenK (port_out A 0x1F5 (ucast (drop_bit 16 sector AND 0xFF))) (
      thenK (port_out A 0x1F6 (ucast (0xE0 OR push_bit 4 (bdev k AND 1) OR (drop_bit 24 sector AND 0xF)))) (
      if bflags k AND B_DIRTY \<noteq> 0 then
        thenK (port_out A 0x1F7 write_cmd)
              (modI (\<lambda>i. i\<lparr>drv := ata_outsl A 0x1F0 (take (4 * (BSIZE div 4)) (bdata k)) (drv i)\<rparr>))
      else
        port_out A 0x1F7 read_cmd)))))))))"

definition insl_buf :: "'d ata \<Rightarrow> nat \<Rightarrow> (('d, 'z) kide_scheme, unit) kmon" where
  "insl_buf A b =
     bindK (getI (\<lambda>i. ata_insl A 0x1F0 (BSIZE div 4) (drv i))) (\<lambda>(xs, d).
     thenK (modI (\<lambda>i. i\<lparr>drv := d\<rparr>))
           (set_data b (\<lambda>_. xs)))"

definition ideintr_pio :: "'d ata \<Rightarrow> (('d, 'z) kide_scheme, unit) kmon" where
  "ideintr_pio A =
     thenK (acquire IdeLock) (
     bindK (getI idequeue) (\<lambda>q.
     case q of
       None \<Rightarrow> release IdeLock
     | Some b \<Rightarrow>
         thenK (modI (\<lambda>i. i\<lparr>idequeue := qnext i b\<rparr>)) (
         bindK (getB (\<lambda>s. bflags (bufs s ! b))) (\<lambda>f.
         thenK (whenK (f AND B_DIRTY = 0) (bindK (idewait A True) (\<lambda>r. whenK (r \<ge> 0) (insl_buf A b)))) (
         thenK (mod_buf b (bflags_update (\<lambda>f. f OR B_VALID))) (
         thenK (mod_buf b (bflags_update (\<lambda>f. f AND NOT B_DIRTY))) (
         thenK (wakeup (Some (BufChan b))) (
         bindK (getI idequeue) (\<lambda>q'.
         thenK (whenK (q' \<noteq> None) (idestart A q'))
               (release IdeLock)))))))))) "

text \<open>The pointer \<^verbatim>\<open>pp\<close> of the insertion loop points to the head of the queue or to the \<^verbatim>\<open>qnext\<close> field of a buffer. The loop does not
  end on a queue with a cycle.\<close>

datatype qptr = Qhead | Qnext nat

definition qderef :: "'d idest \<Rightarrow> qptr \<Rightarrow> nat option" where
  "qderef i pp = (case pp of Qhead \<Rightarrow> idequeue i | Qnext b \<Rightarrow> qnext i b)"

definition assign :: "qptr \<Rightarrow> nat option \<Rightarrow> 'd idest \<Rightarrow> 'd idest" where
  "assign pp v i = (case pp of Qhead \<Rightarrow> i\<lparr>idequeue := v\<rparr> | Qnext b \<Rightarrow> i\<lparr>qnext := (qnext i)(b := v)\<rparr>)"

partial_function (option) queue_end :: "'d idest \<Rightarrow> qptr \<Rightarrow> qptr option" where
  "queue_end i pp = (case qderef i pp of None \<Rightarrow> Some pp | Some b \<Rightarrow> queue_end i (Qnext b))"

definition append_queue :: "nat \<Rightarrow> (('d, 'z) kide_scheme, unit) kmon" where
  "append_queue b = (\<lambda>s.
     let i = (ide s)\<lparr>qnext := (qnext (ide s))(b := None)\<rparr>
     in case queue_end i Qhead of None \<Rightarrow> Spins s | Some pp \<Rightarrow> Done () (s\<lparr>ide := assign pp (Some b) i\<rparr>))"

text \<open>The wait at the end, and what follows it; a process that slept there comes back to \<open>iderw_resume\<close>.\<close>

definition iderw_wait :: "nat \<Rightarrow> (('d, 'z) kide_scheme, unit) kmon" where
  "iderw_wait b =
     bindK (getB (\<lambda>s. bflags (bufs s ! b))) (\<lambda>f.
     if f AND (B_VALID OR B_DIRTY) \<noteq> B_VALID then sleep (Some (BufChan b)) (Some IdeLock)
     else release IdeLock)"

definition iderw_pio :: "'d ata \<Rightarrow> nat \<Rightarrow> (('d, 'z) kide_scheme, unit) kmon" where
  "iderw_pio A b =
     bindK (holdingsleep (BufLock b)) (\<lambda>h.
     if \<not> h then panicK ''iderw: buf not locked'' else
     bindK (getB (\<lambda>s. bufs s ! b)) (\<lambda>k.
     if bflags k AND (B_VALID OR B_DIRTY) = B_VALID then panicK ''iderw: nothing to do'' else
     bindK (getI havedisk1) (\<lambda>h1.
     if bdev k \<noteq> 0 \<and> \<not> h1 then panicK ''iderw: ide disk 1 not present'' else
     thenK (acquire IdeLock) (
     thenK (append_queue b) (
     bindK (getI idequeue) (\<lambda>q.
     thenK (whenK (q = Some b) (idestart A (Some b)))
           (iderw_wait b)))))))"

definition iderw_resume :: "nat \<Rightarrow> nat \<Rightarrow> bool \<Rightarrow> (('d, 'z) kide_scheme, unit) kmon" where
  "iderw_resume p b i = thenK (sleep_resume p IdeLock i) (iderw_wait b)"

section \<open>Programming the drive\<close>

lemma getI_run [simp]: "getI f s = Done (f (ide s)) s"
  by (simp add: getI_def)

lemma modI_run [simp]: "modI f s = Done () (s\<lparr>ide := f (ide s)\<rparr>)"
  by (simp add: modI_def)

definition polled :: "'d ata \<Rightarrow> 'd \<Rightarrow> 'd" where
  "polled A d = snd (the (poll A d))"

lemma idewait_run:
  assumes "ata_drive A V"
  shows "idewait A ce s = Done 0 (s\<lparr>ide := (ide s)\<lparr>drv := polled A (drv (ide s))\<rparr>\<rparr>)" "same_view V d (polled A d)"
proof -
  obtain r d' where "poll A (drv (ide s)) = Some (r, d')" "r AND 0x21 = 0" using poll_ends [OF assms] by blast
  then show "idewait A ce s = Done 0 (s\<lparr>ide := (ide s)\<lparr>drv := polled A (drv (ide s))\<rparr>\<rparr>)"
    by (simp add: idewait_def polled_def IDE_DF_def IDE_ERR_def)
  show "same_view V d (polled A d)" using poll_ends [OF assms, of d] by (auto simp: polled_def)
qed

definition regs_set :: "'d ata \<Rightarrow> buf \<Rightarrow> 'd \<Rightarrow> 'd" where
  "regs_set A k d =
     ata_outb A 0x1F6 (ucast (0xE0 OR push_bit 4 (bdev k AND 1) OR (drop_bit 24 (bblockno k) AND 0xF)))
      (ata_outb A 0x1F5 (ucast (drop_bit 16 (bblockno k) AND 0xFF))
      (ata_outb A 0x1F4 (ucast (drop_bit 8 (bblockno k) AND 0xFF))
      (ata_outb A 0x1F3 (ucast (bblockno k AND 0xFF)) (ata_outb A 0x1F2 1 (ata_outb A 0x3F6 0 (polled A d))))))"

definition startd :: "'d ata \<Rightarrow> buf \<Rightarrow> 'd \<Rightarrow> 'd" where
  "startd A k d =
     (if bflags k AND B_DIRTY \<noteq> 0 then ata_outsl A 0x1F0 (take 512 (bdata k)) (ata_outb A 0x1F7 0x30 (regs_set A k d))
      else ata_outb A 0x1F7 0x20 (regs_set A k d))"

lemma idestart_run:
  assumes "ata_drive A V" "bblockno (bufs (bio s) ! b) < of_nat FSSIZE"
  shows "idestart A (Some b) s = Done () (s\<lparr>ide := (ide s)\<lparr>drv := startd A (bufs (bio s) ! b) (drv (ide s))\<rparr>\<rparr>)"
  using assms(2)
  by (simp add: idestart_def idewait_run(1) [OF assms(1)] port_out_def startd_def regs_set_def SECTOR_SIZE_def BSIZE_def
      IDE_CMD_READ_def IDE_CMD_WRITE_def Let_def not_le [symmetric])

text \<open>The registers select the drive and the block of the request.\<close>

lemma regs_set_view:
  assumes "ata_drive A V" "bblockno k < of_nat FSSIZE"
  shows "sectors V (regs_set A k d) = sectors V d" "taskfile V (regs_set A k d) 0x1F2 = 1" "sel_lba (taskfile V (regs_set A k d))"
    "sel_drive (taskfile V (regs_set A k d)) = bdev k AND 1" "sel_sector (taskfile V (regs_set A k d)) = bblockno k"
proof -
  let ?d = "ata_outb A 0x3F6 0 (polled A d)"
  have v: "same_view V d ?d" using idewait_run(2) [OF assms(1)] ata_control [OF assms(1)] by (fastforce simp: same_view_def)
  note r = ata_reg [OF assms(1)]
  show "sectors V (regs_set A k d) = sectors V d" using v by (simp add: regs_set_def r same_view_def)
  have t: "taskfile V (regs_set A k d) = (taskfile V ?d)(0x1F2 := 1, 0x1F3 := ucast (bblockno k AND 0xFF), 0x1F4 := ucast (drop_bit 8 (bblockno k) AND 0xFF),
      0x1F5 := ucast (drop_bit 16 (bblockno k) AND 0xFF), 0x1F6 := ucast (0xE0 OR push_bit 4 (bdev k AND 1) OR (drop_bit 24 (bblockno k) AND 0xF)))"
    by (simp add: regs_set_def r)
  then show "taskfile V (regs_set A k d) 0x1F2 = 1" by simp
  have m: "(0xFF :: u32) = mask 8" "(0xF :: u32) = mask 4" "(1 :: u32) = mask 1" "(0xE0 :: u32) = push_bit 5 (mask 3)"
    by (simp_all add: mask_eq_exp_minus_1)
  have "bit (ucast (0xE0 OR push_bit 4 (bdev k AND 1) OR (drop_bit 24 (bblockno k) AND 0xF)) AND 0x40 :: u8) 6"
    unfolding m by (simp add: bit_simps)
  then show "sel_lba (taskfile V (regs_set A k d))" by (auto simp: sel_lba_def t)
  show "sel_drive (taskfile V (regs_set A k d)) = bdev k AND 1"
    unfolding sel_drive_def t m by (rule bit_word_eqI) (auto simp: bit_simps)
  have u: "ucast (x AND 0xFF) = (ucast x :: u8)" for x :: u32
    unfolding m by (rule bit_word_eqI) (auto simp: bit_simps)
  have "ucast (ucast (0xE0 OR push_bit 4 (bdev k AND 1) OR (drop_bit 24 (bblockno k) AND 0xF)) :: u8) AND (0xF :: u32) = drop_bit 24 (bblockno k) AND 0xF"
    unfolding m by (rule bit_word_eqI) (auto simp: bit_simps)
  moreover have "bblockno k < 2 ^ 28" using assms(2) by (simp add: FSSIZE_def word_less_nat_alt)
  ultimately show "sel_sector (taskfile V (regs_set A k d)) = bblockno k"
    by (intro sel_sector_bytes) (simp_all add: t u)
qed

section \<open>Serving a request\<close>

text \<open>What one request does to the disks and to its buffer.\<close>

definition after_write :: "buf \<Rightarrow> (u32 \<Rightarrow> u32 \<Rightarrow> u8 list) \<Rightarrow> u32 \<Rightarrow> u32 \<Rightarrow> u8 list" where
  "after_write k c = (if dirty k then c(bdev k AND 1 := (c (bdev k AND 1))(bblockno k := bdata k)) else c)"

definition served :: "(u32 \<Rightarrow> u32 \<Rightarrow> u8 list) \<Rightarrow> buf \<Rightarrow> buf" where
  "served c k = k\<lparr>bflags := (bflags k OR B_VALID) AND NOT B_DIRTY, bdata := (if dirty k then bdata k else c (bdev k AND 1) (bblockno k))\<rparr>"

text \<open>The queue as the list of its buffers.\<close>

primrec qlist :: "'d idest \<Rightarrow> nat option \<Rightarrow> nat list \<Rightarrow> bool" where
  "qlist i q [] \<longleftrightarrow> q = None"
| "qlist i q (b # bs) \<longleftrightarrow> q = Some b \<and> qlist i (qnext i b) bs"

text \<open>A buffer the driver has something to do for; what is to be written is a block of \<^verbatim>\<open>BSIZE\<close> bytes, as \<^verbatim>\<open>data\<close> in \<^verbatim>\<open>buf.h\<close>.\<close>

definition request :: "buf \<Rightarrow> bool" where
  "request k \<longleftrightarrow> bblockno k < of_nat FSSIZE \<and> bflags k AND (B_VALID OR B_DIRTY) \<noteq> B_VALID \<and> (dirty k \<longrightarrow> length (bdata k) = BSIZE)"

text \<open>The state of the driver when the disks hold \<open>c\<close> and the requests \<open>q\<close> are waiting: the drive works on the first one; if it is a
  write, the data is already there.\<close>

definition pio :: "'d ata_view \<Rightarrow> ('d, 'z) kide_scheme \<Rightarrow> (u32 \<Rightarrow> u32 \<Rightarrow> u8 list) \<Rightarrow> nat list \<Rightarrow> bool" where
  "pio V s c q \<longleftrightarrow> qlist (ide s) (idequeue (ide s)) q \<and> distinct q \<and> (\<forall>b\<in>set q. b < length (bufs (bio s)) \<and> request (bufs (bio s) ! b)) \<and>
     (case q of [] \<Rightarrow> sectors V (drv (ide s)) = c
      | b # _ \<Rightarrow> let k = bufs (bio s) ! b
        in sectors V (drv (ide s)) = after_write k c \<and> (\<not> dirty k \<longrightarrow> phase_of V (drv (ide s)) = Reading (bdev k AND 1) (bblockno k)))"

lemma startd_view:
  assumes "ata_drive A V" "request k"
  shows "sectors V (startd A k d) = after_write k (sectors V d)"
    "\<not> dirty k \<Longrightarrow> phase_of V (startd A k d) = Reading (bdev k AND 1) (bblockno k)"
proof -
  note v = regs_set_view [OF assms(1), of k]
  have b: "bblockno k < of_nat FSSIZE" "dirty k \<Longrightarrow> length (bdata k) = 512" using assms(2) by (simp_all add: request_def BSIZE_def)
  show "sectors V (startd A k d) = after_write k (sectors V d)"
    using v [OF b(1), of d] b(2) ata_read [OF assms(1) v(2,3) [OF b(1)]] ata_write [OF assms(1) v(2,3) [OF b(1)]] ata_data_out [OF assms(1)]
    by (simp add: startd_def after_write_def)
  show "phase_of V (startd A k d) = Reading (bdev k AND 1) (bblockno k)" if "\<not> dirty k"
    using that v [OF b(1), of d] ata_read [OF assms(1) v(2,3) [OF b(1)]] by (simp add: startd_def)
qed

lemma qlist_cong: "\<forall>b\<in>set bs. qnext i b = qnext j b \<Longrightarrow> qlist i q bs = qlist j q bs"
  by (induction bs arbitrary: q) simp_all

lemma qlist_end:
  assumes "qlist i (qderef i pp) bs"
  shows "queue_end i pp = Some (if bs = [] then pp else Qnext (last bs))"
  using assms
proof (induction bs arbitrary: pp)
  case Nil
  then show ?case by (simp add: queue_end.simps)
next
  case (Cons b bs)
  then show ?case using Cons.IH [of "Qnext b"] by (subst queue_end.simps) (simp add: qderef_def)
qed

text \<open>Inserting at the end of the queue.\<close>

definition queued :: "nat \<Rightarrow> nat list \<Rightarrow> 'd idest \<Rightarrow> 'd idest" where
  "queued b q i = assign (if q = [] then Qhead else Qnext (last q)) (Some b) (i\<lparr>qnext := (qnext i)(b := None)\<rparr>)"

lemma append_queue_run:
  assumes "qlist (ide s) (idequeue (ide s)) q" "b \<notin> set q"
  shows "append_queue b s = Done () (s\<lparr>ide := queued b q (ide s)\<rparr>)"
proof -
  let ?i = "(ide s)\<lparr>qnext := (qnext (ide s))(b := None)\<rparr>"
  have "qlist ?i (idequeue (ide s)) q" using assms qlist_cong [of q ?i "ide s"] by simp
  then have "queue_end ?i Qhead = Some (if q = [] then Qhead else Qnext (last q))" by (intro qlist_end) (simp add: qderef_def)
  then show ?thesis by (simp add: append_queue_def queued_def)
qed

lemma qlist_snoc:
  assumes "qlist i q0 q" "distinct q" "b \<notin> set q"
  shows "qlist (queued b q i) (if q = [] then Some b else q0) (q @ [b])"
  using assms
proof (induction q arbitrary: q0)
  case Nil
  then show ?case by (simp add: queued_def assign_def)
next
  case (Cons a q)
  show ?case
  proof (cases "q = []")
    case True
    then show ?thesis using Cons.prems by (simp add: queued_def assign_def)
  next
    case False
    then have "queued b (a # q) i = queued b q i" by (simp add: queued_def)
    moreover have "qnext (queued b q i) a = qnext i a" using Cons.prems False by (auto simp: queued_def assign_def)
    ultimately show ?thesis using Cons False by simp
  qed
qed

lemma queued_simps [simp]:
  "idequeue (queued b q i) = (if q = [] then Some b else idequeue i)" "drv (queued b q i) = drv i" "havedisk1 (queued b q i) = havedisk1 i"
  by (simp_all add: queued_def assign_def)

section \<open>The interrupt\<close>

definition intr_ready :: "'z kcpu_scheme \<Rightarrow> bool" where
  "intr_ready s \<longleftrightarrow> cpu_ok (hw s) \<and> lock_free IdeLock (hw s) \<and> lock_free PtableLock (hw s)"

definition finished :: "'d ata \<Rightarrow> nat \<Rightarrow> ('d, 'z) kide_scheme \<Rightarrow> 'd" where
  "finished A b s = (let d = drv (ide s) in if dirty (bufs (bio s) ! b) then d else snd (ata_insl A 0x1F0 128 (polled A d)))"

lemma finished_view:
  assumes "ata_drive A V" "pio V s c (b # q)"
  shows "sectors V (finished A b s) = after_write (bufs (bio s) ! b) c"
    "\<not> dirty (bufs (bio s) ! b) \<Longrightarrow> fst (ata_insl A 0x1F0 128 (polled A (drv (ide s)))) = c (bdev (bufs (bio s) ! b) AND 1) (bblockno (bufs (bio s) ! b))"
  using assms(2) idewait_run(2) [OF assms(1), of "drv (ide s)"] ata_data_in [OF assms(1)]
  by (auto simp: finished_def pio_def Let_def same_view_def after_write_def)

lemma served_upd:
  "k\<lparr>bdata := d, bflags := (bflags k OR B_VALID) AND NOT B_DIRTY\<rparr> = k\<lparr>bflags := (bflags k OR B_VALID) AND NOT B_DIRTY, bdata := d\<rparr>"
  by simp

lemma ideintr_run:
  fixes s :: "('d, 'z) kide_scheme"
  assumes "ata_drive A V" "pio V s c (b # q)" "intr_ready s"
  shows "ideintr_pio A s = Done () (s\<lparr>hw := settle (hw s), ptable := map (wake (Some (BufChan b))) (ptable s),
    bio := (bio s)\<lparr>bufs := upd_slot b (\<lambda>_. served c (bufs (bio s) ! b)) (bufs (bio s))\<rparr>,
    ide := (ide s)\<lparr>idequeue := qnext (ide s) b,
      drv := (if q = [] then finished A b s else startd A (bufs (bio s) ! hd q) (finished A b s))\<rparr>\<rparr>)"
proof -
  let ?k = "bufs (bio s) ! b"
  have b: "idequeue (ide s) = Some b" "b < length (bufs (bio s))" "qlist (ide s) (qnext (ide s) b) q" "b \<notin> set q"
    using assms(2) by (simp_all add: pio_def)
  have n: "q = [] \<longleftrightarrow> qnext (ide s) b = None" "q \<noteq> [] \<Longrightarrow> qnext (ide s) b = Some (hd q)" "q \<noteq> [] \<Longrightarrow> hd q \<noteq> b"
    using b(3,4) by (cases q; auto)+
  have blk: "q \<noteq> [] \<Longrightarrow> bblockno (bufs (bio s) ! hd q) < of_nat FSSIZE" using assms(2) by (cases q) (auto simp: pio_def request_def)
  have h: "cpu_ok (hw s)" "lock_free IdeLock (hw s)" "lock_free PtableLock (hw s)" "0 \<le> depth (hw s)"
    using assms(3) cpu_okD(3) [of "hw s"] by (simp_all add: intr_ready_def)
  have d: "\<not> dirty ?k \<Longrightarrow> fst (ata_insl A 0x1F0 128 (polled A (drv (ide s)))) = c (bdev ?k AND 1) (bblockno ?k)"
    using finished_view(2) [OF assms(1,2)] .
  have w: "upd_slot b (bflags_update (\<lambda>f. f AND NOT B_DIRTY) \<circ> bflags_update (\<lambda>f. f OR B_VALID)) (bufs (bio s)) = upd_slot b (\<lambda>_. served c ?k) (bufs (bio s))"
    if "dirty ?k" using that by (intro upd_slot_cong) (simp add: served_def)
  have r: "upd_slot b (bflags_update (\<lambda>f. f AND NOT B_DIRTY) \<circ> (bflags_update (\<lambda>f. f OR B_VALID) \<circ> (\<lambda>k. k\<lparr>bdata := c (bdev ?k AND 1) (bblockno ?k)\<rparr>))) (bufs (bio s))
      = upd_slot b (\<lambda>_. served c ?k) (bufs (bio s))"
    if "\<not> dirty ?k" using that by (intro upd_slot_cong) (simp add: served_def)
  let ?i = "(ide s)\<lparr>idequeue := qnext (ide s) b, drv := (if q = [] then finished A b s else startd A (bufs (bio s) ! hd q) (finished A b s))\<rparr>"
  let ?b = "(bio s)\<lparr>bufs := upd_slot b (\<lambda>_. served c ?k) (bufs (bio s))\<rparr>"
  let ?t = "s\<lparr>hw := settle (hw s), ide := ?i, bio := ?b, ptable := map (wake (Some (BufChan b))) (ptable s)\<rparr>"
  have "ideintr_pio A s = Done () ?t"
  proof (cases "q = []")
    case True
    then show ?thesis using h b n d w r
      by (cases "dirty ?k") (simp_all add: ideintr_pio_def run_simps mod_buf_def idewait_run(1) [OF assms(1)] insl_buf_def set_data_def
        BSIZE_def finished_def split_def)
  next
    case False
    then show ?thesis using h b n d w r blk
      by (cases "dirty ?k") (simp_all add: ideintr_pio_def run_simps mod_buf_def idewait_run(1) [OF assms(1)] insl_buf_def set_data_def
        BSIZE_def finished_def split_def nth_upd_slot idestart_run [OF assms(1)])
  qed
  moreover have "?t = s\<lparr>hw := settle (hw s), ptable := map (wake (Some (BufChan b))) (ptable s), bio := ?b, ide := ?i\<rparr>"
    by (rule kide.equality) simp_all
  ultimately show ?thesis by (simp only:)
qed

lemma pio_next:
  assumes "ata_drive A V" "pio V s c (b # q)" "ideintr_pio A s = Done () t" "intr_ready s"
  shows "pio V t (after_write (bufs (bio s) ! b) c) q" "intr_ready t"
    "bufs (bio t) = (bufs (bio s))[b := served c (bufs (bio s) ! b)]" "ptable t = map (wake (Some (BufChan b))) (ptable s)"
proof -
  have t: "t = s\<lparr>hw := settle (hw s), ptable := map (wake (Some (BufChan b))) (ptable s),
    bio := (bio s)\<lparr>bufs := upd_slot b (\<lambda>_. served c (bufs (bio s) ! b)) (bufs (bio s))\<rparr>,
    ide := (ide s)\<lparr>idequeue := qnext (ide s) b,
      drv := (if q = [] then finished A b s else startd A (bufs (bio s) ! hd q) (finished A b s))\<rparr>\<rparr>"
    using assms(3) ideintr_run [OF assms(1,2,4)] by simp
  have q: "qlist (ide s) (qnext (ide s) b) q" "distinct q" "b \<notin> set q"
    "\<And>a. a \<in> set q \<Longrightarrow> a < length (bufs (bio s)) \<and> request (bufs (bio s) ! a)"
    using assms(2) by (simp_all add: pio_def)
  have n: "bufs (bio t) ! a = bufs (bio s) ! a" if "a \<in> set q" for a
  proof -
    have "b \<noteq> a" using q(3) that by blast
    then show ?thesis by (simp add: t)
  qed
  have l: "qlist (ide t) (idequeue (ide t)) q" using q(1) qlist_cong [of q "ide t" "ide s"] by (simp add: t)
  note v = finished_view(1) [OF assms(1,2)]
  show "pio V t (after_write (bufs (bio s) ! b) c) q"
  proof (cases q)
    case Nil
    then show ?thesis using l v by (simp add: pio_def) (simp add: t)
  next
    case (Cons a r)
    have "drv (ide t) = startd A (bufs (bio t) ! a) (finished A b s)" using n [of a] Cons by (simp add: t)
    then show ?thesis using l q(2,4) n v startd_view [OF assms(1)] Cons
      by (simp add: pio_def Let_def) (auto simp: t)
  qed
  show "intr_ready t" using assms(4) by (simp add: intr_ready_def t)
  show "bufs (bio t) = (bufs (bio s))[b := served c (bufs (bio s) ! b)]" "ptable t = map (wake (Some (BufChan b))) (ptable s)"
    by (simp_all add: t upd_slot_def)
qed

primrec serve_all :: "nat list \<Rightarrow> (u32 \<Rightarrow> u32 \<Rightarrow> u8 list) \<Rightarrow> buf list \<Rightarrow> (u32 \<Rightarrow> u32 \<Rightarrow> u8 list) \<times> buf list" where
  "serve_all [] c bs = (c, bs)"
| "serve_all (b # q) c bs = serve_all q (after_write (bs ! b) c) (bs[b := served c (bs ! b)])"

text \<open>C32. Disk requests are served in the order of their arrival, and all of them: with the requests \<open>q\<close> in the queue of the driver,
  as many interrupts of the drive empty it; each read finds the contents left by the writes before it in the queue, each
  write is on the disk, each buffer is marked valid and clean, and whoever sleeps on one of the buffers is woken.\<close>

theorem ide_serves_in_order:
  assumes "ata_drive A V" "pio V s c q" "intr_ready s"
  shows "\<exists>t. forK q (\<lambda>_. ideintr_pio A) s = Done () t \<and> pio V t (fst (serve_all q c (bufs (bio s)))) [] \<and>
    bufs (bio t) = snd (serve_all q c (bufs (bio s))) \<and> ptable t = fold (\<lambda>b. map (wake (Some (BufChan b)))) q (ptable s)"
  using assms(2,3)
proof (induction q arbitrary: s c)
  case Nil
  then show ?case by simp
next
  case (Cons b q)
  obtain t where t: "ideintr_pio A s = Done () t" using ideintr_run [OF assms(1) Cons.prems] by blast
  show ?case using Cons.IH [OF pio_next(1,2) [OF assms(1) Cons.prems(1) t Cons.prems(2)]] t pio_next(3,4) [OF assms(1) Cons.prems(1) t Cons.prems(2)] by auto
qed

section \<open>A request\<close>

text \<open>A request joins the queue, is started if the drive has nothing else to do, and its process sleeps on the buffer.\<close>

lemma iderw_run:
  assumes "ata_drive A V" "calm s" "me s = p" "sl_held (BufLock b) p s" "request (bufs (bio s) ! b)" "bdev (bufs (bio s) ! b) = 0 \<or> havedisk1 (ide s)"
    "pio V s c q" "b \<notin> set q"
  shows "iderw_pio A b s = Sleeps (s\<lparr>hw := leave IdeLock (enter PtableLock (enter IdeLock (settle (hw s)))), ptable := upd_slot p (asleep (Some (BufChan b))) (ptable s),
    ide := (queued b q (ide s))\<lparr>drv := (if q = [] then startd A (bufs (bio s) ! b) (drv (ide s)) else drv (ide s))\<rparr>\<rparr>)"
proof -
  have l: "qlist (ide s) (idequeue (ide s)) q" using assms(7) by (simp add: pio_def)
  have h: "cpu_ok (hw s)" "depth (hw s) = 0" "cur_proc (hw s) = Some p" "p < length (ptable s)" "\<And>l. lock_free l (hw s)"
    using calmD [OF assms(2)] assms(3) by simp_all
  have r: "bblockno (bufs (bio s) ! b) < of_nat FSSIZE" "bflags (bufs (bio s) ! b) AND (B_VALID OR B_DIRTY) \<noteq> B_VALID"
    using assms(5) by (simp_all add: request_def)
  have n: "q \<noteq> [] \<Longrightarrow> idequeue (ide s) \<noteq> Some b" using l assms(8) by (cases q) auto
  have g: "holdingsleep (BufLock b) s = Done True (s\<lparr>hw := settle (hw s)\<rparr>)" using assms(2-4) by (simp add: run_simps)
  have a: "append_queue b (s\<lparr>hw := x\<rparr>) = Done () (s\<lparr>hw := x, ide := queued b q (ide s)\<rparr>)" for x
    using append_queue_run [of "s\<lparr>hw := x\<rparr>" q b] l assms(8) by simp
  let ?i = "(queued b q (ide s))\<lparr>drv := (if q = [] then startd A (bufs (bio s) ! b) (drv (ide s)) else drv (ide s))\<rparr>"
  let ?t = "s\<lparr>hw := leave IdeLock (enter PtableLock (enter IdeLock (settle (hw s)))), ide := ?i, ptable := upd_slot p (asleep (Some (BufChan b))) (ptable s)\<rparr>"
  have "iderw_pio A b s = Sleeps ?t"
  proof (cases "q = []")
    case True
    then show ?thesis using h r g a assms(6)
      by (simp add: iderw_pio_def run_simps idestart_run [OF assms(1)] iderw_wait_def)
  next
    case False
    then show ?thesis using h r g a n assms(6)
      by (simp add: iderw_pio_def run_simps iderw_wait_def)
  qed
  moreover have "?t = s\<lparr>hw := leave IdeLock (enter PtableLock (enter IdeLock (settle (hw s)))), ptable := upd_slot p (asleep (Some (BufChan b))) (ptable s), ide := ?i\<rparr>"
    by (rule kide.equality) simp_all
  ultimately show ?thesis by (simp only:)
qed

lemma pio_queued:
  assumes "ata_drive A V" "pio V s c q" "b \<notin> set q" "b < length (bufs (bio s))" "request (bufs (bio s) ! b)"
    "bio t = bio s" "ide t = (queued b q (ide s))\<lparr>drv := (if q = [] then startd A (bufs (bio s) ! b) (drv (ide s)) else drv (ide s))\<rparr>"
  shows "pio V t c (q @ [b])"
proof -
  have q: "qlist (ide s) (idequeue (ide s)) q" "distinct q" using assms(2) by (simp_all add: pio_def)
  have "qlist (ide t) (idequeue (ide t)) (q @ [b])"
    using qlist_snoc [OF q assms(3)] qlist_cong [of "q @ [b]" "ide t" "queued b q (ide s)"] by (simp add: assms(7) split: if_splits)
  then show ?thesis using assms(2-7) startd_view [OF assms(1,5)]
    by (cases q) (auto simp: pio_def Let_def)
qed

lemma memide_run:
  assumes "calm s" "me s = p" "sl_held (BufLock b) p s" "request (bufs (bio s) ! b)" "b < length (bufs (bio s))" "bdev (bufs (bio s) ! b) = 1"
    "of_nat FSSIZE \<le> disksize (bio s)" "c 1 = disk (bio s)"
  shows "\<exists>t. iderw b s = Done () t \<and> disk (bio t) = after_write (bufs (bio s) ! b) c 1 \<and> bufs (bio t) = (bufs (bio s))[b := served c (bufs (bio s) ! b)]"
proof -
  let ?k = "bufs (bio s) ! b"
  have g: "holdingsleep (BufLock b) s = Done True (s\<lparr>hw := settle (hw s)\<rparr>)" using assms(1-3) by (simp add: run_simps)
  have r: "bblockno ?k < disksize (bio s)" "bflags ?k AND (B_VALID OR B_DIRTY) \<noteq> B_VALID"
    using assms(4,7) by (auto simp: request_def)
  have f: "(bflags ?k AND NOT B_DIRTY) OR B_VALID = (bflags ?k OR B_VALID) AND NOT B_DIRTY" 
    by (rule bit_word_eqI) (auto simp: bit_simps)
  have e: "\<not> dirty ?k \<Longrightarrow> (bflags ?k OR B_VALID) AND NOT B_DIRTY = bflags ?k OR B_VALID"
    by (rule bit_word_eqI) (auto simp: bit_simps)
  show ?thesis
    using g r f e assms(5,6,8)
    by (cases "dirty ?k") (auto simp: iderw_def mod_buf_def after_write_def served_def upd_slot_def not_le
      intro!: arg_cong [where f = "list_update (bufs (bio s)) b"] buf.equality)
qed

text \<open>C6. The driver for a real drive does what the in-memory disk does: with the queue empty and the same disk contents, a request
  sleeps until the drive's interrupt; in any state that has the driver and the buffers as the request left them, the
  interrupt gives the buffers and the disk that \<^verbatim>\<open>memide.c\<close>'s version gives at once, and wakes the sleeping process.\<close>

theorem ide_refines_memide:
  assumes "ata_drive A V" "calm s" "me s = p" "sl_held (BufLock b) p s" "b < length (bufs (bio s))" "request (bufs (bio s) ! b)"
    "bdev (bufs (bio s) ! b) = 1" "havedisk1 (ide s)" "pio V s c []" "c 1 = disk (bio s)" "of_nat FSSIZE \<le> disksize (bio s)"
  shows "\<exists>t m. iderw_pio A b s = Sleeps t \<and> iderw b s = Done () m \<and> state (ptable t ! p) = SLEEPING \<and>
    (\<forall>u. ide u = ide t \<and> bio u = bio t \<and> ptable u = ptable t \<and> intr_ready u \<longrightarrow>
      (\<exists>v. ideintr_pio A u = Done () v \<and> bufs (bio v) = bufs (bio m) \<and> sectors V (drv (ide v)) 1 = disk (bio m) \<and>
         state (ptable v ! p) = RUNNABLE))"
proof -
  have p: "p < length (ptable s)" using calmD(4) [OF assms(2)] assms(3) by simp
  obtain t where t: "iderw_pio A b s = Sleeps t" "bio t = bio s" "ptable t = upd_slot p (asleep (Some (BufChan b))) (ptable s)"
      "ide t = (queued b [] (ide s))\<lparr>drv := startd A (bufs (bio s) ! b) (drv (ide s))\<rparr>"
    using iderw_run [OF assms(1-4,6) _ assms(9)] assms(8) by force
  obtain m where m: "iderw b s = Done () m" "disk (bio m) = after_write (bufs (bio s) ! b) c 1" "bufs (bio m) = (bufs (bio s))[b := served c (bufs (bio s) ! b)]"
    using memide_run [where c = c, OF assms(2-4,6,5,7,11,10)] by blast
  have st: "state (ptable t ! p) = SLEEPING" "chan (ptable t ! p) = Some (BufChan b)" using p by (simp_all add: t(3) asleep_def)
  have "\<exists>v. ideintr_pio A u = Done () v \<and> bufs (bio v) = bufs (bio m) \<and> sectors V (drv (ide v)) 1 = disk (bio m) \<and> state (ptable v ! p) = RUNNABLE"
    if u: "ide u = ide t" "bio u = bio t" "ptable u = ptable t" "intr_ready u" for u
  proof -
    have pu: "pio V u c [b]" using pio_queued [OF assms(1,9) _ assms(5,6)] t u by simp
    obtain v where v: "ideintr_pio A u = Done () v" using ideintr_run [OF assms(1) pu u(4)] by blast
    note n = pio_next [OF assms(1) pu v u(4)]
    have "state (ptable v ! p) = RUNNABLE" using st p u(3) by (simp add: n(4) t(3) state_wake)
    moreover have "sectors V (drv (ide v)) 1 = disk (bio m)" using n(1) u(2) t(2) m(2) by (simp add: pio_def)
    ultimately show ?thesis using v n(3) u(2) t(2) m(3) by simp
  qed
  then show ?thesis using t(1) m(1) st(1) by blast
qed

section \<open>A concrete request\<close>

text \<open>Process 1 holds buffer 0, which has new contents for block 40; the drive is \<open>ideal_drive\<close>.\<close>

definition disks0 :: "u32 \<Rightarrow> u32 \<Rightarrow> u8 list" where "disks0 = (\<lambda>_ _. replicate 512 0)"

definition kide0 :: "drive kide" where
  "kide0 = \<lparr>hw = hart0, ptable = [proc0], initproc = Some 0, nextpid = 2,
     slocks = (\<lambda>_. \<lparr>sl_locked = 1, sl_name = '''', sl_pid = 1\<rparr>),
     mem = (\<lambda>_. 0), kend = 0x80120000, kdata = 0x80110000, kmem = \<lparr>use_lock = True, freelist = 0x80200000\<rparr>, bio = bio1 40 (replicate 512 7),
     ide = \<lparr>idequeue = None, qnext = (\<lambda>_. None), havedisk1 = True,
       drv = \<lparr>dr_regs = (\<lambda>_. 0), dr_sectors = disks0, dr_phase = Idle\<rparr>, ioap = \<lparr>io_reg = 0, io_regs = (\<lambda>_. 0)\<rparr>\<rparr>\<rparr>"

lemma kide0_simps [simp]:
  "calm kide0" "me kide0 = 0" "sl_held (BufLock 0) 0 kide0" "0 < length (bufs (bio kide0))" "request (bufs (bio kide0) ! 0)"
  "bdev (bufs (bio kide0) ! 0) = 1" "havedisk1 (ide kide0)" "pio ideal_view kide0 disks0 []" "disks0 1 = disk (bio kide0)"
  "of_nat FSSIZE \<le> disksize (bio kide0)"
  by (simp_all add: kide0_def hcalm_hart0 sl_held_def proc0_def bio1_def bio0_def request_def NBUF_def MAXOPBLOCKS_def FSSIZE_def BSIZE_def pio_def
      ideal_view_def disks0_def)

theorem ide_refines_memide_witness:
  "\<exists>t m. iderw_pio ideal_drive 0 kide0 = Sleeps t \<and> iderw 0 kide0 = Done () m \<and> (\<forall>u. ide u = ide t \<and> bio u = bio t \<and> ptable u = ptable t \<and>
     hw u = hart0 \<longrightarrow> (\<exists>v. ideintr_pio ideal_drive u = Done () v \<and> dr_sectors (drv (ide v)) 1 = disk (bio m)))"
proof -
  have "sectors ideal_view = dr_sectors" by (simp add: ideal_view_def)
  moreover have "hw u = hart0 \<Longrightarrow> intr_ready u" for u by (simp add: intr_ready_def)
  ultimately show ?thesis
    using ide_refines_memide [OF ideal_drive_ok kide0_simps(1-10)] by (metis (no_types, opaque_lifting))
qed

theorem ide_serves_in_order_witness:
  "\<exists>(s :: drive kide) t. pio ideal_view s disks0 [0] \<and> forK [0 :: nat] (\<lambda>_. ideintr_pio ideal_drive) s = Done () t \<and>
     bufs (bio t) = (bufs (bio1 40 (replicate 512 7)))[0 := served disks0 (bufs (bio1 40 (replicate 512 7)) ! 0)]"
proof -
  let ?s = "kide0\<lparr>ide := (queued 0 [] (ide kide0))\<lparr>drv := startd ideal_drive (bufs (bio kide0) ! 0) (drv (ide kide0))\<rparr>\<rparr>"
  have p: "pio ideal_view ?s disks0 [0]" using pio_queued [OF ideal_drive_ok kide0_simps(8) _ kide0_simps(4,5), of ?s] by simp
  have "intr_ready ?s" by (simp add: intr_ready_def kide0_def)
  then obtain t where t: "forK [0 :: nat] (\<lambda>_. ideintr_pio ideal_drive) ?s = Done () t" "bufs (bio t) = snd (serve_all [0] disks0 (bufs (bio ?s)))"
    using ide_serves_in_order [OF ideal_drive_ok p] by blast
  have "bufs (bio ?s) = bufs (bio1 40 (replicate 512 7))" by (simp add: kide0_def)
  then have "bufs (bio t) = (bufs (bio1 40 (replicate 512 7)))[0 := served disks0 (bufs (bio1 40 (replicate 512 7)) ! 0)]" using t(2) by simp
  with p t(1) show ?thesis by blast
qed

end
