(* ===== verification/Xv6_Smp.thy ===== *)
theory Xv6_Smp
  imports Xv6_Spinlock
begin

text \<open>
  Spin locks on several CPUs (\<^verbatim>\<open>spinlock.c\<close>). Between two accesses of a CPU to the lock any other CPU may run, so \<^verbatim>\<open>acquire\<close>
  and \<^verbatim>\<open>release\<close> are broken up at every access to shared memory: the two reads of \<^verbatim>\<open>holding\<close>, the atomic exchange, the
  store to \<^verbatim>\<open>lk->cpu\<close>, and in \<^verbatim>\<open>release\<close> the two reads, the store to \<^verbatim>\<open>lk->cpu\<close> and the store to \<^verbatim>\<open>lk->locked\<close>. The barriers of
  the code make those accesses happen in program order. Each CPU has a label that says what it does next.
\<close>

datatype pc = Outside
  | Acq_read_locked | Acq_read_cpu | Acq_xchg | Acq_set_cpu
  | Critical
  | Rel_read_locked | Rel_read_cpu | Rel_clear_cpu | Rel_unlock
  | Panicked string

record smp =
  slk :: spinlock
  at :: "nat \<Rightarrow> pc"

definition goto :: "nat \<Rightarrow> pc \<Rightarrow> smp \<Rightarrow> smp" where
  "goto i l s = s\<lparr>at := (at s)(i := l)\<rparr>"

inductive sstep :: "smp \<Rightarrow> smp \<Rightarrow> bool" where
  call_acquire: "at s i = Outside \<Longrightarrow> sstep s (goto i Acq_read_locked s)"
| acq_unlocked: "at s i = Acq_read_locked \<Longrightarrow> locked (slk s) = 0 \<Longrightarrow> sstep s (goto i Acq_xchg s)"
| acq_locked: "at s i = Acq_read_locked \<Longrightarrow> locked (slk s) \<noteq> 0 \<Longrightarrow> sstep s (goto i Acq_read_cpu s)"
| acq_mine: "at s i = Acq_read_cpu \<Longrightarrow> lcpu (slk s) = Some i \<Longrightarrow> sstep s (goto i (Panicked ''acquire'') s)"
| acq_other: "at s i = Acq_read_cpu \<Longrightarrow> lcpu (slk s) \<noteq> Some i \<Longrightarrow> sstep s (goto i Acq_xchg s)"
| acq_xchg: "at s i = Acq_xchg \<Longrightarrow>
    sstep s (goto i (if locked (slk s) \<noteq> 0 then Acq_xchg else Acq_set_cpu) (s\<lparr>slk := (slk s)\<lparr>locked := 1\<rparr>\<rparr>))"
| acq_set: "at s i = Acq_set_cpu \<Longrightarrow> sstep s (goto i Critical (s\<lparr>slk := (slk s)\<lparr>lcpu := Some i\<rparr>\<rparr>))"
| call_release: "at s i = Critical \<Longrightarrow> sstep s (goto i Rel_read_locked s)"
| rel_unlocked: "at s i = Rel_read_locked \<Longrightarrow> locked (slk s) = 0 \<Longrightarrow> sstep s (goto i (Panicked ''release'') s)"
| rel_locked: "at s i = Rel_read_locked \<Longrightarrow> locked (slk s) \<noteq> 0 \<Longrightarrow> sstep s (goto i Rel_read_cpu s)"
| rel_other: "at s i = Rel_read_cpu \<Longrightarrow> lcpu (slk s) \<noteq> Some i \<Longrightarrow> sstep s (goto i (Panicked ''release'') s)"
| rel_mine: "at s i = Rel_read_cpu \<Longrightarrow> lcpu (slk s) = Some i \<Longrightarrow> sstep s (goto i Rel_clear_cpu s)"
| rel_clear: "at s i = Rel_clear_cpu \<Longrightarrow> sstep s (goto i Rel_unlock (s\<lparr>slk := (slk s)\<lparr>lcpu := None\<rparr>\<rparr>))"
| rel_unlock: "at s i = Rel_unlock \<Longrightarrow> sstep s (goto i Outside (s\<lparr>slk := (slk s)\<lparr>locked := 0\<rparr>\<rparr>))"

text \<open>After \<^verbatim>\<open>initlock\<close>, with every CPU outside; the states that can be reached from there.\<close>

definition smp_init :: "string \<Rightarrow> smp" where
  "smp_init nm = \<lparr>slk = \<lparr>locked = 0, lname = nm, lcpu = None\<rparr>, at = (\<lambda>_. Outside)\<rparr>"

definition sreach :: "smp \<Rightarrow> bool" where
  "sreach s \<longleftrightarrow> (\<exists>nm. sstep\<^sup>*\<^sup>* (smp_init nm) s)"

section \<open>The invariant\<close>

text \<open>From the successful exchange to the store that unlocks, a CPU owns the lock; \<^verbatim>\<open>lk->cpu\<close> is set for a part of that.\<close>

definition owns :: "pc \<Rightarrow> bool" where
  "owns l \<longleftrightarrow> l \<in> {Acq_set_cpu, Critical, Rel_read_locked, Rel_read_cpu, Rel_clear_cpu, Rel_unlock}"

definition marked :: "pc \<Rightarrow> bool" where
  "marked l \<longleftrightarrow> l \<in> {Critical, Rel_read_locked, Rel_read_cpu, Rel_clear_cpu}"

definition smp_inv :: "smp \<Rightarrow> bool" where
  "smp_inv s \<longleftrightarrow> (\<forall>i j. owns (at s i) \<longrightarrow> owns (at s j) \<longrightarrow> i = j) \<and>
     (locked (slk s) \<noteq> 0 \<longleftrightarrow> (\<exists>i. owns (at s i))) \<and>
     (\<forall>i. lcpu (slk s) = Some i \<longleftrightarrow> marked (at s i)) \<and>
     (\<forall>i e. at s i \<noteq> Panicked e)"

lemma goto_simps [simp]: "at (goto i l s) = (at s)(i := l)" "slk (goto i l s) = slk s"
  by (simp_all add: goto_def)

lemma owns_simps [simp]:
  "\<not> owns Outside" "\<not> owns Acq_read_locked" "\<not> owns Acq_read_cpu" "\<not> owns Acq_xchg" "owns Acq_set_cpu" "owns Critical"
  "owns Rel_read_locked" "owns Rel_read_cpu" "owns Rel_clear_cpu" "owns Rel_unlock" "\<not> owns (Panicked e)"
  by (simp_all add: owns_def)

lemma marked_simps [simp]:
  "\<not> marked Outside" "\<not> marked Acq_read_locked" "\<not> marked Acq_read_cpu" "\<not> marked Acq_xchg" "\<not> marked Acq_set_cpu" "marked Critical"
  "marked Rel_read_locked" "marked Rel_read_cpu" "marked Rel_clear_cpu" "\<not> marked Rel_unlock" "\<not> marked (Panicked e)"
  by (simp_all add: marked_def)

lemma marked_owns: "marked l \<Longrightarrow> owns l"
  by (auto simp: marked_def)

lemma smp_inv_init: "smp_inv (smp_init nm)"
  by (simp add: smp_inv_def smp_init_def)

lemma smp_invD:
  assumes "smp_inv s"
  shows "owns (at s i) \<Longrightarrow> owns (at s j) \<Longrightarrow> i = j" "locked (slk s) \<noteq> 0 \<longleftrightarrow> (\<exists>i. owns (at s i))"
    "lcpu (slk s) = Some i \<longleftrightarrow> marked (at s i)" "at s i \<noteq> Panicked e"
  using assms unfolding smp_inv_def by blast+

text \<open>A step of CPU \<open>i\<close> keeps the invariant if its new label, the lock word and the owner field fit together.\<close>

lemma smp_inv_goto:
  assumes "smp_inv s" "\<forall>e. l \<noteq> Panicked e" "owns l \<Longrightarrow> \<forall>j. j \<noteq> i \<longrightarrow> \<not> owns (at s j)"
    "locked k \<noteq> 0 \<longleftrightarrow> owns l \<or> (\<exists>j. j \<noteq> i \<and> owns (at s j))"
    "\<And>j. lcpu k = Some j \<longleftrightarrow> (if j = i then marked l else marked (at s j))"
  shows "smp_inv (goto i l (s\<lparr>slk := k\<rparr>))"
  using assms smp_invD(1,4) [OF assms(1)] unfolding smp_inv_def
  by (intro conjI allI impI) (auto split: if_splits)

lemma smp_inv_label:
  assumes "smp_inv s" "\<forall>e. l \<noteq> Panicked e" "owns l = owns (at s i)" "marked l = marked (at s i)"
  shows "smp_inv (goto i l s)"
proof -
  have "owns (at (goto i l s) j) = owns (at s j)" "marked (at (goto i l s) j) = marked (at s j)" for j using assms(3,4) by auto
  then show ?thesis using assms(1,2) unfolding smp_inv_def by simp
qed

lemma smp_inv_step: "sstep s t \<Longrightarrow> smp_inv s \<Longrightarrow> smp_inv t"
proof (induction rule: sstep.induct)
  case (acq_xchg s i)
  note d = smp_invD [OF acq_xchg(2)]
  have "owns (at s j) \<Longrightarrow> j \<noteq> i" for j using acq_xchg(1) by auto
  then show ?case
    by (intro smp_inv_goto [OF acq_xchg(2)]) (use acq_xchg(1) d in \<open>auto split: if_splits\<close>)
next
  case (acq_set s i)
  note d = smp_invD [OF acq_set(2)]
  have "locked (slk s) \<noteq> 0" "\<And>j. owns (at s j) \<Longrightarrow> j = i" using d(1,2) acq_set(1) owns_simps by metis+
  then show ?case
    by (intro smp_inv_goto [OF acq_set(2)]) (use acq_set(1) d marked_owns in \<open>auto split: if_splits\<close>)
next
  case (rel_clear s i)
  note d = smp_invD [OF rel_clear(2)]
  have "locked (slk s) \<noteq> 0" "\<And>j. owns (at s j) \<Longrightarrow> j = i" using d(1,2) rel_clear(1) owns_simps by metis+
  then show ?case
    by (intro smp_inv_goto [OF rel_clear(2)]) (use rel_clear(1) d marked_owns in \<open>auto split: if_splits\<close>)
next
  case (rel_unlock s i)
  note d = smp_invD [OF rel_unlock(2)]
  have "locked (slk s) \<noteq> 0" "\<And>j. owns (at s j) \<Longrightarrow> j = i" using d(1,2) rel_unlock(1) owns_simps by metis+
  then show ?case
    by (intro smp_inv_goto [OF rel_unlock(2)]) (use rel_unlock(1) d in \<open>auto split: if_splits\<close>)
next
  case (acq_mine s i)
  then show ?case using smp_invD(3) [OF acq_mine(3), of i] by simp
next
  case (rel_unlocked s i)
  then show ?case using smp_invD(2) [OF rel_unlocked(3)] owns_simps by metis
next
  case (rel_other s i)
  then show ?case using smp_invD(3) [OF rel_other(3), of i] by simp
qed (simp_all add: smp_inv_label)

lemma sreach_inv:
  assumes "sreach s"
  shows "smp_inv s"
proof -
  obtain nm where "sstep\<^sup>*\<^sup>* (smp_init nm) s" using assms by (auto simp: sreach_def)
  then show ?thesis by induction (auto intro: smp_inv_init smp_inv_step)
qed

text \<open>Running alone, a CPU goes through \<^verbatim>\<open>acquire\<close>.\<close>

lemma solo_acquire:
  assumes "at s i = Outside" "locked (slk s) = 0"
  shows "sstep\<^sup>*\<^sup>* s (goto i Critical (s\<lparr>slk := (slk s)\<lparr>locked := 1, lcpu := Some i\<rparr>\<rparr>))"
proof -
  let ?a = "goto i Acq_read_locked s" and ?b = "goto i Acq_xchg s" and ?c = "goto i Acq_set_cpu (s\<lparr>slk := (slk s)\<lparr>locked := 1\<rparr>\<rparr>)"
  have "sstep s ?a" using assms by (rule_tac call_acquire)
  moreover have "sstep ?a ?b" using acq_unlocked [of ?a i] assms by (simp add: goto_def)
  moreover have "sstep ?b ?c" using acq_xchg [of ?b i] assms by (simp add: goto_def)
  moreover have "sstep ?c (goto i Critical (s\<lparr>slk := (slk s)\<lparr>locked := 1, lcpu := Some i\<rparr>\<rparr>))" using acq_set [of ?c i] by (simp add: goto_def)
  ultimately show ?thesis by (meson converse_rtranclp_into_rtranclp rtranclp.rtrancl_refl)
qed

text \<open>C2. On any number of CPUs, at most one is between its successful exchange and the store that unlocks, in every
  interleaving of the accesses to the lock; the self-check of \<^verbatim>\<open>acquire\<close> and the ownership check of \<^verbatim>\<open>release\<close>, although
  their two reads are not atomic, never panic in a program that pairs the calls; and while a CPU is in its critical section,
  \<^verbatim>\<open>holding\<close> is true on that CPU and false on every other.\<close>

theorem mutual_exclusion:
  assumes "sreach s"
  shows "(\<forall>i j. owns (at s i) \<and> owns (at s j) \<longrightarrow> i = j) \<and> (\<forall>i e. at s i \<noteq> Panicked e) \<and>
    (\<forall>i j. at s i = Critical \<longrightarrow> ((locked (slk s) \<noteq> 0 \<and> lcpu (slk s) = Some j) \<longleftrightarrow> i = j))"
proof -
  note d = smp_invD [OF sreach_inv [OF assms]]
  have "(locked (slk s) \<noteq> 0 \<and> lcpu (slk s) = Some j) \<longleftrightarrow> i = j" if "at s i = Critical" for i j
  proof -
    have "lcpu (slk s) = Some i" "owns (at s i)" using d(3) [of i] that by auto
    then show ?thesis using d(2) by auto
  qed
  then show ?thesis using d by blast
qed

theorem mutual_exclusion_witness:
  "\<exists>s. sreach s \<and> at s 0 = Critical \<and> at s 1 = Acq_read_locked \<and> \<not> owns (at s 1) \<and> lcpu (slk s) = Some 0"
proof -
  let ?s = "goto 0 Critical ((smp_init [])\<lparr>slk := (slk (smp_init []))\<lparr>locked := 1, lcpu := Some 0\<rparr>\<rparr>)"
  have "sstep\<^sup>*\<^sup>* (smp_init []) ?s" by (rule solo_acquire) (simp_all add: smp_init_def)
  moreover have "sstep ?s (goto 1 Acq_read_locked ?s)" by (rule call_acquire) (simp add: smp_init_def)
  ultimately have r: "sreach (goto 1 Acq_read_locked ?s)" unfolding sreach_def by (meson rtranclp.rtrancl_into_rtrancl)
  have a: "at (goto 1 Acq_read_locked ?s) 0 = Critical" "at (goto 1 Acq_read_locked ?s) 1 = Acq_read_locked" by simp_all
  show ?thesis using mutual_exclusion [OF r] r a by (metis owns_simps(2))
qed

section \<open>Progress\<close>

primrec to_go :: "pc \<Rightarrow> nat" where
  "to_go Outside = 0" | "to_go Acq_read_locked = 0" | "to_go Acq_read_cpu = 0" | "to_go Acq_xchg = 0"
| "to_go Acq_set_cpu = 6" | "to_go Critical = 5" | "to_go Rel_read_locked = 4" | "to_go Rel_read_cpu = 3"
| "to_go Rel_clear_cpu = 2" | "to_go Rel_unlock = 1" | "to_go (Panicked e) = 0"

text \<open>The owner has a step, which brings it nearer to the unlocking store and touches no other CPU's label.\<close>

lemma owner_step:
  assumes "smp_inv s" "owns (at s j)"
  shows "\<exists>t. sstep s t \<and> (owns (at t j) \<or> at t j = Outside \<and> locked (slk t) = 0) \<and> to_go (at t j) < to_go (at s j) \<and>
    (\<forall>i. i \<noteq> j \<longrightarrow> at t i = at s i)"
proof -
  have l: "locked (slk s) \<noteq> 0" "marked (at s j) \<Longrightarrow> lcpu (slk s) = Some j" using assms smp_invD [OF assms(1)] by blast+
  from assms(2) consider "at s j = Acq_set_cpu" | "at s j = Critical" | "at s j = Rel_read_locked" | "at s j = Rel_read_cpu"
    | "at s j = Rel_clear_cpu" | "at s j = Rel_unlock" by (auto simp: owns_def)
  then show ?thesis
  proof cases
    case 1 then show ?thesis by (intro exI conjI, rule acq_set) auto
  next
    case 2 then show ?thesis by (intro exI conjI, rule call_release) auto
  next
    case 3 then show ?thesis using l by (intro exI conjI, rule_tac rel_locked) auto
  next
    case 4 then show ?thesis using l by (intro exI conjI, rule_tac rel_mine) auto
  next
    case 5 then show ?thesis by (intro exI conjI, rule rel_clear) auto
  next
    case 6 then show ?thesis by (intro exI conjI, rule rel_unlock) auto
  qed
qed

lemma owner_releases:
  assumes "smp_inv s" "owns (at s j)"
  shows "\<exists>t. sstep\<^sup>*\<^sup>* s t \<and> at t j = Outside \<and> locked (slk t) = 0 \<and> smp_inv t \<and> (\<forall>i. i \<noteq> j \<longrightarrow> at t i = at s i)"
  using assms
proof (induction "to_go (at s j)" arbitrary: s rule: less_induct)
  case less
  obtain u where u: "sstep s u" "owns (at u j) \<or> at u j = Outside \<and> locked (slk u) = 0" "to_go (at u j) < to_go (at s j)"
    "\<forall>i. i \<noteq> j \<longrightarrow> at u i = at s i" using owner_step [OF less.prems] by blast
  have inv: "smp_inv u" using smp_inv_step [OF u(1) less.prems(1)] .
  show ?case
  proof (cases "owns (at u j)")
    case True
    then obtain t where "sstep\<^sup>*\<^sup>* u t" "at t j = Outside" "locked (slk t) = 0" "smp_inv t" "\<forall>i. i \<noteq> j \<longrightarrow> at t i = at u i"
      using less.hyps [OF u(3) inv] by blast
    then show ?thesis using u(1,4) converse_rtranclp_into_rtranclp [of sstep s u t] by (intro exI [of _ t]) simp
  next
    case False
    then show ?thesis using u inv by (intro exI [of _ u]) auto
  qed
qed

lemma free_enters:
  assumes "smp_inv s" "locked (slk s) = 0"
  shows "\<exists>t. sstep\<^sup>*\<^sup>* s t \<and> at t i = Critical"
proof -
  have n: "\<not> owns (at s i)" "lcpu (slk s) \<noteq> Some i" "at s i \<noteq> Panicked e" for e using assms smp_invD [OF assms(1)] marked_owns by blast+
  have x: "\<exists>t. sstep\<^sup>*\<^sup>* u t \<and> at t i = Critical" if u: "at u i = Acq_xchg" "locked (slk u) = 0" for u
  proof -
    let ?c = "goto i Acq_set_cpu (u\<lparr>slk := (slk u)\<lparr>locked := 1\<rparr>\<rparr>)"
    have "sstep u ?c" using acq_xchg [of u i] u by simp
    moreover have "sstep ?c (goto i Critical (?c\<lparr>slk := (slk ?c)\<lparr>lcpu := Some i\<rparr>\<rparr>))" by (rule acq_set) simp
    ultimately have "sstep\<^sup>*\<^sup>* u (goto i Critical (?c\<lparr>slk := (slk ?c)\<lparr>lcpu := Some i\<rparr>\<rparr>))" by (meson converse_rtranclp_into_rtranclp rtranclp.rtrancl_refl)
    then show ?thesis by (intro exI conjI) auto
  qed
  from n consider "at s i = Outside" | "at s i = Acq_read_locked" | "at s i = Acq_read_cpu" | "at s i = Acq_xchg"
    by (cases "at s i") auto
  then show ?thesis
  proof cases
    case 1
    from solo_acquire [OF this assms(2)] show ?thesis by (intro exI conjI) auto
  next
    case 2
    have "sstep s (goto i Acq_xchg s)" using acq_unlocked [OF 2 assms(2)] .
    moreover obtain t where "sstep\<^sup>*\<^sup>* (goto i Acq_xchg s) t" "at t i = Critical" using x [of "goto i Acq_xchg s"] assms(2) by auto
    ultimately show ?thesis by (meson converse_rtranclp_into_rtranclp)
  next
    case 3
    have "sstep s (goto i Acq_xchg s)" using acq_other [OF 3 n(2)] .
    moreover obtain t where "sstep\<^sup>*\<^sup>* (goto i Acq_xchg s) t" "at t i = Critical" using x [of "goto i Acq_xchg s"] assms(2) by auto
    ultimately show ?thesis by (meson converse_rtranclp_into_rtranclp)
  next
    case 4
    then show ?thesis using x [OF 4 assms(2)] by blast
  qed
qed

text \<open>C27. No reachable state is a deadlock: from every one of them each CPU can still get into its critical section, whatever
  the others were doing when they stopped.\<close>

theorem lock_progress:
  assumes "sreach s"
  shows "\<exists>t. sstep\<^sup>*\<^sup>* s t \<and> at t i = Critical"
proof (cases "\<exists>j. owns (at s j)")
  case True
  then obtain j where j: "owns (at s j)" by blast
  obtain u where "sstep\<^sup>*\<^sup>* s u" "locked (slk u) = 0" "smp_inv u" using owner_releases [OF sreach_inv [OF assms] j] by blast
  then show ?thesis using free_enters [of u i] by (meson rtranclp_trans)
next
  case False
  then show ?thesis using free_enters [OF sreach_inv [OF assms]] smp_invD(2) [OF sreach_inv [OF assms]] by blast
qed

theorem lock_progress_witness: "\<exists>t. sstep\<^sup>*\<^sup>* (smp_init []) t \<and> at t 3 = Critical"
  by (rule lock_progress) (auto simp: sreach_def)

end
