(* ===== verification/Xv6_Log.thy ===== *)
theory Xv6_Log
  imports Xv6_Bio
begin

text \<open>
  The write-ahead log (\<^verbatim>\<open>log.c\<close>) and the reading of the superblock (\<^verbatim>\<open>readsb\<close> of \<^verbatim>\<open>fs.c\<close>). A block that
  holds a C struct is accessed through the byte offsets of the struct's fields. The in-memory header
  has an array of \<^verbatim>\<open>LOGSIZE\<close> block numbers; reading a header whose count is larger would run past the
  array, which C leaves undefined, and the model stops there.
\<close>

section \<open>State\<close>

record superblock =
  sb_size :: u32
  sb_nblocks :: u32
  sb_ninodes :: u32
  sb_nlog :: u32
  sb_logstart :: u32
  sb_inodestart :: u32
  sb_bmapstart :: u32

record logheader =
  lh_n :: nat
  lh_block :: "u32 list"

record logst =
  lg_start :: u32
  lg_size :: u32
  lg_outstanding :: int
  lg_committing :: bool
  lg_dev :: u32
  lg_lh :: logheader

record klog = kbio +
  lg :: logst

definition getL :: "(logst \<Rightarrow> 'a) \<Rightarrow> ('z klog_scheme, 'a) kmon" where
  "getL f = getK (\<lambda>s. f (lg s))"

definition modL :: "(logst \<Rightarrow> logst) \<Rightarrow> ('z klog_scheme, unit) kmon" where
  "modL f = modK (\<lambda>s. s\<lparr>lg := f (lg s)\<rparr>)"

definition set_lh_n :: "nat \<Rightarrow> ('z klog_scheme, unit) kmon" where
  "set_lh_n n = modL (\<lambda>l. l\<lparr>lg_lh := (lg_lh l)\<lparr>lh_n := n\<rparr>\<rparr>)"

section \<open>Reading the superblock\<close>

definition decode_sb :: "u8 list \<Rightarrow> superblock" where
  "decode_sb d = \<lparr>sb_size = le32 d 0, sb_nblocks = le32 d 4, sb_ninodes = le32 d 8, sb_nlog = le32 d 12,
     sb_logstart = le32 d 16, sb_inodestart = le32 d 20, sb_bmapstart = le32 d 24\<rparr>"

definition readsb :: "u32 \<Rightarrow> ('z kbio_scheme, superblock) kmon" where
  "readsb dev =
     bindK (bread dev 1) (\<lambda>bp.
     bindK (buf_data bp) (\<lambda>d.
     thenK (brelse bp) (returnK (decode_sb d))))"

section \<open>The log\<close>

text \<open>The header block: the count at offset 0, then the block numbers.\<close>

definition install_one :: "nat \<Rightarrow> ('z klog_scheme, unit) kmon" where
  "install_one tail =
     bindK (getK lg) (\<lambda>l.
     bindK (bread (lg_dev l) (lg_start l + of_nat tail + 1)) (\<lambda>lbuf.
     bindK (bread (lg_dev l) (lh_block (lg_lh l) ! tail)) (\<lambda>dbuf.
     bindK (buf_data lbuf) (\<lambda>d.
     thenK (set_data dbuf (\<lambda>_. d)) (
     thenK (bwrite dbuf) (
     thenK (brelse lbuf)
           (brelse dbuf)))))))"

definition install_trans :: "('z klog_scheme, unit) kmon" where
  "install_trans = bindK (getL (\<lambda>l. lh_n (lg_lh l))) (\<lambda>n. forK [0..<n] install_one)"

text \<open>A negative count in the header is read as 0: in C neither the loop of \<^verbatim>\<open>read_head\<close> nor that of \<^verbatim>\<open>install_trans\<close> runs for it, and recovery then
  sets the count to 0.\<close>

definition read_head :: "('z klog_scheme, unit) kmon" where
  "read_head =
     bindK (getK lg) (\<lambda>l.
     bindK (bread (lg_dev l) (lg_start l)) (\<lambda>b.
     bindK (buf_data b) (\<lambda>d.
     let n = nat (sint (le32 d 0)) in
     if n > LOGSIZE then panicK ''undefined: log header overruns log.lh.block'' else
     thenK (set_lh_n n) (
     thenK (forK [0..<n] (\<lambda>i. modL (\<lambda>l. l\<lparr>lg_lh := (lg_lh l)\<lparr>lh_block := (lh_block (lg_lh l))[i := le32 d (4 + 4 * i)]\<rparr>\<rparr>)))
           (brelse b)))))"

definition put_head :: "nat \<Rightarrow> u32 list \<Rightarrow> u8 list \<Rightarrow> u8 list" where
  "put_head n bs d = foldl (\<lambda>d i. put32 (4 + 4 * i) (bs ! i) d) (put32 0 (of_nat n) d) [0..<n]"

definition write_head :: "('z klog_scheme, unit) kmon" where
  "write_head =
     bindK (getK lg) (\<lambda>l.
     bindK (bread (lg_dev l) (lg_start l)) (\<lambda>b.
     thenK (set_data b (put_head (lh_n (lg_lh l)) (lh_block (lg_lh l)))) (
     thenK (bwrite b)
           (brelse b))))"

definition recover_from_log :: "('z klog_scheme, unit) kmon" where
  "recover_from_log = thenK read_head (thenK install_trans (thenK (set_lh_n 0) write_head))"

definition initlog :: "u32 \<Rightarrow> ('z klog_scheme, unit) kmon" where
  "initlog dev =
     (if 4 + 4 * LOGSIZE \<ge> BSIZE then panicK ''initlog: too big logheader'' else
      thenK (initlock LogLock ''log'') (
      bindK (readsb dev) (\<lambda>sb.
      thenK (modL (\<lambda>l. l\<lparr>lg_start := sb_logstart sb\<rparr>)) (
      thenK (modL (\<lambda>l. l\<lparr>lg_size := sb_nlog sb\<rparr>)) (
      thenK (modL (\<lambda>l. l\<lparr>lg_dev := dev\<rparr>))
            recover_from_log)))))"

text \<open>\<^verbatim>\<open>begin_op\<close>: the loop, entered first with the lock just acquired and again each time the process
  wakes up.\<close>

definition begin_op_loop :: "('z klog_scheme, unit) kmon" where
  "begin_op_loop =
     bindK (getK lg) (\<lambda>l.
     if lg_committing l then sleep (Some LogChan) (Some LogLock)
     else if int (lh_n (lg_lh l)) + (lg_outstanding l + 1) * int MAXOPBLOCKS > int LOGSIZE then
       sleep (Some LogChan) (Some LogLock)
     else
       thenK (modL (\<lambda>l. l\<lparr>lg_outstanding := lg_outstanding l + 1\<rparr>))
             (release LogLock))"

definition begin_op :: "('z klog_scheme, unit) kmon" where
  "begin_op = thenK (acquire LogLock) begin_op_loop"

definition begin_op_resume :: "nat \<Rightarrow> bool \<Rightarrow> ('z klog_scheme, unit) kmon" where
  "begin_op_resume p i = thenK (sleep_resume p LogLock i) begin_op_loop"

definition write_log_one :: "nat \<Rightarrow> ('z klog_scheme, unit) kmon" where
  "write_log_one tail =
     bindK (getK lg) (\<lambda>l.
     bindK (bread (lg_dev l) (lg_start l + of_nat tail + 1)) (\<lambda>to.
     bindK (bread (lg_dev l) (lh_block (lg_lh l) ! tail)) (\<lambda>src.
     bindK (buf_data src) (\<lambda>d.
     thenK (set_data to (\<lambda>_. d)) (
     thenK (bwrite to) (
     thenK (brelse src)
           (brelse to)))))))"

definition write_log :: "('z klog_scheme, unit) kmon" where
  "write_log = bindK (getL (\<lambda>l. lh_n (lg_lh l))) (\<lambda>n. forK [0..<n] write_log_one)"

definition commit :: "('z klog_scheme, unit) kmon" where
  "commit =
     bindK (getL (\<lambda>l. lh_n (lg_lh l))) (\<lambda>n.
     whenK (n > 0) (
       thenK write_log (
       thenK write_head (
       thenK install_trans (
       thenK (set_lh_n 0)
             write_head)))))"

definition end_op :: "('z klog_scheme, unit) kmon" where
  "end_op =
     thenK (acquire LogLock) (
     thenK (modL (\<lambda>l. l\<lparr>lg_outstanding := lg_outstanding l - 1\<rparr>)) (
     bindK (getK lg) (\<lambda>l.
     if lg_committing l then panicK ''log.committing'' else
     thenK (if lg_outstanding l = 0 then modL (\<lambda>l. l\<lparr>lg_committing := True\<rparr>) else wakeup (Some LogChan)) (
     thenK (release LogLock)
     (whenK (lg_outstanding l = 0) (
        thenK commit (
        thenK (acquire LogLock) (
        thenK (modL (\<lambda>l. l\<lparr>lg_committing := False\<rparr>)) (
        thenK (wakeup (Some LogChan))
              (release LogLock))))))))))"

text \<open>The index \<^verbatim>\<open>i\<close> at which the loop of \<^verbatim>\<open>log_write\<close> stops: that of the block if it is already logged,
  else the count.\<close>

definition log_index :: "nat \<Rightarrow> u32 list \<Rightarrow> u32 \<Rightarrow> nat" where
  "log_index n bs b = (case find (\<lambda>i. bs ! i = b) [0..<n] of Some i \<Rightarrow> i | None \<Rightarrow> n)"

definition log_write :: "nat \<Rightarrow> ('z klog_scheme, unit) kmon" where
  "log_write b =
     bindK (getK lg) (\<lambda>l.
     if lh_n (lg_lh l) \<ge> LOGSIZE \<or> int (lh_n (lg_lh l)) \<ge> sint (lg_size l) - 1 then panicK ''too big a transaction'' else
     if lg_outstanding l < 1 then panicK ''log_write outside of trans'' else
     thenK (acquire LogLock) (
     bindK (getB (\<lambda>c. bblockno (bufs c ! b))) (\<lambda>bno.
     bindK (getL (\<lambda>l. lh_n (lg_lh l))) (\<lambda>n.
     bindK (getL (\<lambda>l. log_index n (lh_block (lg_lh l)) bno)) (\<lambda>i.
     thenK (modL (\<lambda>l. l\<lparr>lg_lh := (lg_lh l)\<lparr>lh_block := (lh_block (lg_lh l))[i := bno]\<rparr>\<rparr>)) (
     thenK (whenK (i = n) (set_lh_n (n + 1))) (
     thenK (mod_buf b (bflags_update (\<lambda>f. f OR B_DIRTY)))
           (release LogLock))))))))"

lemma getL_run [simp]: "getL f s = Done (f (lg s)) s"
  by (simp add: getL_def)

lemma modL_run [simp]: "modL f s = Done () (s\<lparr>lg := f (lg s)\<rparr>)"
  by (simp add: modL_def)

lemma set_lh_n_run [simp]: "set_lh_n n s = Done () (s\<lparr>lg := (lg s)\<lparr>lg_lh := (lg_lh (lg s))\<lparr>lh_n := n\<rparr>\<rparr>\<rparr>)"
  by (simp add: set_lh_n_def)

lemma log_sizes: "LOGSIZE = 30" "NBUF = 30" "MAXOPBLOCKS = 10"
  by (simp_all add: LOGSIZE_def NBUF_def MAXOPBLOCKS_def)

section \<open>Copying blocks\<close>

definition dirtyset :: "biost \<Rightarrow> nat set" where
  "dirtyset c = {i. i < NBUF \<and> dirty (bufs c ! i)}"

definition dblocks :: "biost \<Rightarrow> u32 set" where
  "dblocks c = (\<lambda>i. bblockno (bufs c ! i)) ` dirtyset c"

text \<open>At least one buffer is not pinned; and what a second read needs while that one is held: the block is pinned, and so
  cached, or no buffer is pinned.\<close>

definition roomy :: "biost \<Rightarrow> bool" where
  "roomy c \<longleftrightarrow> card (dirtyset c) < NBUF"

definition handy :: "u32 \<Rightarrow> biost \<Rightarrow> bool" where
  "handy b c \<longleftrightarrow> b \<in> dblocks c \<or> dblocks c = {}"

lemma finite_dirtyset [simp]: "finite (dirtyset c)"
  by (simp add: dirtyset_def)

lemma roomy_clean:
  assumes "roomy c"
  shows "\<exists>i<NBUF. \<not> dirty (bufs c ! i)"
proof (rule ccontr)
  assume "\<not> ?thesis"
  then have "dirtyset c = {..<NBUF}" by (auto simp: dirtyset_def)
  then show False using assms by (simp add: roomy_def)
qed

lemma dblocks_slot:
  assumes "bc_inv H c" "b \<in> dblocks c"
  shows "slot_of c b \<noteq> None"
proof
  assume none: "slot_of c b = None"
  obtain i where i: "i < NBUF" "dirty (bufs c ! i)" "bblockno (bufs c ! i) = b" using assms(2) by (auto simp: dblocks_def dirtyset_def)
  then have "bdev (bufs c ! i) = 1" using bc_invD(5) [OF assms(1) i(1)] by (auto simp: buf_ok_def)
  then show False using slot_of_None [OF assms(1) none i(1)] i(3) by simp
qed

lemma handy_clean:
  assumes "bc_inv H c" "handy b c" "slot_of c b = None"
  shows "\<exists>i<NBUF. i \<notin> {j} \<and> \<not> dirty (bufs c ! i)"
proof -
  have "b \<notin> dblocks c" using dblocks_slot [OF assms(1)] assms(3) by blast
  then have "dirtyset c = {}" using assms(2) by (auto simp: handy_def dblocks_def)
  then have "\<not> dirty (bufs c ! i)" if "i < NBUF" for i using that by (auto simp: dirtyset_def)
  then show ?thesis by (intro exI [of _ "if j = 0 then 1 else 0"]) (simp add: log_sizes)
qed

lemma roomy_mono: "roomy c \<Longrightarrow> dirtyset d \<subseteq> dirtyset c \<Longrightarrow> roomy d"
  unfolding roomy_def by (meson card_mono finite_dirtyset le_less_trans)

lemma bread_dirty:
  assumes "bread_post H s b i t"
  shows "dirtyset (bio t) = dirtyset (bio s)" "dblocks (bio t) = dblocks (bio s)"
proof -
  show d: "dirtyset (bio t) = dirtyset (bio s)" using assms by (auto simp: bread_post_def dirtyset_def)
  have "bblockno (bufs (bio t) ! k) = bblockno (bufs (bio s) ! k)" if "k \<in> dirtyset (bio s)" for k
    using assms that d by (cases "k = i") (auto simp: bread_post_def dirtyset_def)
  then show "dblocks (bio t) = dblocks (bio s)" using d by (auto simp: dblocks_def image_iff)
qed

text \<open>What is known after two blocks have been read.\<close>

lemma two_reads:
  assumes "bio_inv {} s" "roomy (bio s)" "x < disksize (bio s)" "y < disksize (bio s)" "x \<noteq> y" "handy y (bio s)"
  shows "\<exists>i t j u. bread 1 x s = Done i t \<and> bread 1 y t = Done j u \<and> i \<noteq> j \<and> bio_inv {i, j} u \<and> bframe s u \<and>
    bblockno (bufs (bio u) ! i) = x \<and> bblockno (bufs (bio u) ! j) = y \<and>
    bdata (bufs (bio u) ! i) = bview (bio s) x \<and> bdata (bufs (bio u) ! j) = bview (bio s) y \<and>
    bview (bio u) = bview (bio s) \<and> disk (bio u) = disk (bio s) \<and> dwrites (bio u) = dwrites (bio s) \<and>
    dirtyset (bio u) = dirtyset (bio s) \<and> dblocks (bio u) = dblocks (bio s) \<and>
    (dirty (bufs (bio u) ! i) \<or> bview (bio s) x = disk (bio s) x) \<and>
    (dirty (bufs (bio u) ! j) \<or> bview (bio s) y = disk (bio s) y)"
proof -
  obtain i t where t: "bread 1 x s = Done i t" "bread_post {} s x i t"
    using bread_ok [OF assms(1,3)] roomy_clean [OF assms(2)] by auto
  have t': "bio_inv {i} t" "bframe s t" "bblockno (bufs (bio t) ! i) = x" "bview (bio t) = bview (bio s)"
    "disk (bio t) = disk (bio s)" "dwrites (bio t) = dwrites (bio s)" "bdata (bufs (bio t) ! i) = bview (bio s) x"
    using t(2) by (auto simp: bread_post_def)
  have "handy y (bio t)" using assms(6) bread_dirty [OF t(2)] by (simp add: handy_def)
  then obtain j u where u: "bread 1 y t = Done j u" "bread_post {i} t y j u"
    using bread_ok [OF t'(1), of y] handy_clean [OF bio_invD(2) [OF t'(1)]] t' assms(4,5) by (auto simp: bframe_def)
  have "i < NBUF" "i \<noteq> j" using t(2) u(2) by (auto simp: bread_post_def)
  then have same: "bufs (bio u) ! i = bufs (bio t) ! i" using u(2) by (simp add: bread_post_def)
  have u': "bio_inv {j, i} u" "bframe t u" "bblockno (bufs (bio u) ! j) = y" "bview (bio u) = bview (bio t)"
    "disk (bio u) = disk (bio t)" "dwrites (bio u) = dwrites (bio t)" "bdata (bufs (bio u) ! j) = bview (bio t) y"
    "dirty (bufs (bio u) ! j) \<or> bview (bio t) y = disk (bio t) y"
    using u(2) by (auto simp: bread_post_def)
  have tx: "dirty (bufs (bio t) ! i) \<or> bview (bio s) x = disk (bio s) x" using t(2) by (auto simp: bread_post_def)
  have fr: "bframe s u" using bframe_trans [OF t'(2) u'(2)] .
  show ?thesis
    apply (rule exI [of _ i], rule exI [of _ t], rule exI [of _ j], rule exI [of _ u])
    apply (intro conjI)
    using t(1) u(1) t' u' same tx fr \<open>i \<noteq> j\<close> bread_dirty [OF t(2)] bread_dirty [OF u(2)]
    by (simp_all add: insert_commute del: dirty_iff)
qed

text \<open>Storing data into a block that is held and writing it to the disk.\<close>

lemma store_block:
  assumes "bio_inv H s" "j \<in> H"
  shows "\<exists>t. thenK (set_data j (\<lambda>_. d)) (bwrite j) s = Done () t \<and> bio_inv H t \<and> bframe s t \<and>
    bview (bio t) = (bview (bio s))(bblockno (bufs (bio s) ! j) := d) \<and>
    disk (bio t) = (disk (bio s))(bblockno (bufs (bio s) ! j) := d) \<and>
    dwrites (bio t) = dwrites (bio s) @ [(bblockno (bufs (bio s) ! j), d)] \<and>
    dirtyset (bio t) = dirtyset (bio s) - {j} \<and>
    (\<forall>k<NBUF. bblockno (bufs (bio t) ! k) = bblockno (bufs (bio s) ! k) \<and>
       bdata (bufs (bio t) ! k) = (if k = j then d else bdata (bufs (bio s) ! k)))"
proof -
  obtain t where t: "set_data j (\<lambda>_. d) s = Done () t" "bio_inv H t" "bframe s t"
    "bview (bio t) = (bview (bio s))(bblockno (bufs (bio s) ! j) := d)" "disk (bio t) = disk (bio s)"
    "dwrites (bio t) = dwrites (bio s)" "bufs (bio t) = upd_slot j (\<lambda>k. k\<lparr>bdata := d\<rparr>) (bufs (bio s))"
    using set_data_ok [OF assms, of "\<lambda>_. d"] by auto
  have nth: "bufs (bio t) ! k = (if k = j then (bufs (bio s) ! j)\<lparr>bdata := d\<rparr> else bufs (bio s) ! k)" if "k < NBUF" for k
    using that held_valid(1,6) [OF assms] t(7) by (simp add: nth_upd_slot)
  have j: "bblockno (bufs (bio t) ! j) = bblockno (bufs (bio s) ! j)" "bdata (bufs (bio t) ! j) = d"
    using held_valid(1) [OF assms] by (simp_all add: nth)
  obtain u where u: "bwrite j t = Done () u" "bio_inv H u" "bframe t u" "bview (bio u) = bview (bio t)"
    "disk (bio u) = (disk (bio t))(bblockno (bufs (bio t) ! j) := bdata (bufs (bio t) ! j))"
    "dwrites (bio u) = dwrites (bio t) @ [(bblockno (bufs (bio t) ! j), bdata (bufs (bio t) ! j))]"
    "\<forall>k<NBUF. bblockno (bufs (bio u) ! k) = bblockno (bufs (bio t) ! k) \<and> bdata (bufs (bio u) ! k) = bdata (bufs (bio t) ! k) \<and>
       dirty (bufs (bio u) ! k) = (k \<noteq> j \<and> dirty (bufs (bio t) ! k))"
    using bwrite_ok [OF t(2) assms(2)] by blast
  have "dirtyset (bio u) = dirtyset (bio s) - {j}" using u(7) by (auto simp: dirtyset_def nth)
  then show ?thesis
    using t u j nth bframe_trans [OF t(3) u(3)] by auto
qed

text \<open>The effect of copying block \<open>x\<close> to block \<open>y\<close>.\<close>

definition copied :: "u32 \<Rightarrow> u32 \<Rightarrow> 'z klog_scheme \<Rightarrow> 'z klog_scheme \<Rightarrow> bool" where
  "copied x y s t \<longleftrightarrow> bio_inv {} t \<and> bframe s t \<and> bview (bio t) = (bview (bio s))(y := bview (bio s) x) \<and>
     disk (bio t) = (disk (bio s))(y := bview (bio s) x) \<and> dwrites (bio t) = dwrites (bio s) @ [(y, bview (bio s) x)] \<and>
     dblocks (bio t) = dblocks (bio s) - {y} \<and> roomy (bio t)"

lemma release_two:
  assumes "bio_inv {i, j} s" "i \<noteq> j"
    "\<And>k. k \<in> {i, j} \<Longrightarrow> dirty (bufs (bio s) ! k) \<or> bdata (bufs (bio s) ! k) = disk (bio s) (bblockno (bufs (bio s) ! k))"
  shows "\<exists>t. thenK (brelse i) (brelse j) s = Done () t \<and> bio_inv {} t \<and> bframe s t \<and> bview (bio t) = bview (bio s) \<and>
    disk (bio t) = disk (bio s) \<and> dwrites (bio t) = dwrites (bio s) \<and>
    dirtyset (bio t) = dirtyset (bio s) \<and> dblocks (bio t) = dblocks (bio s)"
proof -
  obtain t where t: "brelse i s = Done () t" "bio_inv ({i, j} - {i}) t" "bframe s t" "bview (bio t) = bview (bio s)"
    "disk (bio t) = disk (bio s)" "dwrites (bio t) = dwrites (bio s)"
    "\<forall>k<NBUF. bblockno (bufs (bio t) ! k) = bblockno (bufs (bio s) ! k) \<and> bdata (bufs (bio t) ! k) = bdata (bufs (bio s) ! k) \<and>
       dirty (bufs (bio t) ! k) = dirty (bufs (bio s) ! k)"
    using brelse_ok [OF assms(1), of i] assms(3) by blast
  have jn: "j < NBUF" using held_valid(1) [OF assms(1), of j] by simp
  have inv: "bio_inv {j} t" using t(2) assms(2) by (simp add: insert_Diff_if)
  obtain u where u: "brelse j t = Done () u" "bio_inv ({j} - {j}) u" "bframe t u" "bview (bio u) = bview (bio t)"
    "disk (bio u) = disk (bio t)" "dwrites (bio u) = dwrites (bio t)"
    "\<forall>k<NBUF. bblockno (bufs (bio u) ! k) = bblockno (bufs (bio t) ! k) \<and> bdata (bufs (bio u) ! k) = bdata (bufs (bio t) ! k) \<and>
       dirty (bufs (bio u) ! k) = dirty (bufs (bio t) ! k)"
    using brelse_ok [OF inv, of j] assms(3) [of j] t(5,7) jn by auto
  have "dirtyset (bio u) = dirtyset (bio s)" using t(7) u(7) by (auto simp: dirtyset_def)
  moreover have "dblocks (bio u) = dblocks (bio s)"
    unfolding dblocks_def calculation using t(7) u(7) by (intro image_cong) (auto simp: dirtyset_def)
  ultimately show ?thesis using t u bframe_trans [OF t(3) u(3)] by auto
qed

lemma dblocks_drop:
  assumes "bio_inv H s" "j \<in> H" "dirtyset c = dirtyset (bio s) - {j}"
    "\<And>k. k < NBUF \<Longrightarrow> bblockno (bufs c ! k) = bblockno (bufs (bio s) ! k)"
  shows "dblocks c = dblocks (bio s) - {bblockno (bufs (bio s) ! j)}"
proof -
  note inv = bio_invD(2) [OF assms(1)] and h = held_valid [OF assms(1,2)]
  have inj: "k = j" if "k \<in> dirtyset (bio s)" "bblockno (bufs (bio s) ! k) = bblockno (bufs (bio s) ! j)" for k
  proof -
    have "k < NBUF" "dirty (bufs (bio s) ! k)" using that(1) by (auto simp: dirtyset_def)
    then have "bdev (bufs (bio s) ! k) = 1" using bc_invD(5) [OF inv \<open>k < NBUF\<close>] by (auto simp: buf_ok_def)
    then show ?thesis using bc_invD(6) [OF inv \<open>k < NBUF\<close> h(1)] h(3) that(2) by simp
  qed
  have "dblocks c = (\<lambda>k. bblockno (bufs (bio s) ! k)) ` (dirtyset (bio s) - {j})"
    unfolding dblocks_def assms(3) using assms(4) by (intro image_cong) (auto simp: dirtyset_def)
  also have "\<dots> = dblocks (bio s) - {bblockno (bufs (bio s) ! j)}"
    unfolding dblocks_def by (auto dest: inj)
  finally show ?thesis .
qed

text \<open>The four steps after both buffers are locked: store, write, release.\<close>

lemma copy_locked:
  assumes "bio_inv {i, j} u" "i \<noteq> j" "roomy (bio u)"
    "dirty (bufs (bio u) ! i) \<or> bdata (bufs (bio u) ! i) = disk (bio u) (bblockno (bufs (bio u) ! i))"
    "bblockno (bufs (bio u) ! i) \<noteq> y" "bblockno (bufs (bio u) ! j) = y"
  shows "\<exists>v w z. set_data j (\<lambda>_. d) u = Done () v \<and> bwrite j v = Done () w \<and> bframe u w \<and> bio_inv {i, j} w \<and>
    (\<forall>k\<in>{i, j}. dirty (bufs (bio w) ! k) \<or> bdata (bufs (bio w) ! k) = disk (bio w) (bblockno (bufs (bio w) ! k))) \<and>
    bview (bio w) = (bview (bio u))(y := d) \<and> disk (bio w) = (disk (bio u))(y := d) \<and>
    dwrites (bio w) = dwrites (bio u) @ [(y, d)] \<and> dblocks (bio w) = dblocks (bio u) - {y} \<and> roomy (bio w)"
proof -
  have ij: "i < NBUF" "j < NBUF" using held_valid(1) [OF assms(1)] by auto
  obtain w where run: "thenK (set_data j (\<lambda>_. d)) (bwrite j) u = Done () w" and w: "bio_inv {i, j} w" "bframe u w"
    "bview (bio w) = (bview (bio u))(y := d)" "disk (bio w) = (disk (bio u))(y := d)"
    "dwrites (bio w) = dwrites (bio u) @ [(y, d)]" "dirtyset (bio w) = dirtyset (bio u) - {j}"
    "\<forall>k<NBUF. bblockno (bufs (bio w) ! k) = bblockno (bufs (bio u) ! k) \<and>
       bdata (bufs (bio w) ! k) = (if k = j then d else bdata (bufs (bio u) ! k))"
    using store_block [OF assms(1), of j d] assms(6) by auto
  obtain v where v: "set_data j (\<lambda>_. d) u = Done () v" "bwrite j v = Done () w"
    using run by (auto elim!: thenK_DoneE simp del: thenK_run)
  have "dirty (bufs (bio w) ! i) = dirty (bufs (bio u) ! i)"
    using w(6) ij assms(2) by (auto simp: dirtyset_def)
  then have rel: "\<forall>k\<in>{i, j}. dirty (bufs (bio w) ! k) \<or> bdata (bufs (bio w) ! k) = disk (bio w) (bblockno (bufs (bio w) ! k))"
    using w(4,7) ij assms by auto
  have "dblocks (bio w) = dblocks (bio u) - {y}"
    using dblocks_drop [OF assms(1), of j "bio w"] w(6,7) assms(6) by auto
  moreover have "roomy (bio w)" by (rule roomy_mono [OF assms(3)]) (simp add: w(6))
  ultimately show ?thesis using v w rel by blast
qed

lemma copy_finish:
  assumes "bio_inv {i, j} u" "i \<noteq> j" "bframe s u" "roomy (bio s)" "x \<noteq> y"
    "bblockno (bufs (bio u) ! i) = x" "bblockno (bufs (bio u) ! j) = y" "bdata (bufs (bio u) ! i) = bview (bio s) x"
    "bview (bio u) = bview (bio s)" "disk (bio u) = disk (bio s)" "dwrites (bio u) = dwrites (bio s)"
    "dirtyset (bio u) = dirtyset (bio s)" "dblocks (bio u) = dblocks (bio s)"
    "dirty (bufs (bio u) ! i) \<or> bview (bio s) x = disk (bio s) x"
  shows "\<exists>t. bindK (buf_data i) (\<lambda>d. thenK (set_data j (\<lambda>_. d)) (thenK (bwrite j) (thenK (brelse i) (brelse j)))) u = Done () t \<and>
    copied x y s t"
proof -
  obtain v w where w: "set_data j (\<lambda>_. bview (bio s) x) u = Done () v" "bwrite j v = Done () w" "bframe u w" "bio_inv {i, j} w"
    "\<forall>k\<in>{i, j}. dirty (bufs (bio w) ! k) \<or> bdata (bufs (bio w) ! k) = disk (bio w) (bblockno (bufs (bio w) ! k))"
    "bview (bio w) = (bview (bio u))(y := bview (bio s) x)" "disk (bio w) = (disk (bio u))(y := bview (bio s) x)"
    "dwrites (bio w) = dwrites (bio u) @ [(y, bview (bio s) x)]" "dblocks (bio w) = dblocks (bio u) - {y}" "roomy (bio w)"
    using copy_locked [OF assms(1,2), of y "bview (bio s) x"] assms by (auto simp: roomy_def simp del: dirty_iff)
  obtain z where z: "thenK (brelse i) (brelse j) w = Done () z" "bio_inv {} z" "bframe w z" "bview (bio z) = bview (bio w)"
    "disk (bio z) = disk (bio w)" "dwrites (bio z) = dwrites (bio w)" "dirtyset (bio z) = dirtyset (bio w)" "dblocks (bio z) = dblocks (bio w)"
    using release_two [OF w(4) assms(2)] w(5) by blast
  have "copied x y s z"
    unfolding copied_def using z w assms bframe_trans [OF bframe_trans [OF assms(3) w(3)] z(3)] by (auto simp: roomy_def)
  then show ?thesis using assms(8) w(1,2) z(1) by (auto simp: buf_data_def)
qed

lemma install_copy:
  assumes "bio_inv {} s" "roomy (bio s)" "x < disksize (bio s)" "y < disksize (bio s)" "x \<noteq> y" "handy y (bio s)"
  shows "\<exists>t. bindK (bread 1 x) (\<lambda>i. bindK (bread 1 y) (\<lambda>j. bindK (buf_data i) (\<lambda>d.
      thenK (set_data j (\<lambda>_. d)) (thenK (bwrite j) (thenK (brelse i) (brelse j)))))) s = Done () t \<and> copied x y s t"
proof -
  obtain i t j u where r: "bread 1 x s = Done i t" "bread 1 y t = Done j u" "i \<noteq> j" "bio_inv {i, j} u" "bframe s u"
    "bblockno (bufs (bio u) ! i) = x" "bblockno (bufs (bio u) ! j) = y" "bdata (bufs (bio u) ! i) = bview (bio s) x"
    "bview (bio u) = bview (bio s)" "disk (bio u) = disk (bio s)" "dwrites (bio u) = dwrites (bio s)"
    "dirtyset (bio u) = dirtyset (bio s)" "dblocks (bio u) = dblocks (bio s)"
    "dirty (bufs (bio u) ! i) \<or> bview (bio s) x = disk (bio s) x"
    using two_reads [OF assms] by blast
  show ?thesis using copy_finish [OF r(4,3,5) assms(2,5) r(6-14)] r(1,2) by simp
qed

lemma log_copy:
  assumes "bio_inv {} s" "roomy (bio s)" "x < disksize (bio s)" "y < disksize (bio s)" "x \<noteq> y" "handy x (bio s)"
  shows "\<exists>t. bindK (bread 1 y) (\<lambda>j. bindK (bread 1 x) (\<lambda>i. bindK (buf_data i) (\<lambda>d.
      thenK (set_data j (\<lambda>_. d)) (thenK (bwrite j) (thenK (brelse i) (brelse j)))))) s = Done () t \<and> copied x y s t"
proof -
  obtain j t i u where r: "bread 1 y s = Done j t" "bread 1 x t = Done i u" "j \<noteq> i" "bio_inv {j, i} u" "bframe s u"
    "bblockno (bufs (bio u) ! j) = y" "bblockno (bufs (bio u) ! i) = x" "bdata (bufs (bio u) ! i) = bview (bio s) x"
    "bview (bio u) = bview (bio s)" "disk (bio u) = disk (bio s)" "dwrites (bio u) = dwrites (bio s)"
    "dirtyset (bio u) = dirtyset (bio s)" "dblocks (bio u) = dblocks (bio s)"
    "dirty (bufs (bio u) ! i) \<or> bview (bio s) x = disk (bio s) x"
    using two_reads [OF assms(1,2,4,3) assms(5) [symmetric] assms(6)] by blast
  have "bio_inv {i, j} u" using r(4) by (simp only: insert_commute)
  then show ?thesis using copy_finish [OF _ r(3) [symmetric] r(5) assms(2,5) r(7,6) r(8-14)] r(1,2) by simp
qed

section \<open>Loops over the log\<close>

text \<open>The contents of the blocks after a sequence of writes.\<close>

definition wr_all :: "(u32 \<times> u8 list) list \<Rightarrow> (u32 \<Rightarrow> u8 list) \<Rightarrow> u32 \<Rightarrow> u8 list" where
  "wr_all ws D = foldl (\<lambda>D (b, d). D(b := d)) D ws"

lemma wr_all_simps [simp]:
  "wr_all [] D = D" "wr_all ((b, d) # ws) D = wr_all ws (D(b := d))" "wr_all (vs @ ws) D = wr_all ws (wr_all vs D)"
  by (simp_all add: wr_all_def)

lemma wr_all_other: "b \<notin> fst ` set ws \<Longrightarrow> wr_all ws D b = D b"
  by (induction ws arbitrary: D) auto

lemma wr_all_hit:
  assumes "(b, d) \<in> set ws" "distinct (map fst ws)"
  shows "wr_all ws D b = d"
  using assms
proof (induction ws arbitrary: D)
  case Nil
  then show ?case by simp
next
  case (Cons p ws)
  obtain b' d' where p: "p = (b', d')" by fastforce
  show ?case
  proof (cases "p = (b, d)")
    case True
    then show ?thesis using Cons.prems(2) by (simp add: wr_all_other)
  next
    case False
    then show ?thesis using Cons p by auto
  qed
qed

text \<open>A write of something already known to be written last does not matter to the result.\<close>

lemma wr_all_take:
  assumes "distinct (map fst ws)"
  shows "wr_all ws (wr_all (take k ws) D) = wr_all ws D"
proof
  fix b
  show "wr_all ws (wr_all (take k ws) D) b = wr_all ws D b"
  proof (cases "b \<in> fst ` set ws")
    case True
    then obtain d where "(b, d) \<in> set ws" by auto
    then show ?thesis using assms by (simp add: wr_all_hit)
  next
    case False
    then have "b \<notin> fst ` set (take k ws)" by (meson image_mono set_take_subset subsetD)
    then show ?thesis using False by (simp add: wr_all_other)
  qed
qed

text \<open>The effect of a run of block writes whose contents are known beforehand.\<close>

definition wrote :: "(u32 \<times> u8 list) list \<Rightarrow> 'z klog_scheme \<Rightarrow> 'z klog_scheme \<Rightarrow> bool" where
  "wrote ws s t \<longleftrightarrow> bio_inv {} t \<and> bframe s t \<and> bview (bio t) = wr_all ws (bview (bio s)) \<and>
     disk (bio t) = wr_all ws (disk (bio s)) \<and> dwrites (bio t) = dwrites (bio s) @ ws \<and>
     dblocks (bio t) = dblocks (bio s) - fst ` set ws \<and> roomy (bio t)"

lemma wrote_Nil: "bio_inv {} s \<Longrightarrow> roomy (bio s) \<Longrightarrow> wrote [] s s"
  by (simp add: wrote_def)

lemma wrote_copied: "copied x y s t \<longleftrightarrow> wrote [(y, bview (bio s) x)] s t"
  by (auto simp: copied_def wrote_def)

lemma wrote_append: "wrote vs s t \<Longrightarrow> wrote ws t u \<Longrightarrow> wrote (vs @ ws) s u"
  by (auto simp: wrote_def elim: bframe_trans)

lemma wrote_lg: "bframe s t \<Longrightarrow> lg t = lg s \<and> klog.more t = klog.more s"
  by (cases s; cases t) (simp add: bframe_def)

lemma forK_wrote:
  assumes "bio_inv {} s" "roomy (bio s)"
    "\<And>js k u. \<exists>ls. ks = js @ k # ls \<Longrightarrow> bio_inv {} u \<Longrightarrow> roomy (bio u) \<Longrightarrow> bframe s u \<Longrightarrow> dblocks (bio u) = dblocks (bio s) - y ` set js \<Longrightarrow>
       \<exists>t. f k u = Done () t \<and> wrote [(y k, bview (bio u) (x k))] u t"
    "\<And>j k. j \<in> set ks \<Longrightarrow> k \<in> set ks \<Longrightarrow> x j \<noteq> y k"
  shows "\<exists>t. forK ks f s = Done () t \<and> wrote (map (\<lambda>k. (y k, bview (bio s) (x k))) ks) s t"
  using assms
proof (induction ks arbitrary: s)
  case Nil
  then show ?case using wrote_Nil by auto
next
  case (Cons k ks)
  obtain t where t: "f k s = Done () t" "wrote [(y k, bview (bio s) (x k))] s t"
    using Cons.prems(3) [of "[]" k s] Cons.prems(1,2) by auto
  have t': "bio_inv {} t" "roomy (bio t)" "bframe s t" "bview (bio t) = (bview (bio s))(y k := bview (bio s) (x k))"
    "dblocks (bio t) = dblocks (bio s) - {y k}"
    using t(2) by (auto simp: wrote_def)
  have "\<exists>u. forK ks f t = Done () u \<and> wrote (map (\<lambda>j. (y j, bview (bio t) (x j))) ks) t u"
  proof (rule Cons.IH [OF t'(1,2)])
    show "\<exists>v. f j u = Done () v \<and> wrote [(y j, bview (bio u) (x j))] u v"
      if "\<exists>ls. ks = js @ j # ls" "bio_inv {} u" "roomy (bio u)" "bframe t u" "dblocks (bio u) = dblocks (bio t) - y ` set js" for js j u
      using that t'(5) bframe_trans [OF t'(3)] by (intro Cons.prems(3) [of "k # js"]) auto
    show "x i \<noteq> y j" if "i \<in> set ks" "j \<in> set ks" for i j using that Cons.prems(4) by simp
  qed
  then obtain u where u: "forK ks f t = Done () u" "wrote (map (\<lambda>j. (y j, bview (bio t) (x j))) ks) t u" by blast
  have same: "map (\<lambda>j. (y j, bview (bio t) (x j))) ks = map (\<lambda>j. (y j, bview (bio s) (x j))) ks"
    using t'(4) Cons.prems(4) by (intro map_cong) auto
  show ?case using t(1) u(1) wrote_append [OF t(2) u(2) [unfolded same]] by simp
qed

lemma upt_split:
  assumes "[0..<n] = js @ k # ls"
  shows "js = [0..<k] \<and> k < n"
proof -
  have n: "length js < n" using arg_cong [OF assms, of length] by simp
  then have "k = length js" using arg_cong [OF assms, of "\<lambda>xs. xs ! length js"] by simp
  moreover have "js = take (length js) [0..<n]" by (simp add: assms)
  ultimately show ?thesis using n by (simp add: take_upt)
qed

section \<open>The header block\<close>

lemma length_put_head [simp]: "length (put_head n bs d) = length d"
proof -
  have "length (foldl (\<lambda>d i. put32 (4 + 4 * i) (bs ! i) d) e is) = length e" for e "is"
    by (induction "is" arbitrary: e) simp_all
  then show ?thesis by (simp add: put_head_def)
qed

lemma head_count:
  assumes "4 \<le> length d"
  shows "le32 (put_head n bs d) 0 = of_nat n"
proof -
  have "le32 (foldl (\<lambda>d i. put32 (4 + 4 * i) (bs ! i) d) e [0..<m]) 0 = le32 e 0" for e m
    by (induction m) (simp_all add: le32_put32_other)
  then show ?thesis using assms by (simp add: put_head_def)
qed

lemma head_block:
  assumes "i < n" "4 + 4 * n \<le> length d"
  shows "le32 (put_head n bs d) (4 + 4 * i) = bs ! i"
proof -
  have "le32 (foldl (\<lambda>d i. put32 (4 + 4 * i) (bs ! i) d) e [0..<m]) (4 + 4 * i) = bs ! i"
    if "i < m" "4 + 4 * m \<le> length e" for e m
    using that
  proof (induction m)
    case 0
    then show ?case by simp
  next
    case (Suc m)
    have len: "length (foldl (\<lambda>d i. put32 (4 + 4 * i) (bs ! i) d) e [0..<m]) = length e" for m
      by (induction m) simp_all
    show ?case
    proof (cases "i = m")
      case True
      then show ?thesis using Suc.prems len [of m] by simp
    next
      case False
      then show ?thesis using Suc by (simp add: le32_put32_other)
    qed
  qed
  then show ?thesis using assms by (simp add: put_head_def)
qed

text \<open>The log's place on the disk: \<^verbatim>\<open>log.size\<close> blocks from \<^verbatim>\<open>log.start\<close> on, the first of them the header.\<close>

definition log_block :: "logst \<Rightarrow> nat \<Rightarrow> u32" where
  "log_block l i = lg_start l + of_nat i + 1"

definition log_room :: "logst \<Rightarrow> nat" where
  "log_room l = unat (lg_size l) - 1"

definition log_area :: "logst \<Rightarrow> u32 set" where
  "log_area l = insert (lg_start l) (log_block l ` {..<log_room l})"

definition log_geom :: "logst \<Rightarrow> biost \<Rightarrow> bool" where
  "log_geom l c \<longleftrightarrow> lg_dev l = 1 \<and> 0 < lg_size l \<and> lg_size l < 2 ^ 31 \<and> unat (lg_start l) + unat (lg_size l) \<le> unat (disksize c)"

text \<open>The blocks of a transaction: distinct home blocks outside the log, as many as the log and its header can take.\<close>

definition txn_ok :: "logst \<Rightarrow> biost \<Rightarrow> nat \<Rightarrow> u32 list \<Rightarrow> bool" where
  "txn_ok l c n bs \<longleftrightarrow> n \<le> LOGSIZE \<and> n \<le> log_room l \<and> n \<le> length bs \<and> distinct (take n bs) \<and>
     (\<forall>i<n. bs ! i \<notin> log_area l \<and> bs ! i < disksize c)"

lemma log_size_room: "log_geom l c \<Longrightarrow> unat (lg_size l) = Suc (log_room l)"
  by (simp add: log_geom_def log_room_def unat_gt_0 word_gt_0)

lemma log_block_unat:
  assumes "log_geom l c" "i < log_room l"
  shows "unat (log_block l i) = unat (lg_start l) + i + 1"
proof -
  have "unat (lg_start l) + i + 1 < 4294967296"
    using assms log_size_room [OF assms(1)] unat32_less [of "disksize c"] unfolding log_geom_def by linarith
  moreover have "log_block l i = lg_start l + of_nat (i + 1)" by (simp add: log_block_def)
  ultimately show ?thesis using unat_offset [of "lg_start l" "i + 1"] by simp
qed

lemma lg_start_props:
  assumes "log_geom l c"
  shows "lg_start l < disksize c" "lg_start l \<in> log_area l"
  using log_size_room [OF assms] assms by (simp_all add: log_geom_def log_area_def word_less_nat_alt)

lemma log_block_props:
  assumes "log_geom l c" "i < log_room l"
  shows "log_block l i < disksize c" "log_block l i \<noteq> lg_start l"
    "j < log_room l \<Longrightarrow> log_block l i = log_block l j \<longleftrightarrow> i = j" "log_block l i \<in> log_area l"
proof -
  note u = log_block_unat [OF assms]
  show "log_block l i < disksize c" using u assms log_size_room [OF assms(1)] by (simp add: log_geom_def word_less_nat_alt)
  show "log_block l i \<noteq> lg_start l"
  proof
    assume "log_block l i = lg_start l"
    then show False using u by simp
  qed
  show "log_block l i = log_block l j \<longleftrightarrow> i = j" if "j < log_room l"
  proof
    assume "log_block l i = log_block l j"
    then have "unat (log_block l i) = unat (log_block l j)" by (rule arg_cong)
    then show "i = j" unfolding u log_block_unat [OF assms(1) that] by linarith
  qed simp
  show "log_block l i \<in> log_area l" using assms(2) by (auto simp: log_area_def)
qed

text \<open>A block lies in the log if and only if its number is in the range of the log.\<close>

lemma log_area_range:
  assumes "log_geom l c"
  shows "b \<in> log_area l \<longleftrightarrow> unat (lg_start l) \<le> unat b \<and> unat b < unat (lg_start l) + unat (lg_size l)"
proof
  assume "b \<in> log_area l"
  then show "unat (lg_start l) \<le> unat b \<and> unat b < unat (lg_start l) + unat (lg_size l)"
    using log_block_unat [OF assms] log_size_room [OF assms] by (auto simp: log_area_def)
next
  assume r: "unat (lg_start l) \<le> unat b \<and> unat b < unat (lg_start l) + unat (lg_size l)"
  show "b \<in> log_area l"
  proof (cases "unat b = unat (lg_start l)")
    case True
    then have "b = lg_start l" by (simp only: word_unat_eq_iff)
    then show ?thesis by (simp add: log_area_def)
  next
    case False
    define i where "i = unat b - unat (lg_start l) - 1"
    have i: "i < log_room l" "unat b = unat (lg_start l) + i + 1" using r False log_size_room [OF assms] by (auto simp: i_def)
    then have "log_block l i = b" using log_block_unat [OF assms i(1)] by (intro word_unat_eq_iff [THEN iffD2]) simp
    then show ?thesis using log_block_props(4) [OF assms i(1)] by simp
  qed
qed

lemma set_data_const: "bdata (bufs (bio t) ! i) = d \<Longrightarrow> set_data i f t = set_data i (\<lambda>_. f d) t"
  by (simp add: set_data_def mod_buf_def upd_slot_def)

lemma write_head_ok:
  assumes "bio_inv {} s" "roomy (bio s)" "log_geom (lg s) (bio s)"
  shows "\<exists>t. write_head s = Done () t \<and>
    wrote [(lg_start (lg s), put_head (lh_n (lg_lh (lg s))) (lh_block (lg_lh (lg s))) (bview (bio s) (lg_start (lg s))))] s t"
proof -
  let ?b = "lg_start (lg s)" and ?f = "put_head (lh_n (lg_lh (lg s))) (lh_block (lg_lh (lg s)))"
  have b: "?b < disksize (bio s)" and dev: "lg_dev (lg s) = 1"
    using lg_start_props(1) [OF assms(3)] assms(3) by (simp_all add: log_geom_def)
  obtain i t where t: "bread 1 ?b s = Done i t" "bread_post {} s ?b i t"
    using bread_ok [OF assms(1) b] roomy_clean [OF assms(2)] by auto
  have t': "bio_inv {i} t" "bframe s t" "bblockno (bufs (bio t) ! i) = ?b" "bdata (bufs (bio t) ! i) = bview (bio s) ?b"
    "bview (bio t) = bview (bio s)" "disk (bio t) = disk (bio s)" "dwrites (bio t) = dwrites (bio s)"
    using t(2) by (simp_all add: bread_post_def)
  note d = bread_dirty [OF t(2)]
  have same: "set_data i ?f t = set_data i (\<lambda>_. ?f (bview (bio s) ?b)) t"
    by (rule set_data_const [OF t'(4)])
  obtain u where run: "thenK (set_data i (\<lambda>_. ?f (bview (bio s) ?b))) (bwrite i) t = Done () u" and u: "bio_inv {i} u" "bframe t u"
    "bview (bio u) = (bview (bio t))(?b := ?f (bview (bio s) ?b))" "disk (bio u) = (disk (bio t))(?b := ?f (bview (bio s) ?b))"
    "dwrites (bio u) = dwrites (bio t) @ [(?b, ?f (bview (bio s) ?b))]" "dirtyset (bio u) = dirtyset (bio t) - {i}"
    "\<forall>k<NBUF. bblockno (bufs (bio u) ! k) = bblockno (bufs (bio t) ! k) \<and>
       bdata (bufs (bio u) ! k) = (if k = i then ?f (bview (bio s) ?b) else bdata (bufs (bio t) ! k))"
    using store_block [OF t'(1), of i "?f (bview (bio s) ?b)"] t'(3) by auto
  have i: "i < NBUF" using held_valid(1) [OF t'(1)] by simp
  obtain v where v: "brelse i u = Done () v" "bio_inv ({i} - {i}) v" "bframe u v" "bview (bio v) = bview (bio u)"
    "disk (bio v) = disk (bio u)" "dwrites (bio v) = dwrites (bio u)"
    "\<forall>j<NBUF. bblockno (bufs (bio v) ! j) = bblockno (bufs (bio u) ! j) \<and> bdata (bufs (bio v) ! j) = bdata (bufs (bio u) ! j) \<and>
       dirty (bufs (bio v) ! j) = dirty (bufs (bio u) ! j)"
    using brelse_ok [OF u(1), of i] u(4,7) i t'(3) by auto
  have ds: "dirtyset (bio v) = dirtyset (bio t) - {i}" using v(7) u(6) by (auto simp: dirtyset_def)
  have "dblocks (bio v) = dblocks (bio t) - {?b}"
    using dblocks_drop [OF t'(1), of i "bio v"] ds v(7) u(7) t'(3) by auto
  moreover have "roomy (bio v)" by (rule roomy_mono [OF assms(2)]) (simp add: ds d)
  ultimately have "wrote [(?b, ?f (bview (bio s) ?b))] s v"
    unfolding wrote_def using v u t' d bframe_trans [OF bframe_trans [OF t'(2) u(2)] v(3)] by simp
  moreover have "write_head s = Done () v"
    using t(1) run v(1) dev same by (auto simp: write_head_def split: outcome.splits)
  ultimately show ?thesis by blast
qed

section \<open>Commit and recovery\<close>

lemma bio_inv_lg [simp]: "bio_inv H (s\<lparr>lg := l\<rparr>) = bio_inv H s"
  by (simp add: bio_inv_def sl_held_def)

lemma bframe_lg: "bframe s t \<Longrightarrow> bframe (s\<lparr>lg := l\<rparr>) (t\<lparr>lg := l\<rparr>)"
  by (cases s; cases t) (simp add: bframe_def)

lemma wrote_set_lg: "wrote ws s t \<Longrightarrow> wrote ws (s\<lparr>lg := l\<rparr>) (t\<lparr>lg := l\<rparr>)"
  by (simp add: wrote_def bframe_lg)

lemma wroteD:
  assumes "wrote ws s t"
  shows "bio_inv {} t" "roomy (bio t)" "lg t = lg s" "disksize (bio t) = disksize (bio s)"
    "bview (bio t) = wr_all ws (bview (bio s))" "disk (bio t) = wr_all ws (disk (bio s))"
  using assms wrote_lg [of s t] by (auto simp: wrote_def bframe_def)

lemma log_geom_cong: "disksize c = disksize d \<Longrightarrow> log_geom l c = log_geom l d"
  by (simp add: log_geom_def)

lemma nth_in_take: "k < n \<Longrightarrow> n \<le> length bs \<Longrightarrow> bs ! k \<in> set (take n bs)"
  by (metis in_set_conv_nth length_take min.absorb2 nth_take)

lemma txn_nth:
  assumes "txn_ok l c n bs" "k < n"
  shows "k < log_room l" "bs ! k \<notin> log_area l" "bs ! k < disksize c" "bs ! k \<in> set (take n bs)" "bs ! k \<notin> (!) bs ` {..<k}"
proof -
  have n: "n \<le> length bs" "distinct (take n bs)" using assms(1) by (auto simp: txn_ok_def)
  show "k < log_room l" "bs ! k \<notin> log_area l" "bs ! k < disksize c" using assms by (auto simp: txn_ok_def)
  show "bs ! k \<in> set (take n bs)" by (rule nth_in_take [OF assms(2) n(1)])
  show "bs ! k \<notin> (!) bs ` {..<k}"
  proof
    assume "bs ! k \<in> (!) bs ` {..<k}"
    then obtain j where "j < k" "take n bs ! k = take n bs ! j" using assms(2) by auto
    then show False using n assms(2) nth_eq_iff_index_eq [OF n(2), of k j] by simp
  qed
qed

lemma install_trans_ok:
  assumes "bio_inv {} s" "roomy (bio s)" "log_geom (lg s) (bio s)" "lh_n (lg_lh (lg s)) = n" "lh_block (lg_lh (lg s)) = bs"
    "txn_ok (lg s) (bio s) n bs" "set (take n bs) \<subseteq> dblocks (bio s) \<or> dblocks (bio s) = {}"
  shows "\<exists>t. install_trans s = Done () t \<and> wrote (map (\<lambda>i. (bs ! i, bview (bio s) (log_block (lg s) i))) [0..<n]) s t"
proof -
  note tn = txn_nth [OF assms(6)]
  have "\<exists>t. install_one k u = Done () t \<and> wrote [(bs ! k, bview (bio u) (log_block (lg s) k))] u t"
    if "\<exists>ls. [0..<n] = js @ k # ls" "bio_inv {} u" "roomy (bio u)" "bframe s u" "dblocks (bio u) = dblocks (bio s) - (!) bs ` set js" for js k u
  proof -
    have k: "k < n" "js = [0..<k]" using that(1) upt_split by blast+
    have l: "lg u = lg s" "disksize (bio u) = disksize (bio s)" "lg_dev (lg s) = 1"
      using wrote_lg [OF that(4)] that(4) assms(3) by (auto simp: bframe_def log_geom_def)
    have "log_block (lg s) k < disksize (bio u)" "bs ! k < disksize (bio u)" "log_block (lg s) k \<noteq> bs ! k"
      using log_block_props(1,4) [OF assms(3) tn(1) [OF k(1)]] tn [OF k(1)] l(2) by auto
    moreover have "handy (bs ! k) (bio u)"
      using assms(7) tn(4,5) [OF k(1)] by (auto simp: handy_def that(5) k(2) atLeast0LessThan)
    ultimately have "\<exists>t. bindK (bread 1 (log_block (lg s) k)) (\<lambda>i. bindK (bread 1 (bs ! k)) (\<lambda>j. bindK (buf_data i) (\<lambda>d.
      thenK (set_data j (\<lambda>_. d)) (thenK (bwrite j) (thenK (brelse i) (brelse j)))))) u = Done () t \<and> copied (log_block (lg s) k) (bs ! k) u t"
      by (rule install_copy [OF that(2,3)])
    then show ?thesis
      unfolding install_one_def wrote_copied [symmetric] using l assms(5) by (simp add: log_block_def)
  qed
  moreover have "log_block (lg s) j \<noteq> bs ! k" if "j \<in> set [0..<n]" "k \<in> set [0..<n]" for j k
    using that log_block_props(4) [OF assms(3) tn(1), of j] tn(2) [of k] by auto
  ultimately have "\<exists>t. forK [0..<n] install_one s = Done () t \<and> wrote (map (\<lambda>i. (bs ! i, bview (bio s) (log_block (lg s) i))) [0..<n]) s t"
    by (rule forK_wrote [OF assms(1,2)])
  then show ?thesis using assms(4) by (simp add: install_trans_def)
qed

lemma write_log_ok:
  assumes "bio_inv {} s" "roomy (bio s)" "log_geom (lg s) (bio s)" "lh_n (lg_lh (lg s)) = n" "lh_block (lg_lh (lg s)) = bs"
    "txn_ok (lg s) (bio s) n bs" "set (take n bs) \<subseteq> dblocks (bio s)"
  shows "\<exists>t. write_log s = Done () t \<and> wrote (map (\<lambda>i. (log_block (lg s) i, bview (bio s) (bs ! i))) [0..<n]) s t"
proof -
  note tn = txn_nth [OF assms(6)]
  have "\<exists>t. write_log_one k u = Done () t \<and> wrote [(log_block (lg s) k, bview (bio u) (bs ! k))] u t"
    if "\<exists>ls. [0..<n] = js @ k # ls" "bio_inv {} u" "roomy (bio u)" "bframe s u" "dblocks (bio u) = dblocks (bio s) - log_block (lg s) ` set js" for js k u
  proof -
    have k: "k < n" "js = [0..<k]" using that(1) upt_split by blast+
    have l: "lg u = lg s" "disksize (bio u) = disksize (bio s)" "lg_dev (lg s) = 1"
      using wrote_lg [OF that(4)] that(4) assms(3) by (auto simp: bframe_def log_geom_def)
    have "bs ! k < disksize (bio u)" "log_block (lg s) k < disksize (bio u)" "bs ! k \<noteq> log_block (lg s) k"
      using log_block_props(1,4) [OF assms(3) tn(1) [OF k(1)]] tn [OF k(1)] l(2) by auto
    moreover have "handy (bs ! k) (bio u)"
    proof -
      have "log_block (lg s) ` set js \<subseteq> log_area (lg s)" using log_block_props(4) [OF assms(3)] tn(1) [OF k(1)] k(2) by auto
      then show ?thesis using assms(7) tn(2,4) [OF k(1)] by (auto simp: handy_def that(5))
    qed
    ultimately have "\<exists>t. bindK (bread 1 (log_block (lg s) k)) (\<lambda>j. bindK (bread 1 (bs ! k)) (\<lambda>i. bindK (buf_data i) (\<lambda>d.
      thenK (set_data j (\<lambda>_. d)) (thenK (bwrite j) (thenK (brelse i) (brelse j)))))) u = Done () t \<and> copied (bs ! k) (log_block (lg s) k) u t"
      by (rule log_copy [OF that(2,3)])
    then show ?thesis
      unfolding write_log_one_def wrote_copied [symmetric] using l assms(5) by (simp add: log_block_def)
  qed
  moreover have "bs ! j \<noteq> log_block (lg s) k" if "j \<in> set [0..<n]" "k \<in> set [0..<n]" for j k
    using that log_block_props(4) [OF assms(3) tn(1), of k] tn(2) [of j] by auto
  ultimately have "\<exists>t. forK [0..<n] write_log_one s = Done () t \<and> wrote (map (\<lambda>i. (log_block (lg s) i, bview (bio s) (bs ! i))) [0..<n]) s t"
    by (rule forK_wrote [OF assms(1,2)])
  then show ?thesis using assms(4) by (simp add: write_log_def)
qed

text \<open>The disk writes of a commit: the log blocks, the header, the home blocks, the empty header.\<close>

definition log_writes :: "logst \<Rightarrow> (u32 \<Rightarrow> u8 list) \<Rightarrow> (u32 \<times> u8 list) list" where
  "log_writes l v = map (\<lambda>i. (log_block l i, v (lh_block (lg_lh l) ! i))) [0..<lh_n (lg_lh l)]"

definition home_writes :: "logst \<Rightarrow> (u32 \<Rightarrow> u8 list) \<Rightarrow> (u32 \<times> u8 list) list" where
  "home_writes l v = map (\<lambda>i. (lh_block (lg_lh l) ! i, v (lh_block (lg_lh l) ! i))) [0..<lh_n (lg_lh l)]"

definition full_head :: "logst \<Rightarrow> (u32 \<Rightarrow> u8 list) \<Rightarrow> u8 list" where
  "full_head l v = put_head (lh_n (lg_lh l)) (lh_block (lg_lh l)) (v (lg_start l))"

definition commit_writes :: "logst \<Rightarrow> (u32 \<Rightarrow> u8 list) \<Rightarrow> (u32 \<times> u8 list) list" where
  "commit_writes l v = log_writes l v @ [(lg_start l, full_head l v)] @ home_writes l v @
     [(lg_start l, put_head 0 (lh_block (lg_lh l)) (full_head l v))]"

definition lg_emptied :: "logst \<Rightarrow> logst" where
  "lg_emptied l = l\<lparr>lg_lh := (lg_lh l)\<lparr>lh_n := 0\<rparr>\<rparr>"

lemma log_writes_fst:
  assumes "log_geom l c" "txn_ok l c (lh_n (lg_lh l)) (lh_block (lg_lh l))"
  shows "distinct (map fst (log_writes l v))" "lg_start l \<notin> fst ` set (log_writes l v)" "fst ` set (log_writes l v) \<subseteq> log_area l"
    "distinct (map fst (home_writes l v))" "fst ` set (home_writes l v) = set (take (lh_n (lg_lh l)) (lh_block (lg_lh l)))"
    "fst ` set (home_writes l v) \<inter> log_area l = {}"
proof -
  let ?n = "lh_n (lg_lh l)" and ?bs = "lh_block (lg_lh l)"
  have n: "?n \<le> log_room l" "?n \<le> length ?bs" "distinct (take ?n ?bs)" using assms(2) by (auto simp: txn_ok_def)
  have fst1: "map fst (log_writes l v) = map (log_block l) [0..<?n]" and fst2: "map fst (home_writes l v) = take ?n ?bs"
    using n(2) by (auto simp: log_writes_def home_writes_def list_eq_iff_nth_eq)
  show "distinct (map fst (log_writes l v))"
    using n(1) log_block_props(3) [OF assms(1)] by (auto simp: fst1 distinct_map inj_on_def)
  show "fst ` set (log_writes l v) \<subseteq> log_area l" using n(1) log_block_props(4) [OF assms(1)] by (auto simp: log_writes_def)
  have "log_block l i \<noteq> lg_start l" if "i < ?n" for i using log_block_props(2) [OF assms(1), of i] n(1) that by simp
  then show "lg_start l \<notin> fst ` set (log_writes l v)" by (force simp: log_writes_def)
  show "distinct (map fst (home_writes l v))" using n(3) by (simp add: fst2)
  show s: "fst ` set (home_writes l v) = set (take ?n ?bs)" by (metis fst2 list.set_map)
  have "b \<notin> log_area l" if "b \<in> set (take ?n ?bs)" for b
    using that assms(2) n(2) by (auto simp: txn_ok_def in_set_conv_nth)
  then show "fst ` set (home_writes l v) \<inter> log_area l = {}" using s by auto
qed

lemma commit_ok:
  assumes "bio_inv {} s" "roomy (bio s)" "log_geom (lg s) (bio s)" "0 < lh_n (lg_lh (lg s))"
    "txn_ok (lg s) (bio s) (lh_n (lg_lh (lg s))) (lh_block (lg_lh (lg s)))"
    "set (take (lh_n (lg_lh (lg s))) (lh_block (lg_lh (lg s)))) \<subseteq> dblocks (bio s)"
  shows "\<exists>t. commit s = Done () t \<and> wrote (commit_writes (lg s) (bview (bio s))) (s\<lparr>lg := lg_emptied (lg s)\<rparr>) t"
proof -
  let ?l = "lg s" and ?v = "bview (bio s)" and ?n = "lh_n (lg_lh (lg s))" and ?bs = "lh_block (lg_lh (lg s))"
  note fst = log_writes_fst [OF assms(3,5)]
  obtain s1 where s1: "write_log s = Done () s1" "wrote (log_writes ?l ?v) s s1"
    using write_log_ok [OF assms(1-3) refl refl assms(5,6)] by (auto simp: log_writes_def)
  note w1 = wroteD [OF s1(2)]
  have "\<exists>t. write_head s1 = Done () t \<and> wrote [(lg_start ?l, put_head ?n ?bs (bview (bio s1) (lg_start ?l)))] s1 t"
    using write_head_ok [OF w1(1,2)] log_geom_cong [OF w1(4)] assms(3) by (simp add: w1(3))
  moreover have "bview (bio s1) (lg_start ?l) = ?v (lg_start ?l)" using fst(2) by (simp add: w1(5) wr_all_other)
  ultimately obtain s2 where s2: "write_head s1 = Done () s2" "wrote [(lg_start ?l, full_head ?l ?v)] s1 s2"
    by (auto simp: full_head_def)
  note w2 = wroteD [OF s2(2)]
  have l2: "lg s2 = ?l" "disksize (bio s2) = disksize (bio s)" using w1 w2 by auto
  have txn2: "txn_ok (lg s2) (bio s2) ?n ?bs" using assms(5) l2 by (simp add: txn_ok_def)
  have "dblocks (bio s2) = dblocks (bio s) - insert (lg_start ?l) (fst ` set (log_writes ?l ?v))" using s1(2) s2(2) by (auto simp: wrote_def)
  then have d2: "set (take ?n ?bs) \<subseteq> dblocks (bio s2)"
    using assms(6) fst(3,5,6) lg_start_props(2) [OF assms(3)] by fastforce
  have logged: "bview (bio s2) (log_block ?l i) = ?v (?bs ! i)" if "i < ?n" for i
  proof -
    have i: "i < log_room ?l" using that assms(5) by (simp add: txn_ok_def)
    have "(log_block ?l i, ?v (?bs ! i)) \<in> set (log_writes ?l ?v)" using that by (auto simp: log_writes_def)
    then show ?thesis using fst(1) log_block_props(2) [OF assms(3) i] by (simp add: w2(5) w1(5) wr_all_hit)
  qed
  have "\<exists>t. install_trans s2 = Done () t \<and> wrote (map (\<lambda>i. (?bs ! i, bview (bio s2) (log_block (lg s2) i))) [0..<?n]) s2 t"
    using l2 log_geom_cong [OF l2(2)] assms(3) d2 by (intro install_trans_ok [OF w2(1,2) _ _ _ txn2]) simp_all
  moreover have "map (\<lambda>i. (?bs ! i, bview (bio s2) (log_block (lg s2) i))) [0..<?n] = home_writes ?l ?v"
    using logged l2 by (auto simp: home_writes_def)
  ultimately obtain s3 where s3: "install_trans s2 = Done () s3" "wrote (home_writes ?l ?v) s2 s3" by metis
  note w3 = wroteD [OF s3(2)]
  let ?s3 = "s3\<lparr>lg := lg_emptied ?l\<rparr>"
  have g3: "log_geom (lg_emptied ?l) (bio s3)" using assms(3) w3(4) l2 by (simp add: log_geom_def lg_emptied_def)
  have start3: "bview (bio s3) (lg_start ?l) = full_head ?l ?v"
  proof -
    have "lg_start ?l \<notin> fst ` set (home_writes ?l ?v)" using fst(6) lg_start_props(2) [OF assms(3)] by auto
    then show ?thesis by (simp add: w3(5) w2(5) wr_all_other)
  qed
  have "\<exists>t. write_head ?s3 = Done () t \<and> wrote [(lg_start ?l, put_head 0 ?bs (full_head ?l ?v))] ?s3 t"
    using write_head_ok [of ?s3] w3(1,2) g3 start3 by (simp add: lg_emptied_def)
  then obtain s4 where s4: "write_head ?s3 = Done () s4" "wrote [(lg_start ?l, put_head 0 ?bs (full_head ?l ?v))] ?s3 s4" by blast
  have "wrote (log_writes ?l ?v @ [(lg_start ?l, full_head ?l ?v)] @ home_writes ?l ?v) s s3"
    using wrote_append [OF s1(2) wrote_append [OF s2(2) s3(2)]] by simp
  from wrote_append [OF wrote_set_lg [OF this, of "lg_emptied ?l"] s4(2)]
  have "wrote (commit_writes ?l ?v) (s\<lparr>lg := lg_emptied ?l\<rparr>) s4" by (simp add: commit_writes_def)
  moreover have "lg s3 = ?l" using w3(3) l2 by simp
  then have "commit s = Done () s4"
    using assms(4) s1(1) s2(1) s3(1) s4(1) by (simp add: commit_def lg_emptied_def)
  ultimately show ?thesis by blast
qed

text \<open>A block that no dirty buffer holds is on the disk as the file system sees it.\<close>

lemma bview_clean:
  assumes "bio_inv {} s" "b \<notin> dblocks (bio s)"
  shows "bview (bio s) b = disk (bio s) b"
proof (cases "\<exists>i<NBUF. valid (bufs (bio s) ! i) \<and> bblockno (bufs (bio s) ! i) = b")
  case True
  then obtain i where i: "i < NBUF" "valid (bufs (bio s) ! i)" "bblockno (bufs (bio s) ! i) = b" by blast
  have "\<not> dirty (bufs (bio s) ! i)" using assms(2) i by (auto simp: dblocks_def dirtyset_def simp del: dirty_iff)
  then show ?thesis
    using bview_cached [OF bio_invD(2) [OF assms(1)] i(1,2)] bc_invD(5) [OF bio_invD(2) [OF assms(1)] i(1)] i by (auto simp: buf_ok_def)
next
  case False
  then show ?thesis using bview_uncached [OF bc_invD(1) [OF bio_invD(2) [OF assms(1)]]] by blast
qed

lemma forK_set_blocks:
  "forK ks (\<lambda>i. modL (\<lambda>l. l\<lparr>lg_lh := (lg_lh l)\<lparr>lh_block := (lh_block (lg_lh l))[i := g i]\<rparr>\<rparr>)) s =
     Done () (s\<lparr>lg := (lg s)\<lparr>lg_lh := (lg_lh (lg s))\<lparr>lh_block := foldl (\<lambda>bs i. bs[i := g i]) (lh_block (lg_lh (lg s))) ks\<rparr>\<rparr>\<rparr>)"
  by (induction ks arbitrary: s) (simp_all add: klog.equality)

lemma foldl_updates:
  "length (foldl (\<lambda>bs i. bs[i := g i]) bs ks) = length bs"
  "i < length bs \<Longrightarrow> foldl (\<lambda>bs i. bs[i := g i]) bs ks ! i = (if i \<in> set ks then g i else bs ! i)"
proof (induction ks arbitrary: bs)
  case (Cons k ks)
  { case 1 show ?case using Cons.IH(1) by simp }
  { case 2 then show ?case using Cons.IH(2) [of "bs[k := g k]"] by (auto simp: nth_list_update) }
qed simp_all

definition head_n :: "u8 list \<Rightarrow> nat" where
  "head_n d = nat (sint (le32 d 0))"

lemma read_head_ok:
  assumes "bio_inv {} s" "roomy (bio s)" "log_geom (lg s) (bio s)" "length (lh_block (lg_lh (lg s))) = LOGSIZE"
    "head_n (bview (bio s) (lg_start (lg s))) \<le> LOGSIZE"
  shows "\<exists>t h. read_head s = Done () t \<and> wrote [] (s\<lparr>lg := (lg s)\<lparr>lg_lh := h\<rparr>\<rparr>) t \<and>
    lh_n h = head_n (bview (bio s) (lg_start (lg s))) \<and> length (lh_block h) = LOGSIZE \<and>
    (\<forall>i<lh_n h. lh_block h ! i = le32 (bview (bio s) (lg_start (lg s))) (4 + 4 * i))"
proof -
  let ?b = "lg_start (lg s)" and ?d = "bview (bio s) (lg_start (lg s))"
  let ?h = "(lg_lh (lg s))\<lparr>lh_n := head_n ?d, lh_block := foldl (\<lambda>bs i. bs[i := le32 ?d (4 + 4 * i)]) (lh_block (lg_lh (lg s))) [0..<head_n ?d]\<rparr>"
  have b: "?b < disksize (bio s)" and dev: "lg_dev (lg s) = 1"
    using lg_start_props(1) [OF assms(3)] assms(3) by (simp_all add: log_geom_def)
  obtain i t where t: "bread 1 ?b s = Done i t" "bread_post {} s ?b i t"
    using bread_ok [OF assms(1) b] roomy_clean [OF assms(2)] by auto
  have t': "bio_inv {i} t" "bframe s t" "bblockno (bufs (bio t) ! i) = ?b" "bdata (bufs (bio t) ! i) = ?d"
    "bview (bio t) = bview (bio s)" "disk (bio t) = disk (bio s)" "dwrites (bio t) = dwrites (bio s)"
    "dirty (bufs (bio t) ! i) \<or> bdata (bufs (bio t) ! i) = disk (bio t) (bblockno (bufs (bio t) ! i))"
    using t(2) by (auto simp: bread_post_def)
  note d = bread_dirty [OF t(2)]
  let ?t = "t\<lparr>lg := (lg s)\<lparr>lg_lh := ?h\<rparr>\<rparr>"
  obtain v where v: "brelse i ?t = Done () v" "bio_inv ({i} - {i}) v" "bframe ?t v" "bview (bio v) = bview (bio ?t)"
    "disk (bio v) = disk (bio ?t)" "dwrites (bio v) = dwrites (bio ?t)"
    "\<forall>j<NBUF. bblockno (bufs (bio v) ! j) = bblockno (bufs (bio ?t) ! j) \<and> bdata (bufs (bio v) ! j) = bdata (bufs (bio ?t) ! j) \<and>
       dirty (bufs (bio v) ! j) = dirty (bufs (bio ?t) ! j)"
    using brelse_ok [of "{i}" ?t i] t'(1,8) by auto
  have ds: "dirtyset (bio v) = dirtyset (bio s)" using v(7) d(1) by (auto simp: dirtyset_def)
  have "dblocks (bio v) = dblocks (bio s)"
    unfolding d(2) [symmetric] unfolding dblocks_def ds d(1) using v(7) by (intro image_cong) (auto simp: dirtyset_def)
  moreover have "roomy (bio v)" using assms(2) by (simp add: roomy_def ds)
  moreover have "bframe (s\<lparr>lg := (lg s)\<lparr>lg_lh := ?h\<rparr>\<rparr>) v" using bframe_trans [OF bframe_lg [OF t'(2)] v(3)] .
  ultimately have "wrote [] (s\<lparr>lg := (lg s)\<lparr>lg_lh := ?h\<rparr>\<rparr>) v" unfolding wrote_def using v t' by simp
  moreover have "read_head s = Done () v"
  proof -
    have l: "lg t = lg s" using wrote_lg [OF t'(2)] by simp
    have "\<not> nat (sint (le32 ?d 0)) > LOGSIZE" using assms(5) by (simp add: head_n_def)
    then show ?thesis
      using t(1) v(1) dev t'(4) unfolding read_head_def
      by (simp add: buf_data_def forK_set_blocks l head_n_def Let_def)
  qed
  moreover have "length (lh_block ?h) = LOGSIZE" "\<forall>i<lh_n ?h. lh_block ?h ! i = le32 ?d (4 + 4 * i)"
    using assms(4,5) by (auto simp: foldl_updates)
  ultimately show ?thesis by (intro exI [of _ v] exI [of _ ?h]) simp
qed

text \<open>What recovery makes of a disk.\<close>

definition replay_writes :: "logst \<Rightarrow> (u32 \<Rightarrow> u8 list) \<Rightarrow> (u32 \<times> u8 list) list" where
  "replay_writes l D = map (\<lambda>i. (le32 (D (lg_start l)) (4 + 4 * i), D (log_block l i))) [0..<head_n (D (lg_start l))]"

definition head_ok :: "logst \<Rightarrow> biost \<Rightarrow> u8 list \<Rightarrow> bool" where
  "head_ok l c d \<longleftrightarrow> length d = BSIZE \<and> txn_ok l c (head_n d) (map (\<lambda>i. le32 d (4 + 4 * i)) [0..<head_n d])"

lemma txn_ok_cong:
  assumes "length bs = LOGSIZE" "\<And>i. i < n \<Longrightarrow> bs ! i = cs ! i" "length cs = n" "lg_start l = lg_start m" "lg_size l = lg_size m" "txn_ok l c n cs"
  shows "txn_ok m c n bs"
proof -
  have "take n bs = cs" using assms(1,2,3,6) by (intro nth_equalityI) (auto simp: txn_ok_def)
  moreover have "log_room m = log_room l" using assms(5) by (simp add: log_room_def)
  moreover from this have "log_area m = log_area l" using assms(4) by (auto simp: log_area_def log_block_def)
  ultimately show ?thesis using assms by (auto simp: txn_ok_def)
qed

lemma recover_ok:
  assumes "bio_inv {} s" "roomy (bio s)" "log_geom (lg s) (bio s)" "length (lh_block (lg_lh (lg s))) = LOGSIZE"
    "dblocks (bio s) = {}" "head_ok (lg s) (bio s) (disk (bio s) (lg_start (lg s)))"
  shows "\<exists>t. recover_from_log s = Done () t \<and> le32 (disk (bio t) (lg_start (lg s))) 0 = 0 \<and> bview (bio t) = disk (bio t) \<and>
    (\<forall>b. b \<noteq> lg_start (lg s) \<longrightarrow> disk (bio t) b = wr_all (replay_writes (lg s) (disk (bio s))) (disk (bio s)) b)"
proof -
  let ?l = "lg s" and ?D = "disk (bio s)" and ?d = "disk (bio s) (lg_start (lg s))"
  have view: "bview (bio s) = ?D" using bview_clean [OF assms(1)] assms(5) by auto
  have n: "head_n ?d \<le> LOGSIZE" using assms(6) by (simp add: head_ok_def txn_ok_def)
  obtain s1 h where s1: "read_head s = Done () s1" "wrote [] (s\<lparr>lg := ?l\<lparr>lg_lh := h\<rparr>\<rparr>) s1" "lh_n h = head_n ?d"
    "length (lh_block h) = LOGSIZE" "\<forall>i<lh_n h. lh_block h ! i = le32 ?d (4 + 4 * i)"
    using read_head_ok [OF assms(1-4)] n view by auto
  note w1 = wroteD [OF s1(2)]
  have l1: "lg s1 = ?l\<lparr>lg_lh := h\<rparr>" "disksize (bio s1) = disksize (bio s)" "bview (bio s1) = ?D" "disk (bio s1) = ?D"
    using w1 view by auto
  have d1: "dblocks (bio s1) = {}" using s1(2) assms(5) by (simp add: wrote_def)
  have lb: "log_block (?l\<lparr>lg_lh := h'\<rparr>) = log_block ?l" for h' by (rule ext) (simp add: log_block_def)
  have g1: "log_geom (lg s1) (bio s1)" using assms(3) l1 by (simp add: log_geom_def)
  have txn: "txn_ok (lg s1) (bio s1) (lh_n h) (lh_block h)"
  proof (rule txn_ok_cong [OF s1(4)])
    show "txn_ok ?l (bio s1) (lh_n h) (map (\<lambda>i. le32 ?d (4 + 4 * i)) [0..<lh_n h])"
      using assms(6) l1(2) by (simp add: s1(3) head_ok_def txn_ok_def)
  qed (use s1(3,5) l1 in auto)
  have "\<exists>t. install_trans s1 = Done () t \<and> wrote (map (\<lambda>i. (lh_block h ! i, bview (bio s1) (log_block (lg s1) i))) [0..<lh_n h]) s1 t"
    using l1 d1 by (intro install_trans_ok [OF w1(1,2) g1 _ _ txn]) simp_all
  moreover have "map (\<lambda>i. (lh_block h ! i, bview (bio s1) (log_block (lg s1) i))) [0..<lh_n h] = replay_writes ?l ?D"
    using s1(3,5) by (simp add: replay_writes_def l1 lb)
  ultimately obtain s2 where s2: "install_trans s1 = Done () s2" "wrote (replay_writes ?l ?D) s1 s2" by auto
  note w2 = wroteD [OF s2(2)]
  let ?s2 = "s2\<lparr>lg := ?l\<lparr>lg_lh := h\<lparr>lh_n := 0\<rparr>\<rparr>\<rparr>"
  have start: "lg_start ?l \<notin> fst ` set (replay_writes ?l ?D)"
    using txn lg_start_props(2) [OF g1] s1(3,5) l1 by (auto simp: replay_writes_def txn_ok_def)
  have "\<exists>t. write_head ?s2 = Done () t \<and> wrote [(lg_start ?l, put_head 0 (lh_block h) ?d)] ?s2 t"
    using write_head_ok [of ?s2] w2(1,2,4,5) l1 assms(3) start by (simp add: log_geom_def wr_all_other)
  then obtain t where t: "write_head ?s2 = Done () t" "wrote [(lg_start ?l, put_head 0 (lh_block h) ?d)] ?s2 t" by blast
  note w3 = wroteD [OF t(2)]
  have "lg s2 = ?l\<lparr>lg_lh := h\<rparr>" using w2(3) l1 by simp
  then have "recover_from_log s = Done () t" using s1(1) s2(1) t(1) by (simp add: recover_from_log_def)
  moreover have "disk (bio t) = (wr_all (replay_writes ?l ?D) ?D)(lg_start ?l := put_head 0 (lh_block h) ?d)"
    using w3(6) w2(6) l1(4) by simp
  moreover have "bview (bio t) = disk (bio t)" using w3(5,6) w2(5,6) l1(3,4) by simp
  ultimately show ?thesis using assms(6) by (intro exI [of _ t]) (simp add: head_count head_ok_def BSIZE_def)
qed

section \<open>Crash safety\<close>

text \<open>The state of the log while a transaction is open and the buffers in \<open>H\<close> are locked: the modified blocks are exactly those in the
  log's list, all of them outside the log, and the log on the disk is empty.\<close>

definition txn_open :: "nat set \<Rightarrow> 'z klog_scheme \<Rightarrow> bool" where
  "txn_open H s \<longleftrightarrow> bio_inv H s \<and> log_geom (lg s) (bio s) \<and> length (lh_block (lg_lh (lg s))) = LOGSIZE \<and>
     txn_ok (lg s) (bio s) (lh_n (lg_lh (lg s))) (lh_block (lg_lh (lg s))) \<and>
     dblocks (bio s) = set (take (lh_n (lg_lh (lg s))) (lh_block (lg_lh (lg s)))) \<and>
     length (disk (bio s) (lg_start (lg s))) = BSIZE \<and> le32 (disk (bio s) (lg_start (lg s))) 0 = 0"

text \<open>The state in which \<^verbatim>\<open>end_op\<close> commits: no buffer is locked, something is logged, and fewer blocks are logged than the cache has
  buffers. The last condition always holds when \<^verbatim>\<open>log.size\<close> is at most \<^verbatim>\<open>NBUF\<close>, since \<^verbatim>\<open>log_write\<close> refuses to fill the log; \<^verbatim>\<open>mkfs\<close>
  makes a log of \<^verbatim>\<open>LOGSIZE\<close> blocks, and both constants are 30.\<close>

definition pending :: "'z klog_scheme \<Rightarrow> bool" where
  "pending s \<longleftrightarrow> txn_open {} s \<and> 0 < lh_n (lg_lh (lg s)) \<and> lh_n (lg_lh (lg s)) < NBUF"

lemma dirty_card:
  assumes "bio_inv H s"
  shows "card (dirtyset (bio s)) = card (dblocks (bio s))"
proof -
  note inv = bio_invD(2) [OF assms]
  have "inj_on (\<lambda>i. bblockno (bufs (bio s) ! i)) (dirtyset (bio s))"
  proof (rule inj_onI)
    fix i j assume ij: "i \<in> dirtyset (bio s)" "j \<in> dirtyset (bio s)" "bblockno (bufs (bio s) ! i) = bblockno (bufs (bio s) ! j)"
    then have "i < NBUF" "j < NBUF" "dirty (bufs (bio s) ! i)" "dirty (bufs (bio s) ! j)" by (auto simp: dirtyset_def)
    moreover from this have "bdev (bufs (bio s) ! i) = 1" "bdev (bufs (bio s) ! j) = 1"
      using bc_invD(5) [OF inv, of i] bc_invD(5) [OF inv, of j] by (auto simp: buf_ok_def)
    ultimately show "i = j" using bc_invD(6) [OF inv, of i j] ij(3) by simp
  qed
  then show ?thesis by (simp add: dblocks_def card_image)
qed

lemma txn_open_dirty:
  assumes "txn_open H s"
  shows "card (dirtyset (bio s)) = lh_n (lg_lh (lg s))"
proof -
  have "distinct (take (lh_n (lg_lh (lg s))) (lh_block (lg_lh (lg s))))" "lh_n (lg_lh (lg s)) \<le> length (lh_block (lg_lh (lg s)))"
    using assms by (auto simp: txn_open_def txn_ok_def)
  then show ?thesis using assms dirty_card [of H s] by (simp add: txn_open_def distinct_card min_def)
qed

text \<open>A machine started again on a disk \<open>D\<close>, as \<^verbatim>\<open>initlog\<close> calls \<^verbatim>\<open>recover_from_log\<close>: nothing modified in
  the cache.\<close>

definition rebooted :: "'z klog_scheme \<Rightarrow> (u32 \<Rightarrow> u8 list) \<Rightarrow> 'z klog_scheme \<Rightarrow> bool" where
  "rebooted s D r \<longleftrightarrow> bio_inv {} r \<and> dblocks (bio r) = {} \<and> disk (bio r) = D \<and> disksize (bio r) = disksize (bio s) \<and>
     lg_start (lg r) = lg_start (lg s) \<and> lg_size (lg r) = lg_size (lg s) \<and> lg_dev (lg r) = 1 \<and> length (lh_block (lg_lh (lg r))) = LOGSIZE"

lemma pendingD:
  assumes "pending s"
  shows "bio_inv {} s" "roomy (bio s)" "log_geom (lg s) (bio s)" "0 < lh_n (lg_lh (lg s))"
    "txn_ok (lg s) (bio s) (lh_n (lg_lh (lg s))) (lh_block (lg_lh (lg s)))"
    "b \<notin> set (take (lh_n (lg_lh (lg s))) (lh_block (lg_lh (lg s)))) \<Longrightarrow> bview (bio s) b = disk (bio s) b"
    "length (disk (bio s) (lg_start (lg s))) = BSIZE" "le32 (disk (bio s) (lg_start (lg s))) 0 = 0"
    "set (take (lh_n (lg_lh (lg s))) (lh_block (lg_lh (lg s)))) \<subseteq> dblocks (bio s)"
  using assms bview_clean [of s b] txn_open_dirty [of "{}" s] by (auto simp: pending_def txn_open_def roomy_def)

lemma head_n_0: "le32 d 0 = 0 \<Longrightarrow> head_n d = 0"
  by (simp add: head_n_def)

lemma head_n_put:
  assumes "n \<le> LOGSIZE" "length d = BSIZE"
  shows "head_n (put_head n bs d) = n"
proof -
  have "le32 (put_head n bs d) 0 = of_nat n" using head_count [of d n bs] assms by (simp add: BSIZE_def)
  moreover have "unat (of_nat n :: u32) = n" using assms(1) by (intro unat_of_nat_small) (simp add: log_sizes)
  ultimately show ?thesis using assms(1) sint_small [of "of_nat n"] by (simp add: head_n_def log_sizes)
qed

lemma start_not_txn:
  assumes "pending s"
  shows "lg_start (lg s) \<notin> set (take (lh_n (lg_lh (lg s))) (lh_block (lg_lh (lg s))))"
    "bview (bio s) (lg_start (lg s)) = disk (bio s) (lg_start (lg s))"
proof -
  show "lg_start (lg s) \<notin> set (take (lh_n (lg_lh (lg s))) (lh_block (lg_lh (lg s))))"
    using pendingD(5) [OF assms] lg_start_props(2) [OF pendingD(3) [OF assms]] by (auto simp: txn_ok_def in_set_conv_nth)
  then show "bview (bio s) (lg_start (lg s)) = disk (bio s) (lg_start (lg s))" by (rule pendingD(6) [OF assms])
qed

text \<open>Once the header is on the disk, recovery writes exactly the home blocks of the transaction,
  however many of them the crash let through.\<close>

lemma replay_after_header:
  assumes "pending s" and "l = lg s" and "v = bview (bio s)" and "D = disk (bio s)"
    and "E = wr_all (take k (home_writes l v)) ((wr_all (log_writes l v) D)(lg_start l := full_head l v))"
  shows "replay_writes l E = home_writes l v" "head_ok l (bio s) (E (lg_start l))"
proof -
  let ?n = "lh_n (lg_lh l)" and ?bs = "lh_block (lg_lh l)"
  note p = pendingD [OF assms(1), folded assms(2)]
  note fst = log_writes_fst [OF p(3,5)]
  have n: "?n \<le> LOGSIZE" "?n \<le> length ?bs" using p(5) by (auto simp: txn_ok_def)
  have out: "b \<notin> fst ` set (take k (home_writes l v))" if "b \<in> log_area l" for b
    using that fst(6) [of v] set_take_subset [of k "home_writes l v"] by (meson disjoint_iff image_mono subsetD)
  have area: "lg_start l \<in> log_area l" by (simp add: log_area_def)
  have vs: "v (lg_start l) = D (lg_start l)" using start_not_txn(2) [OF assms(1)] assms(2-4) by simp
  have Es: "E (lg_start l) = full_head l v" using out [OF area] by (simp add: assms(5) wr_all_other)
  have hn: "head_n (full_head l v) = ?n" using head_n_put [OF n(1)] p(7) vs assms(4) by (simp add: full_head_def)
  have hb: "le32 (full_head l v) (4 + 4 * i) = ?bs ! i" if "i < ?n" for i
    using head_block [OF that, of "v (lg_start l)" ?bs] p(7) vs assms(4) n(1) by (simp add: full_head_def log_sizes BSIZE_def)
  have El: "E (log_block l i) = v (?bs ! i)" if "i < ?n" for i
  proof -
    have i: "i < log_room l" using that p(5) by (simp add: txn_ok_def)
    have "(log_block l i, v (?bs ! i)) \<in> set (log_writes l v)" using that by (auto simp: log_writes_def)
    then show ?thesis
      using out [OF log_block_props(4) [OF p(3) i]] log_block_props(2) [OF p(3) i] fst(1) by (simp add: assms(5) wr_all_other wr_all_hit)
  qed
  show "replay_writes l E = home_writes l v" using Es El hn hb by (simp add: replay_writes_def home_writes_def)
  have "txn_ok l (bio s) ?n (map (\<lambda>i. le32 (full_head l v) (4 + 4 * i)) [0..<?n])"
  proof -
    have "map (\<lambda>i. le32 (full_head l v) (4 + 4 * i)) [0..<?n] = take ?n ?bs" using hb n(2) by (auto simp: list_eq_iff_nth_eq)
    then show ?thesis using p(5) by (auto simp: txn_ok_def)
  qed
  then show "head_ok l (bio s) (E (lg_start l))"
    using p(7) vs assms(4) by (simp add: head_ok_def Es hn) (simp add: full_head_def)
qed

lemma home_new:
  assumes "pending s" "b \<notin> log_area (lg s)"
  shows "wr_all (home_writes (lg s) (bview (bio s))) ((wr_all (log_writes (lg s) (bview (bio s))) (disk (bio s)))(lg_start (lg s) := h)) b
    = bview (bio s) b"
proof -
  note fst = log_writes_fst [OF pendingD(3,5) [OF assms(1)], of "bview (bio s)"]
  have "b \<noteq> lg_start (lg s)" using assms(2) by (auto simp: log_area_def)
  show ?thesis
  proof (cases "b \<in> set (take (lh_n (lg_lh (lg s))) (lh_block (lg_lh (lg s))))")
    case True
    then have "b \<in> fst ` set (home_writes (lg s) (bview (bio s)))" using fst(5) by simp
    then have "(b, bview (bio s) b) \<in> set (home_writes (lg s) (bview (bio s)))" by (auto simp: home_writes_def)
    then show ?thesis using fst(4) by (simp add: wr_all_hit)
  next
    case False
    moreover have "b \<notin> fst ` set (log_writes (lg s) (bview (bio s)))" using fst(3) assms(2) by auto
    ultimately show ?thesis
      using fst(5) \<open>b \<noteq> lg_start (lg s)\<close> pendingD(6) [OF assms(1) False] by (simp add: wr_all_other)
  qed
qed

text \<open>The disk after the first \<open>k\<close> writes of a commit, and what recovery turns it into.\<close>

lemma crash_cases:
  assumes "pending s" and "l = lg s" and "v = bview (bio s)" and "D = disk (bio s)" and "E = wr_all (take k (commit_writes l v)) D"
  shows "head_ok l (bio s) (E (lg_start l))"
    "b \<notin> log_area l \<Longrightarrow> wr_all (replay_writes l E) E b = (if k \<le> lh_n (lg_lh l) then D b else v b)"
proof -
  let ?n = "lh_n (lg_lh l)" and ?H = "full_head l v" and ?st = "lg_start l"
  let ?F = "(wr_all (log_writes l v) D)(?st := ?H)"
  note p = pendingD [OF assms(1), folded assms(2)]
  note fst = log_writes_fst [OF p(3,5), of v]
  have len: "length (log_writes l v) = ?n" "length (home_writes l v) = ?n" by (simp_all add: log_writes_def home_writes_def)
  have vs: "v ?st = D ?st" using start_not_txn(2) [OF assms(1)] assms(2-4) by simp
  have lenD: "length (D ?st) = BSIZE" "le32 (D ?st) 0 = 0" using p(7,8) assms(4) by simp_all
  have empty: "head_ok l (bio s) d \<and> head_n d = 0" if "length d = BSIZE" "le32 d 0 = 0" for d
    using that head_n_0 [of d] by (simp add: head_ok_def txn_ok_def)
  consider (before) "k \<le> ?n" | (during) "?n < k" "k \<le> 2 * ?n + 1" | (after) "2 * ?n + 1 < k" by linarith
  then have "head_ok l (bio s) (E ?st) \<and> (b \<notin> log_area l \<longrightarrow> wr_all (replay_writes l E) E b = (if k \<le> ?n then D b else v b))"
  proof cases
    case before
    have E: "E = wr_all (take k (log_writes l v)) D" using before len by (simp add: assms(5) commit_writes_def)
    have sub: "fst ` set (take k (log_writes l v)) \<subseteq> fst ` set (log_writes l v)" by (intro image_mono set_take_subset)
    have "E ?st = D ?st" unfolding E using fst(2) sub by (intro wr_all_other) blast
    moreover have "E b = D b" if "b \<notin> log_area l" unfolding E using that fst(3) sub by (intro wr_all_other) blast
    ultimately show ?thesis using before empty [OF lenD] by (simp add: replay_writes_def)
  next
    case during
    obtain j where j: "k = Suc (?n + j)" "j \<le> ?n" using during less_iff_Suc_add [of ?n k] by auto
    have E: "E = wr_all (take j (home_writes l v)) ?F" using j len by (simp add: assms(5) commit_writes_def)
    note r = replay_after_header [OF assms(1-4) E]
    have "wr_all (home_writes l v) E = wr_all (home_writes l v) ?F" by (simp add: E wr_all_take [OF fst(4)])
    then show ?thesis using r during home_new [OF assms(1), of b ?H] assms(2-4) by simp
  next
    case after
    then have "take k (commit_writes l v) = commit_writes l v" using len by (simp add: commit_writes_def)
    then have E: "E = (wr_all (home_writes l v) ?F)(?st := put_head 0 (lh_block (lg_lh l)) ?H)"
      by (simp add: assms(5) commit_writes_def)
    have "length (E ?st) = BSIZE" "le32 (E ?st) 0 = 0"
      using lenD vs head_count [of ?H 0] by (simp_all add: E full_head_def BSIZE_def)
    then have "head_ok l (bio s) (E ?st)" "replay_writes l E = []" using empty by (auto simp: replay_writes_def)
    moreover have "E b = v b" if "b \<notin> log_area l"
    proof -
      have "b \<noteq> ?st" using that by (auto simp: log_area_def)
      then show ?thesis using home_new [OF assms(1), of b ?H] that assms(2-4) by (simp add: E)
    qed
    ultimately show ?thesis using after by simp
  qed
  then show "head_ok l (bio s) (E ?st)"
    "b \<notin> log_area l \<Longrightarrow> wr_all (replay_writes l E) E b = (if k \<le> lh_n (lg_lh l) then D b else v b)" by simp_all
qed

lemma rebooted_recovers:
  assumes "pending s" "rebooted s (wr_all (take k (commit_writes (lg s) (bview (bio s)))) (disk (bio s))) r"
  shows "\<exists>u. recover_from_log r = Done () u \<and> le32 (disk (bio u) (lg_start (lg s))) 0 = 0 \<and>
    (\<forall>b. b \<notin> log_area (lg s) \<longrightarrow> bview (bio u) b = (if k \<le> lh_n (lg_lh (lg s)) then disk (bio s) b else bview (bio s) b))"
proof -
  let ?E = "wr_all (take k (commit_writes (lg s) (bview (bio s)))) (disk (bio s))"
  have r: "bio_inv {} r" "dblocks (bio r) = {}" "disk (bio r) = ?E" "disksize (bio r) = disksize (bio s)"
    "lg_start (lg r) = lg_start (lg s)" "lg_dev (lg r) = 1" "length (lh_block (lg_lh (lg r))) = LOGSIZE" "lg_size (lg r) = lg_size (lg s)"
    using assms(2) by (auto simp: rebooted_def)
  note c = crash_cases [OF assms(1) refl refl refl refl]
  have area: "log_block (lg r) = log_block (lg s)" "log_room (lg r) = log_room (lg s)" "log_area (lg r) = log_area (lg s)"
    using r(5,8) by (auto simp: log_block_def log_area_def log_room_def fun_eq_iff)
  have "dirtyset (bio r) = {}" using r(2) by (simp add: dblocks_def)
  then have "roomy (bio r)" by (simp add: roomy_def log_sizes)
  moreover have "log_geom (lg r) (bio r)" using pendingD(3) [OF assms(1)] r(4-6,8) by (simp add: log_geom_def)
  moreover have "head_ok (lg r) (bio r) (disk (bio r) (lg_start (lg r)))"
    using c(1) [of k] r(3-5) by (simp add: head_ok_def txn_ok_def area)
  ultimately obtain u where u: "recover_from_log r = Done () u" "le32 (disk (bio u) (lg_start (lg r))) 0 = 0"
    "bview (bio u) = disk (bio u)"
    "\<forall>b. b \<noteq> lg_start (lg r) \<longrightarrow> disk (bio u) b = wr_all (replay_writes (lg r) (disk (bio r))) (disk (bio r)) b"
    using recover_ok [OF r(1) _ _ r(7,2)] by blast
  have "replay_writes (lg r) (disk (bio r)) = replay_writes (lg s) ?E" by (simp add: replay_writes_def area r(3,5))
  moreover have "b \<noteq> lg_start (lg s)" if "b \<notin> log_area (lg s)" for b using that by (auto simp: log_area_def)
  ultimately show ?thesis using u c(2) r(3,5) by (intro exI [of _ u]) (simp del: wr_all_simps)
qed

lemma crash_ok:
  assumes "pending s"
  shows "\<exists>t ws. commit s = Done () t \<and> dwrites (bio t) = dwrites (bio s) @ ws \<and> disk (bio t) = wr_all ws (disk (bio s)) \<and>
    (\<forall>b. b \<notin> log_area (lg s) \<longrightarrow> disk (bio t) b = bview (bio s) b) \<and>
    (\<forall>k r. rebooted s (wr_all (take k ws) (disk (bio s))) r \<longrightarrow>
       (\<exists>u. recover_from_log r = Done () u \<and> le32 (disk (bio u) (lg_start (lg s))) 0 = 0 \<and>
          (\<forall>b. b \<notin> log_area (lg s) \<longrightarrow>
             bview (bio u) b = (if k \<le> lh_n (lg_lh (lg s)) then disk (bio s) b else bview (bio s) b))))"
proof -
  let ?ws = "commit_writes (lg s) (bview (bio s))"
  note p = pendingD [OF assms]
  obtain t where t: "commit s = Done () t" "wrote ?ws (s\<lparr>lg := lg_emptied (lg s)\<rparr>) t" using commit_ok [OF p(1-5,9)] by blast
  have "disk (bio t) = wr_all ?ws (disk (bio s))" "dwrites (bio t) = dwrites (bio s) @ ?ws" using t(2) by (auto simp: wrote_def)
  moreover have "disk (bio t) b = bview (bio s) b" if "b \<notin> log_area (lg s)" for b
  proof -
    have "b \<noteq> lg_start (lg s)" using that by (auto simp: log_area_def)
    then show ?thesis using calculation(1) home_new [OF assms that, of "full_head (lg s) (bview (bio s))"] by (simp add: commit_writes_def)
  qed
  ultimately show ?thesis using t(1) rebooted_recovers [OF assms] by blast
qed

section \<open>The body of a transaction\<close>

lemma log_index_cases:
  assumes "n \<le> length bs"
  obtains (logged) "log_index n bs b < n" "bs ! log_index n bs b = b" "b \<in> set (take n bs)"
  | (new) "log_index n bs b = n" "b \<notin> set (take n bs)"
proof (cases "find (\<lambda>i. bs ! i = b) [0..<n]")
  case None
  then have "b \<notin> set (take n bs)" by (auto simp: find_None_iff in_set_conv_nth)
  with None show ?thesis by (intro new) (simp_all add: log_index_def)
next
  case (Some i)
  then have i: "i < n" "bs ! i = b" by (auto simp: find_Some_iff)
  then have "b \<in> set (take n bs)" using nth_in_take [OF i(1) assms] by simp
  with Some i show ?thesis by (intro logged) (simp_all add: log_index_def)
qed

text \<open>The list of the log after \<^verbatim>\<open>log_write\<close> of block \<open>b\<close>.\<close>

definition lh_add :: "u32 \<Rightarrow> logheader \<Rightarrow> logheader" where
  "lh_add b h = (if b \<in> set (take (lh_n h) (lh_block h)) then h else h\<lparr>lh_n := lh_n h + 1, lh_block := (lh_block h)[lh_n h := b]\<rparr>)"

lemma lh_add_props:
  assumes "lh_n h < length (lh_block h)"
  shows "set (take (lh_n (lh_add b h)) (lh_block (lh_add b h))) = insert b (set (take (lh_n h) (lh_block h)))"
    "length (lh_block (lh_add b h)) = length (lh_block h)" "lh_n h \<le> lh_n (lh_add b h)" "lh_n (lh_add b h) \<le> lh_n h + 1"
    "distinct (take (lh_n h) (lh_block h)) \<Longrightarrow> distinct (take (lh_n (lh_add b h)) (lh_block (lh_add b h)))"
  using assms by (auto simp: lh_add_def take_Suc_conv_app_nth)

lemma txn_ok_set:
  "txn_ok l c n bs \<longleftrightarrow> n \<le> LOGSIZE \<and> n \<le> log_room l \<and> n \<le> length bs \<and> distinct (take n bs) \<and>
     (\<forall>b\<in>set (take n bs). b \<notin> log_area l \<and> b < disksize c)"
  by (auto simp: txn_ok_def in_set_conv_nth dest: nth_in_take [of _ n bs])

lemma log_write_run:
  assumes "calm s" "length (bufs (bio s)) = NBUF" "i < NBUF" "b = bblockno (bufs (bio s) ! i)" "log_geom (lg s) (bio s)" "1 \<le> lg_outstanding (lg s)"
    "length (lh_block (lg_lh (lg s))) = LOGSIZE" "lh_n (lg_lh (lg s)) < LOGSIZE" "lh_n (lg_lh (lg s)) < log_room (lg s)"
  shows "log_write i s = Done () (s\<lparr>hw := settle (hw s), bio := (bio s)\<lparr>bufs := upd_slot i (bflags_update (\<lambda>f. f OR B_DIRTY)) (bufs (bio s))\<rparr>,
    lg := (lg s)\<lparr>lg_lh := lh_add b (lg_lh (lg s))\<rparr>\<rparr>)"
proof -
  let ?h = "lg_lh (lg s)"
  have sz: "sint (lg_size (lg s)) = int (Suc (log_room (lg s)))"
    using log_size_room [OF assms(5)] assms(5) sint_small [of "lg_size (lg s)"] by (simp add: log_geom_def word_less_nat_alt)
  have n: "lh_n ?h \<le> length (lh_block ?h)" using assms(7,8) by simp
  have upd: "?h\<lparr>lh_block := (lh_block ?h)[log_index (lh_n ?h) (lh_block ?h) b := b],
      lh_n := (if log_index (lh_n ?h) (lh_block ?h) b = lh_n ?h then lh_n ?h + 1 else lh_n ?h)\<rparr> = lh_add b ?h"
  proof (rule log_index_cases [OF n, of b])
    assume j: "log_index (lh_n ?h) (lh_block ?h) b < lh_n ?h" "lh_block ?h ! log_index (lh_n ?h) (lh_block ?h) b = b" "b \<in> set (take (lh_n ?h) (lh_block ?h))"
    then have "(lh_block ?h)[log_index (lh_n ?h) (lh_block ?h) b := b] = lh_block ?h" by (metis list_update_id)
    then show ?thesis using j by (simp add: lh_add_def)
  qed (simp add: lh_add_def)
  show ?thesis
    using calmD [OF assms(1)] assms(3,4,6,8,9) sz upd
    by (auto simp: log_write_def run_simps mod_buf_def hart_settled not_le whenK_def intro!: klog.equality)
qed

lemma log_area_lh [simp]:
  "log_area (l\<lparr>lg_lh := h\<rparr>) = log_area l" "log_room (l\<lparr>lg_lh := h\<rparr>) = log_room l" "log_geom (l\<lparr>lg_lh := h\<rparr>) c = log_geom l c"
  by (simp_all add: log_area_def log_room_def log_geom_def log_block_def)

lemma dblocks_cong:
  assumes "\<And>k. k < NBUF \<Longrightarrow> bblockno (bufs c ! k) = bblockno (bufs d ! k) \<and> dirty (bufs c ! k) = dirty (bufs d ! k)"
  shows "dblocks c = dblocks d"
proof -
  have "dirtyset c = dirtyset d" using assms by (auto simp: dirtyset_def)
  then show ?thesis unfolding dblocks_def using assms by (intro image_cong) (auto simp: dirtyset_def)
qed

lemma txn_open_step:
  assumes "txn_open H s" "bio_inv K t" "lg t = lg s" "disksize (bio t) = disksize (bio s)" "dblocks (bio t) = dblocks (bio s)" "disk (bio t) = disk (bio s)"
  shows "txn_open K t"
  using assms log_geom_cong [OF assms(4)] by (simp add: txn_open_def txn_ok_def)

lemma log_write_ok:
  assumes "txn_open H s" "i \<in> H" "b = bblockno (bufs (bio s) ! i)" "b \<notin> log_area (lg s)" "1 \<le> lg_outstanding (lg s)"
    "lh_n (lg_lh (lg s)) < LOGSIZE" "lh_n (lg_lh (lg s)) < log_room (lg s)"
  shows "\<exists>t. log_write i s = Done () t \<and> txn_open H t \<and> lg t = (lg s)\<lparr>lg_lh := lh_add b (lg_lh (lg s))\<rparr> \<and> bview (bio t) = bview (bio s) \<and>
    disk (bio t) = disk (bio s) \<and> dwrites (bio t) = dwrites (bio s) \<and> disksize (bio t) = disksize (bio s) \<and> dirty (bufs (bio t) ! i)"
proof -
  let ?h = "lg_lh (lg s)" and ?c = "(bio s)\<lparr>bufs := upd_slot i (bflags_update (\<lambda>f. f OR B_DIRTY)) (bufs (bio s))\<rparr>"
  have o: "bio_inv H s" "log_geom (lg s) (bio s)" "length (lh_block ?h) = LOGSIZE" "txn_ok (lg s) (bio s) (lh_n ?h) (lh_block ?h)"
    "dblocks (bio s) = set (take (lh_n ?h) (lh_block ?h))" "length (disk (bio s) (lg_start (lg s))) = BSIZE" "le32 (disk (bio s) (lg_start (lg s))) 0 = 0"
    using assms(1) by (simp_all add: txn_open_def)
  note h = held_valid [OF o(1) assms(2)]
  let ?t = "s\<lparr>hw := settle (hw s), bio := ?c, lg := (lg s)\<lparr>lg_lh := lh_add b ?h\<rparr>\<rparr>"
  have run: "log_write i s = Done () ?t"
    using log_write_run [OF bio_invD(1) [OF o(1)] h(6,1) assms(3) o(2) assms(5) o(3) assms(6,7)] .
  obtain u where u: "mod_buf i (bflags_update (\<lambda>f. f OR B_DIRTY)) s = Done () u" "bio_inv H u" "bview (bio u) = bview (bio s)"
    using mark_dirty_ok [OF o(1) assms(2)] by blast
  then have u': "u = s\<lparr>bio := ?c\<rparr>" by (simp add: mod_buf_def)
  have nth: "upd_slot i (bflags_update (\<lambda>f. f OR B_DIRTY)) (bufs (bio s)) ! k = (if k = i then (bufs (bio s) ! i)\<lparr>bflags := bflags (bufs (bio s) ! i) OR B_DIRTY\<rparr> else bufs (bio s) ! k)" if "k < NBUF" for k
    using that h(6) by (simp add: nth_upd_slot)
  have ds: "dirtyset ?c = insert i (dirtyset (bio s))" using h(1) by (auto simp: dirtyset_def nth bit_simps)
  have "dblocks ?c = (\<lambda>k. bblockno (bufs (bio s) ! k)) ` insert i (dirtyset (bio s))"
    unfolding dblocks_def ds using h(1) by (intro image_cong) (auto simp: dirtyset_def nth)
  then have db: "dblocks ?c = insert b (dblocks (bio s))" by (simp add: dblocks_def assms(3))
  have "bc_inv H ?c" using bio_invD(2) [OF u(2)] by (simp add: u')
  then have inv: "bio_inv H ?t" using bio_inv_bio [OF bio_inv_settle [OF o(1)]] by simp
  note a = lh_add_props [of ?h b, unfolded o(3), OF assms(6)]
  have "txn_ok (lg s) (bio s) (lh_n (lh_add b ?h)) (lh_block (lh_add b ?h))"
    using o(4) a assms(3,4,6,7) h(4) unfolding txn_ok_set by (auto simp: o(3))
  then have "txn_open H ?t" using inv o a db by (simp add: txn_open_def txn_ok_def log_geom_def)
  moreover have "bview ?c = bview (bio s)" using u(3) by (simp add: u')
  moreover have "dirty (bufs ?c ! i)" using nth [OF h(1)] by (simp add: bit_simps)
  ultimately show ?thesis using run by (intro exI [of _ ?t]) simp
qed

text \<open>The idiom of the file system inside a transaction: change a block and log it.\<close>

definition log_update :: "u32 \<Rightarrow> (u8 list \<Rightarrow> u8 list) \<Rightarrow> ('z klog_scheme, unit) kmon" where
  "log_update b f = bindK (bread 1 b) (\<lambda>i. thenK (set_data i f) (thenK (log_write i) (brelse i)))"

lemma txn_open_clean:
  assumes "txn_open H s" "lh_n (lg_lh (lg s)) < NBUF"
  shows "\<exists>i<NBUF. \<not> dirty (bufs (bio s) ! i)"
  using roomy_clean [of "bio s"] txn_open_dirty [OF assms(1)] assms(2) by (simp add: roomy_def)

lemma log_update_ok:
  assumes "txn_open {} s" "b < disksize (bio s)" "b \<notin> log_area (lg s)" "1 \<le> lg_outstanding (lg s)"
    "lh_n (lg_lh (lg s)) < NBUF" "lh_n (lg_lh (lg s)) < log_room (lg s)"
  shows "\<exists>t. log_update b f s = Done () t \<and> txn_open {} t \<and> lg t = (lg s)\<lparr>lg_lh := lh_add b (lg_lh (lg s))\<rparr> \<and>
    bview (bio t) = (bview (bio s))(b := f (bview (bio s) b)) \<and>
    disk (bio t) = disk (bio s) \<and> dwrites (bio t) = dwrites (bio s) \<and> disksize (bio t) = disksize (bio s)"
proof -
  have inv: "bio_inv {} s" using assms(1) by (simp add: txn_open_def)
  obtain i t where t: "bread 1 b s = Done i t" "bread_post {} s b i t"
    using bread_ok [OF inv assms(2)] txn_open_clean [OF assms(1,5)] by auto
  have t': "i < NBUF" "bio_inv {i} t" "bframe s t" "bblockno (bufs (bio t) ! i) = b" "bdata (bufs (bio t) ! i) = bview (bio s) b"
    "bview (bio t) = bview (bio s)" "disk (bio t) = disk (bio s)" "dwrites (bio t) = dwrites (bio s)"
    using t(2) by (simp_all add: bread_post_def)
  have lt: "lg t = lg s" "disksize (bio t) = disksize (bio s)" using wrote_lg [OF t'(3)] t'(3) by (simp_all add: bframe_def)
  have ot: "txn_open {i} t" using assms(1) t'(2) lt bread_dirty(2) [OF t(2)] t'(7) by (rule txn_open_step)
  obtain u where u: "set_data i f t = Done () u" "bio_inv {i} u" "bframe t u" "bview (bio u) = (bview (bio t))(b := f (bview (bio s) b))"
    "disk (bio u) = disk (bio t)" "dwrites (bio u) = dwrites (bio t)" "bufs (bio u) = upd_slot i (\<lambda>k. k\<lparr>bdata := f (bdata k)\<rparr>) (bufs (bio t))"
    using set_data_ok [OF t'(2) insertI1, of f] t'(4,5) by auto
  have lu: "lg u = lg t" "disksize (bio u) = disksize (bio t)" using wrote_lg [OF u(3)] u(3) by (simp_all add: bframe_def)
  have nth: "bblockno (bufs (bio u) ! k) = bblockno (bufs (bio t) ! k) \<and> dirty (bufs (bio u) ! k) = dirty (bufs (bio t) ! k)" if "k < NBUF" for k
    using that held_valid(6) [OF t'(2) insertI1] u(7) by (simp add: nth_upd_slot)
  have ou: "txn_open {i} u" using ot u(2) lu dblocks_cong [OF nth] u(5) by (rule txn_open_step)
  have bu: "b = bblockno (bufs (bio u) ! i)" using nth [OF t'(1)] t'(4) by simp
  obtain v where v: "log_write i u = Done () v" "txn_open {i} v" "lg v = (lg u)\<lparr>lg_lh := lh_add b (lg_lh (lg u))\<rparr>" "bview (bio v) = bview (bio u)"
    "disk (bio v) = disk (bio u)" "dwrites (bio v) = dwrites (bio u)" "disksize (bio v) = disksize (bio u)" "dirty (bufs (bio v) ! i)"
    using log_write_ok [OF ou insertI1 bu] assms(3-6) lu(1) lt(1) by (auto simp: log_sizes simp del: dirty_iff)
  have iv: "bio_inv {i} v" using v(2) by (simp add: txn_open_def)
  obtain w where w: "brelse i v = Done () w" "bio_inv ({i} - {i}) w" "bframe v w" "bview (bio w) = bview (bio v)" "disk (bio w) = disk (bio v)"
    "dwrites (bio w) = dwrites (bio v)"
    "\<forall>j<NBUF. bblockno (bufs (bio w) ! j) = bblockno (bufs (bio v) ! j) \<and> bdata (bufs (bio w) ! j) = bdata (bufs (bio v) ! j) \<and>
       dirty (bufs (bio w) ! j) = dirty (bufs (bio v) ! j)"
    using brelse_ok [OF iv insertI1] v(8) by blast
  have lw: "lg w = lg v" "disksize (bio w) = disksize (bio v)" using wrote_lg [OF w(3)] w(3) by (simp_all add: bframe_def)
  have "bio_inv {} w" using w(2) by simp
  moreover have "dblocks (bio w) = dblocks (bio v)" using w(7) by (intro dblocks_cong) blast
  ultimately have "txn_open {} w" using txn_open_step [OF v(2) _ lw _ w(5)] by blast
  then show ?thesis using t(1) u v w lt lu lw t' by (intro exI [of _ w]) (simp add: log_update_def)
qed

text \<open>A transaction that was opened in state \<open>s\<close>, has logged at least \<open>m\<close> blocks and can log \<open>k\<close> more. Inside it the cache and the
  log are a block store: reads give what was written last.\<close>

definition txn_inv :: "'z klog_scheme \<Rightarrow> nat \<Rightarrow> nat \<Rightarrow> 'z klog_scheme \<Rightarrow> bool" where
  "txn_inv s m k t \<longleftrightarrow> txn_open {} t \<and> 1 \<le> lg_outstanding (lg t) \<and> m \<le> lh_n (lg_lh (lg t)) \<and> lh_n (lg_lh (lg t)) + k \<le> log_room (lg t) \<and>
     log_room (lg t) < NBUF \<and> disk (bio t) = disk (bio s) \<and> dwrites (bio t) = dwrites (bio s) \<and> disksize (bio t) = disksize (bio s) \<and>
     lg_start (lg t) = lg_start (lg s) \<and> lg_size (lg t) = lg_size (lg s)"

lemma lh_add_n:
  assumes "txn_open H s" "lh_n (lg_lh (lg s)) < NBUF"
  shows "lh_n (lg_lh (lg s)) \<le> lh_n (lh_add b (lg_lh (lg s)))" "lh_n (lh_add b (lg_lh (lg s))) \<le> lh_n (lg_lh (lg s)) + 1" "1 \<le> lh_n (lh_add b (lg_lh (lg s)))"
proof -
  have n: "lh_n (lg_lh (lg s)) < length (lh_block (lg_lh (lg s)))" using assms by (simp add: txn_open_def log_sizes)
  note a = lh_add_props [OF n]
  show "lh_n (lg_lh (lg s)) \<le> lh_n (lh_add b (lg_lh (lg s)))" "lh_n (lh_add b (lg_lh (lg s))) \<le> lh_n (lg_lh (lg s)) + 1" by (rule a(3), rule a(4))
  have "take (lh_n (lh_add b (lg_lh (lg s)))) (lh_block (lh_add b (lg_lh (lg s)))) \<noteq> []" using a(1) [of b] by fastforce
  then show "1 \<le> lh_n (lh_add b (lg_lh (lg s)))" by (simp add: Suc_le_eq)
qed

lemma log_update_inv:
  assumes "txn_inv s m (Suc k) t" "b < disksize (bio t)" "b \<notin> log_area (lg t)"
  shows "\<exists>u. log_update b f t = Done () u \<and> txn_inv s (max 1 m) k u \<and> bview (bio u) = (bview (bio t))(b := f (bview (bio t) b)) \<and>
    disksize (bio u) = disksize (bio t) \<and> log_area (lg u) = log_area (lg t)"
proof -
  have t: "txn_open {} t" "1 \<le> lg_outstanding (lg t)" "m \<le> lh_n (lg_lh (lg t))" "lh_n (lg_lh (lg t)) < log_room (lg t)"
    "lh_n (lg_lh (lg t)) < NBUF" "lh_n (lg_lh (lg t)) + Suc k \<le> log_room (lg t)" using assms(1) by (simp_all add: txn_inv_def)
  obtain u where u: "log_update b f t = Done () u" "txn_open {} u" "lg u = (lg t)\<lparr>lg_lh := lh_add b (lg_lh (lg t))\<rparr>"
    "bview (bio u) = (bview (bio t))(b := f (bview (bio t) b))"
    "disk (bio u) = disk (bio t)" "dwrites (bio u) = dwrites (bio t)" "disksize (bio u) = disksize (bio t)"
    using log_update_ok [OF t(1) assms(2,3) t(2,5,4)] by blast
  note a = lh_add_n [OF t(1,5), of b]
  have "max 1 m \<le> lh_n (lh_add b (lg_lh (lg t)))" "lh_n (lh_add b (lg_lh (lg t))) + k \<le> log_room (lg t)" using a t(3,6) by auto
  then have "txn_inv s (max 1 m) k u" using u assms(1) by (simp add: txn_inv_def)
  then show ?thesis using u by auto
qed

interpretation txn: block_store "txn_inv (s :: 'z klog_scheme) m" "\<lambda>t b. b < disksize (bio t) \<and> b \<notin> log_area (lg t)" "\<lambda>t. bview (bio t)" peek_block log_update
proof
  fix k b and t :: "'z klog_scheme"
  assume ok: "b < disksize (bio t) \<and> b \<notin> log_area (lg t)"
  show "\<exists>u. peek_block b t = Done (bview (bio t) b) u \<and> txn_inv s m k u \<and> bview (bio u) = bview (bio t) \<and>
    (\<lambda>b. b < disksize (bio u) \<and> b \<notin> log_area (lg u)) = (\<lambda>b. b < disksize (bio t) \<and> b \<notin> log_area (lg t))" if i: "txn_inv s m k t"
  proof -
    have t: "txn_open {} t" "bio_inv {} t" "lh_n (lg_lh (lg t)) < NBUF" using i by (auto simp: txn_inv_def txn_open_def)
    obtain u where u: "peek_block b t = Done (bview (bio t) b) u" "bio_inv {} u" "bframe t u" "bview (bio u) = bview (bio t)"
      "disk (bio u) = disk (bio t)" "dwrites (bio u) = dwrites (bio t)"
      "\<forall>j<NBUF. dirty (bufs (bio u) ! j) = dirty (bufs (bio t) ! j) \<and> (dirty (bufs (bio t) ! j) \<longrightarrow> bblockno (bufs (bio u) ! j) = bblockno (bufs (bio t) ! j))"
      using peek_ok [OF t(2), of b] ok txn_open_clean [OF t(1,3)] by (auto simp del: dirty_iff)
    have lu: "lg u = lg t" "disksize (bio u) = disksize (bio t)" using wrote_lg [OF u(3)] u(3) by (simp_all add: bframe_def)
    have ds: "dirtyset (bio u) = dirtyset (bio t)" using u(7) by (auto simp: dirtyset_def)
    have "dblocks (bio u) = dblocks (bio t)" unfolding dblocks_def ds using u(7) by (intro image_cong) (auto simp: dirtyset_def)
    from txn_open_step [OF t(1) u(2) lu this u(5)] show ?thesis using u i lu by (auto simp: txn_inv_def)
  qed
  show "\<exists>u. log_update b f t = Done () u \<and> txn_inv s m k u \<and> bview (bio u) = (bview (bio t))(b := f (bview (bio t) b)) \<and>
    (\<lambda>b. b < disksize (bio u) \<and> b \<notin> log_area (lg u)) = (\<lambda>b. b < disksize (bio t) \<and> b \<notin> log_area (lg t))" if i: "txn_inv s m (Suc k) t" for f
  proof -
    obtain u where u: "log_update b f t = Done () u" "txn_inv s (max 1 m) k u" "bview (bio u) = (bview (bio t))(b := f (bview (bio t) b))"
      "disksize (bio u) = disksize (bio t)" "log_area (lg u) = log_area (lg t)"
      using log_update_inv [OF i, of b f] ok by blast
    then show ?thesis by (intro exI [of _ u]) (simp add: txn_inv_def)
  qed
qed

text \<open>A whole sequence of changes leaves the disk as it was and the log ready to commit.\<close>

lemma txn_body:
  assumes "txn_inv s 0 (length ws) s" "ws \<noteq> []" "\<forall>b\<in>fst ` set ws. b < disksize (bio s) \<and> b \<notin> log_area (lg s)"
  shows "\<exists>t. forK ws (\<lambda>(b, f). log_update b f) s = Done () t \<and> txn_inv s 1 0 t \<and> bview (bio t) = upd_seq ws (bview (bio s)) \<and> log_area (lg t) = log_area (lg s)"
proof -
  obtain b f vs where ws: "ws = (b, f) # vs" using assms(2) by (metis list.exhaust surj_pair)
  obtain u where u: "log_update b f s = Done () u" "txn_inv s 1 (length vs) u" "bview (bio u) = (bview (bio s))(b := f (bview (bio s) b))"
    "disksize (bio u) = disksize (bio s)" "log_area (lg u) = log_area (lg s)"
    using log_update_inv [of s 0 "length vs" s b f] assms(1,3) ws by auto
  have "\<exists>t. forK vs (\<lambda>(b, f). log_update b f) u = Done () t \<and> txn_inv s 1 0 t \<and>
    (\<lambda>b. b < disksize (bio t) \<and> b \<notin> log_area (lg t)) = (\<lambda>b. b < disksize (bio u) \<and> b \<notin> log_area (lg u)) \<and> bview (bio t) = upd_seq vs (bview (bio u))"
    using assms(3) ws u by (intro txn.write_seq) fastforce+
  then obtain t where t: "forK vs (\<lambda>(b, f). log_update b f) u = Done () t" "txn_inv s 1 0 t" "bview (bio t) = upd_seq vs (bview (bio u))" by blast
  have "log_area (lg t) = log_area (lg s)" using t(2) by (simp add: txn_inv_def log_area_def log_room_def log_block_def)
  then show ?thesis using u t by (intro exI [of _ t]) (simp add: ws)
qed

section \<open>Properties\<close>

text \<open>C1. A commit is atomic with respect to crashes. In a state \<^const>\<open>pending\<close>, where the modified blocks are those of the log's list, fewer
  than the cache has buffers, \<^verbatim>\<open>commit\<close> returns; after it the disk has the new contents of every block outside the \<^verbatim>\<open>log.size\<close> blocks of
  the log. If the machine stops after any number \<open>k\<close> of the disk writes of the commit and starts again, then
  \<^verbatim>\<open>recover_from_log\<close> returns with the log empty and every block outside the log has its contents from before the
  transaction if the header was not yet written, and its contents after the transaction otherwise: never a mixture.\<close>

theorem crash_atomic:
  assumes "pending s"
  shows "\<exists>t ws. commit s = Done () t \<and> dwrites (bio t) = dwrites (bio s) @ ws \<and> disk (bio t) = wr_all ws (disk (bio s)) \<and>
    (\<forall>b. b \<notin> log_area (lg s) \<longrightarrow> disk (bio t) b = bview (bio s) b) \<and>
    (\<forall>k r. rebooted s (wr_all (take k ws) (disk (bio s))) r \<longrightarrow>
       (\<exists>u. recover_from_log r = Done () u \<and> le32 (disk (bio u) (lg_start (lg s))) 0 = 0 \<and>
          (\<forall>b. b \<notin> log_area (lg s) \<longrightarrow>
             bview (bio u) b = (if k \<le> lh_n (lg_lh (lg s)) then disk (bio s) b else bview (bio s) b))))"
  using assms by (rule crash_ok)

text \<open>The log that \<^verbatim>\<open>mkfs\<close> makes: 30 blocks from block 2 on. The transaction has one block, the first after the log.\<close>

definition lg0 :: logst where
  "lg0 = \<lparr>lg_start = 2, lg_size = 30, lg_outstanding = 1, lg_committing = False, lg_dev = 1,
     lg_lh = \<lparr>lh_n = 1, lh_block = 32 # replicate 29 0\<rparr>\<rparr>"

definition klog0 :: "biost \<Rightarrow> logst \<Rightarrow> klog" where
  "klog0 c l = \<lparr>hw = hart0, ptable = [proc0], initproc = Some 0, nextpid = 2,
     slocks = (\<lambda>_. \<lparr>sl_locked = 0, sl_name = '''', sl_pid = 0\<rparr>),
     mem = (\<lambda>_. 0), kend = 0x80120000, kdata = 0x80110000, kmem = \<lparr>use_lock = True, freelist = 0x80200000\<rparr>, bio = c, lg = l\<rparr>"

lemma klog0_simps [simp]: "bio (klog0 c l) = c" "lg (klog0 c l) = l"
  by (simp_all add: klog0_def)

lemma bio_inv_klog0: "bc_inv {} c \<Longrightarrow> bio_inv {} (klog0 c l)"
  by (simp add: bio_inv_def klog0_def hcalm_hart0)

lemma dirtyset_bio1: "dirtyset (bio1 b d) = {0}"
  using bits_6 by (auto simp: dirtyset_def bio1_def bio0_def nth_upd_slot unused_def log_sizes split: if_splits)

lemma log_geom_lg0: "log_geom lg0 bio0" "log_geom lg0 (bio1 b d)"
  by (simp_all add: log_geom_def lg0_def bio1_def bio0_def)

lemma log_area_lg0: "b \<in> log_area lg0 \<longleftrightarrow> 2 \<le> unat b \<and> unat b < 32"
  using log_area_range [OF log_geom_lg0(1), of b] by (simp add: lg0_def)

lemma pending_klog0: "pending (klog0 (bio1 32 [7]) lg0)"
proof -
  have "dblocks (bio1 32 [7]) = {32}" unfolding dblocks_def dirtyset_bio1 by (simp add: bio1_def bio0_def log_sizes)
  moreover have "txn_ok lg0 (bio1 32 [7]) 1 (32 # replicate 29 0)"
    unfolding txn_ok_set by (simp add: log_area_lg0 log_sizes) (simp add: log_room_def lg0_def bio1_def bio0_def)
  moreover have "bio_inv {} (klog0 (bio1 32 [7]) lg0)" by (rule bio_inv_klog0) (simp add: bc_inv_bio1)
  ultimately show ?thesis
    using log_geom_lg0(2) [of 32 "[7]"] unfolding pending_def txn_open_def
    by (simp add: lg0_def log_sizes) (simp add: bio1_def bio0_def BSIZE_def le32_def word_of_bytes_def)
qed

theorem crash_atomic_witness:
  "\<exists>t ws. commit (klog0 (bio1 32 [7]) lg0) = Done () t \<and> dwrites (bio t) = ws \<and> disk (bio t) 32 = [7] \<and>
    (\<forall>k r. rebooted (klog0 (bio1 32 [7]) lg0) (wr_all (take k ws) (disk bio0)) r \<longrightarrow>
       (\<exists>u. recover_from_log r = Done () u \<and> bview (bio u) 32 = (if k \<le> 1 then replicate 512 0 else [7])))"
proof -
  have v: "bview (bio1 32 [7]) 32 = [7]"
    using bview_cached [OF bc_inv_bio1 [of 32 "[7]"], of 0] bits_6 by (simp add: bio1_def bio0_def log_sizes)
  have d: "disk (bio1 32 [7]) = disk bio0" "disk bio0 32 = replicate 512 0" "dwrites (bio1 32 [7]) = []"
    by (simp_all add: bio1_def bio0_def)
  have n: "lh_n (lg_lh lg0) = 1" by (simp add: lg0_def)
  have area: "32 \<notin> log_area lg0" by (simp add: log_area_lg0)
  obtain t ws where c: "commit (klog0 (bio1 32 [7]) lg0) = Done () t" "dwrites (bio t) = ws"
    "\<forall>b. b \<notin> log_area lg0 \<longrightarrow> disk (bio t) b = bview (bio1 32 [7]) b"
    "\<forall>k r. rebooted (klog0 (bio1 32 [7]) lg0) (wr_all (take k ws) (disk bio0)) r \<longrightarrow>
       (\<exists>u. recover_from_log r = Done () u \<and> le32 (disk (bio u) (lg_start lg0)) 0 = 0 \<and>
          (\<forall>b. b \<notin> log_area lg0 \<longrightarrow> bview (bio u) b = (if k \<le> 1 then disk bio0 b else bview (bio1 32 [7]) b)))"
    using crash_atomic [OF pending_klog0, unfolded klog0_simps d(1,3) n append_Nil] by (elim exE conjE)
  have "\<exists>u. recover_from_log r = Done () u \<and> bview (bio u) 32 = (if k \<le> 1 then replicate 512 0 else [7])"
    if "rebooted (klog0 (bio1 32 [7]) lg0) (wr_all (take k ws) (disk bio0)) r" for k r
  proof -
    note reb = that
    obtain u where u: "recover_from_log r = Done () u"
      "\<forall>b. b \<notin> log_area lg0 \<longrightarrow> bview (bio u) b = (if k \<le> 1 then disk bio0 b else bview (bio1 32 [7]) b)"
      using mp [OF spec [OF spec [OF c(4)]] reb] by (elim exE conjE)
    have "bview (bio u) 32 = (if k \<le> 1 then disk bio0 32 else bview (bio1 32 [7]) 32)" using u(2) area by blast
    then show ?thesis using u(1) unfolding v d(2) by blast
  qed
  moreover have "disk (bio t) 32 = [7]" using c(3) area v by simp
  ultimately show ?thesis using c(1,2) by blast
qed

text \<open>C24. A transaction from its first change to its commit. Let the log be empty and have at most \<^verbatim>\<open>NBUF\<close> blocks, as that of \<^verbatim>\<open>mkfs\<close> has, and
  let fewer changes than these, to blocks outside the log, each be made with \<^verbatim>\<open>bread\<close>, \<^verbatim>\<open>log_write\<close> and \<^verbatim>\<open>brelse\<close>, some of them possibly to
  the same block. Then every call returns, nothing is written to the disk before the commit, \<^verbatim>\<open>commit\<close> returns with all changes on the
  disk, and a stop after any number of its disk writes followed by recovery gives all of the changes or none of them.\<close>

theorem transaction_atomic:
  assumes "txn_open {} s" "lh_n (lg_lh (lg s)) = 0" "1 \<le> lg_outstanding (lg s)" "unat (lg_size (lg s)) \<le> NBUF"
    "ws \<noteq> []" "length ws < unat (lg_size (lg s))" "\<forall>b\<in>fst ` set ws. b < disksize (bio s) \<and> b \<notin> log_area (lg s)"
  shows "\<exists>t u ds. forK ws (\<lambda>(b, f). log_update b f) s = Done () t \<and> disk (bio t) = disk (bio s) \<and> dwrites (bio t) = dwrites (bio s) \<and>
    commit t = Done () u \<and> dwrites (bio u) = dwrites (bio s) @ ds \<and>
    (\<forall>b. b \<notin> log_area (lg s) \<longrightarrow> disk (bio u) b = upd_seq ws (disk (bio s)) b) \<and>
    (\<forall>k r. rebooted s (wr_all (take k ds) (disk (bio s))) r \<longrightarrow> (\<exists>v. recover_from_log r = Done () v \<and>
       (\<forall>b. b \<notin> log_area (lg s) \<longrightarrow> bview (bio v) b = (if k \<le> lh_n (lg_lh (lg t)) then disk (bio s) b else upd_seq ws (disk (bio s)) b))))"
proof -
  have o: "bio_inv {} s" "dblocks (bio s) = {}" "log_geom (lg s) (bio s)" using assms(1,2) by (simp_all add: txn_open_def)
  have view: "bview (bio s) = disk (bio s)" using bview_clean [OF o(1)] o(2) by auto
  have "txn_inv s 0 (length ws) s" using assms(1-4,6) log_size_room [OF o(3)] by (simp add: txn_inv_def)
  from txn_body [OF this assms(5,7)] obtain t where t: "forK ws (\<lambda>(b, f). log_update b f) s = Done () t" "txn_inv s 1 0 t"
    "bview (bio t) = upd_seq ws (disk (bio s))" "log_area (lg t) = log_area (lg s)" unfolding view by blast
  then have p: "pending t" "disk (bio t) = disk (bio s)" "dwrites (bio t) = dwrites (bio s)" "rebooted t = rebooted s"
    by (auto simp: txn_inv_def pending_def rebooted_def fun_eq_iff)
  show ?thesis using crash_ok [OF p(1), unfolded t(3,4) p(2-4)] t(1) p(2,3) by blast
qed

definition ws0 :: "(u32 \<times> (u8 list \<Rightarrow> u8 list)) list" where
  "ws0 = [(32, \<lambda>_. [7]), (40, \<lambda>d. take 1 d), (32, \<lambda>d. d @ [9])]"

theorem transaction_atomic_witness:
  "\<exists>t u. forK ws0 (\<lambda>(b, f). log_update b f) (klog0 bio0 (lg0\<lparr>lg_lh := \<lparr>lh_n = 0, lh_block = replicate 30 0\<rparr>\<rparr>)) = Done () t \<and>
    commit t = Done () u \<and> disk (bio u) 32 = [7, 9] \<and> disk (bio u) 40 = [0]"
proof -
  let ?s = "klog0 bio0 (lg0\<lparr>lg_lh := \<lparr>lh_n = 0, lh_block = replicate 30 0\<rparr>\<rparr>)"
  have "dirtyset bio0 = {}" by (auto simp: dirtyset_def bio0_def unused_def)
  then have "txn_open {} ?s"
    using bio_inv_klog0 [OF bc_inv_bio0] log_geom_lg0(1) unfolding txn_open_def txn_ok_set dblocks_def
    by (simp add: log_sizes) (simp add: lg0_def bio0_def BSIZE_def le32_def word_of_bytes_def)
  moreover have "\<forall>b\<in>fst ` set ws0. b < disksize (bio ?s) \<and> b \<notin> log_area (lg ?s)"
    by (auto simp: ws0_def log_area_lg0) (simp_all add: bio0_def)
  ultimately obtain t u where "forK ws0 (\<lambda>(b, f). log_update b f) ?s = Done () t" "commit t = Done () u"
    "\<forall>b. b \<notin> log_area (lg ?s) \<longrightarrow> disk (bio u) b = upd_seq ws0 (disk bio0) b"
    using transaction_atomic [of ?s ws0] by (auto simp: log_sizes lg0_def ws0_def)
  moreover from this(3) have "disk (bio u) 32 = [7, 9]" "disk (bio u) 40 = [0]"
    by (simp_all add: log_area_lg0 ws0_def) (simp add: bio0_def)
  ultimately show ?thesis by blast
qed

end
