(* ===== verification/Xv6_Inode.thy ===== *)
theory Xv6_Inode
  imports Xv6_Log
begin

text \<open>
  The lower half of \<^verbatim>\<open>fs.c\<close>: the block bitmap, the inodes on disk and the cache of inodes in memory. A pointer to an
  in-memory inode is its index in the cache; a null pointer is no index, so the tests against it are left to the
  callers, which have an option where the code may have a null pointer. The boot message that \<^verbatim>\<open>iinit\<close> prints is left
  out. A loop whose body may return is a search over the list of its indices.
\<close>

section \<open>Data\<close>

definition ROOTINO :: u32 where "ROOTINO = 1"
definition NDIRECT :: nat where "NDIRECT = 12"
definition NINDIRECT :: nat where "NINDIRECT = BSIZE div 4"
definition MAXFILE :: nat where "MAXFILE = NDIRECT + NINDIRECT"
definition IPB :: nat where "IPB = BSIZE div 64"
definition BPB :: nat where "BPB = BSIZE * 8"
definition DIRSIZ :: nat where "DIRSIZ = 14"
definition T_DIR :: u16 where "T_DIR = 1"
definition T_FILE :: u16 where "T_FILE = 2"
definition T_DEV :: u16 where "T_DEV = 3"

definition IBLOCK :: "u32 \<Rightarrow> superblock \<Rightarrow> u32" where
  "IBLOCK i sb = i div of_nat IPB + sb_inodestart sb"

definition BBLOCK :: "u32 \<Rightarrow> superblock \<Rightarrow> u32" where
  "BBLOCK b sb = b div of_nat BPB + sb_bmapstart sb"

record dinode =
  d_type :: u16
  d_major :: u16
  d_minor :: u16
  d_nlink :: u16
  d_size :: u32
  d_addrs :: "u32 list"

record inode =
  i_dev :: u32
  i_inum :: u32
  i_ref :: int
  i_valid :: bool
  i_type :: u16
  i_major :: u16
  i_minor :: u16
  i_nlink :: u16
  i_size :: u32
  i_addrs :: "u32 list"

record fsst =
  sb :: superblock
  inodes :: "inode list"

record kfs = klog +
  fs :: fsst

definition getF :: "(fsst \<Rightarrow> 'a) \<Rightarrow> ('z kfs_scheme, 'a) kmon" where
  "getF f = getK (\<lambda>s. f (fs s))"

definition modF :: "(fsst \<Rightarrow> fsst) \<Rightarrow> ('z kfs_scheme, unit) kmon" where
  "modF f = modK (\<lambda>s. s\<lparr>fs := f (fs s)\<rparr>)"

definition get_inode :: "nat \<Rightarrow> ('z kfs_scheme, inode) kmon" where
  "get_inode ip = getF (\<lambda>f. inodes f ! ip)"

definition mod_inode :: "nat \<Rightarrow> (inode \<Rightarrow> inode) \<Rightarrow> ('z kfs_scheme, unit) kmon" where
  "mod_inode ip f = modF (\<lambda>s. s\<lparr>inodes := upd_slot ip f (inodes s)\<rparr>)"

text \<open>The inode at byte offset \<open>p\<close> of a block: 64 bytes.\<close>

definition get_dinode :: "nat \<Rightarrow> u8 list \<Rightarrow> dinode" where
  "get_dinode p d = \<lparr>d_type = le16 d p, d_major = le16 d (p + 2), d_minor = le16 d (p + 4), d_nlink = le16 d (p + 6),
     d_size = le32 d (p + 8), d_addrs = map (\<lambda>i. le32 d (p + 12 + 4 * i)) [0..<NDIRECT + 1]\<rparr>"

definition put_dinode :: "nat \<Rightarrow> dinode \<Rightarrow> u8 list \<Rightarrow> u8 list" where
  "put_dinode p x d = foldl (\<lambda>d i. put32 (p + 12 + 4 * i) (d_addrs x ! i) d)
     (put32 (p + 8) (d_size x) (put16 (p + 6) (d_nlink x) (put16 (p + 4) (d_minor x) (put16 (p + 2) (d_major x)
       (put16 p (d_type x) d))))) [0..<NDIRECT + 1]"

definition dinode_off :: "u32 \<Rightarrow> nat" where
  "dinode_off inum = 64 * (unat inum mod IPB)"

section \<open>Blocks\<close>

definition bzero :: "u32 \<Rightarrow> u32 \<Rightarrow> ('z klog_scheme, unit) kmon" where
  "bzero dev bno =
     bindK (bread dev bno) (\<lambda>bp.
     thenK (set_data bp (\<lambda>d. replicate BSIZE 0)) (
     thenK (log_write bp)
           (brelse bp)))"

definition bit_free :: "u8 list \<Rightarrow> nat \<Rightarrow> bool" where
  "bit_free d bi \<longleftrightarrow> d ! (bi div 8) AND push_bit (bi mod 8) 1 = 0"

definition set_used :: "nat \<Rightarrow> u8 list \<Rightarrow> u8 list" where
  "set_used bi d = d[bi div 8 := d ! (bi div 8) OR push_bit (bi mod 8) 1]"

definition set_free :: "nat \<Rightarrow> u8 list \<Rightarrow> u8 list" where
  "set_free bi d = d[bi div 8 := d ! (bi div 8) AND NOT (push_bit (bi mod 8) 1)]"

text \<open>One pass of the outer loop of \<^verbatim>\<open>balloc\<close>, on the bitmap block of the blocks from \<open>b\<close> on.\<close>

definition balloc_at :: "u32 \<Rightarrow> nat \<Rightarrow> ('z kfs_scheme, u32 option) kmon" where
  "balloc_at dev b =
     bindK (getF sb) (\<lambda>sb.
     bindK (bread dev (BBLOCK (of_nat b) sb)) (\<lambda>bp.
     bindK (buf_data bp) (\<lambda>d.
     case find (bit_free d) [0..<min BPB (unat (sb_size sb) - b)] of
       Some bi \<Rightarrow>
         thenK (set_data bp (set_used bi)) (
         thenK (log_write bp) (
         thenK (brelse bp) (
         thenK (bzero dev (of_nat (b + bi)))
               (returnK (Some (of_nat (b + bi)))))))
     | None \<Rightarrow> thenK (brelse bp) (returnK None))))"

definition balloc :: "u32 \<Rightarrow> ('z kfs_scheme, u32) kmon" where
  "balloc dev =
     bindK (getF (\<lambda>f. unat (sb_size (sb f)))) (\<lambda>n.
     bindK (searchK (map (\<lambda>i. i * BPB) [0..<(n + BPB - 1) div BPB]) (balloc_at dev)) (\<lambda>r.
     case r of Some b \<Rightarrow> returnK b | None \<Rightarrow> panicK ''balloc: out of blocks''))"

definition bfree :: "u32 \<Rightarrow> u32 \<Rightarrow> ('z kfs_scheme, unit) kmon" where
  "bfree dev b =
     bindK (readsb dev) (\<lambda>x.
     thenK (modF (\<lambda>f. f\<lparr>sb := x\<rparr>)) (
     bindK (bread dev (BBLOCK b x)) (\<lambda>bp.
     bindK (buf_data bp) (\<lambda>d.
     let bi = unat b mod BPB in
     if bit_free d bi then panicK ''freeing free block'' else
     thenK (set_data bp (set_free bi)) (
     thenK (log_write bp)
           (brelse bp))))))"

section \<open>Inodes\<close>

definition iinit :: "u32 \<Rightarrow> ('z kfs_scheme, unit) kmon" where
  "iinit dev =
     thenK (initlock IcacheLock ''icache'') (
     thenK (forK [0..<NINODE] (\<lambda>i. initsleeplock (InodeLock i) ''inode'')) (
     bindK (readsb dev) (\<lambda>x. modF (\<lambda>f. f\<lparr>sb := x\<rparr>))))"

definition iget :: "u32 \<Rightarrow> u32 \<Rightarrow> ('z kfs_scheme, nat) kmon" where
  "iget dev inum =
     thenK (acquire IcacheLock) (
     bindK (getF (\<lambda>f. find_slot (\<lambda>ip. i_ref ip > 0 \<and> i_dev ip = dev \<and> i_inum ip = inum) (inodes f))) (\<lambda>r.
     case r of
       Some ip \<Rightarrow>
         thenK (mod_inode ip (i_ref_update (\<lambda>n. n + 1))) (
         thenK (release IcacheLock) (returnK ip))
     | None \<Rightarrow>
         bindK (getF (\<lambda>f. find_slot (\<lambda>ip. i_ref ip = 0) (inodes f))) (\<lambda>r.
         case r of
           None \<Rightarrow> panicK ''iget: no inodes''
         | Some ip \<Rightarrow>
             thenK (mod_inode ip (\<lambda>x. x\<lparr>i_dev := dev, i_inum := inum, i_ref := 1, i_valid := False\<rparr>)) (
             thenK (release IcacheLock) (returnK ip)))))"

definition ialloc_at :: "u32 \<Rightarrow> u16 \<Rightarrow> u32 \<Rightarrow> ('z kfs_scheme, nat option) kmon" where
  "ialloc_at dev type inum =
     bindK (getF sb) (\<lambda>sb.
     bindK (bread dev (IBLOCK inum sb)) (\<lambda>bp.
     bindK (buf_data bp) (\<lambda>d.
     if d_type (get_dinode (dinode_off inum) d) = 0 then
       thenK (set_data bp (put_dinode (dinode_off inum)
         \<lparr>d_type = type, d_major = 0, d_minor = 0, d_nlink = 0, d_size = 0, d_addrs = replicate (NDIRECT + 1) 0\<rparr>)) (
       thenK (log_write bp) (
       thenK (brelse bp)
             (bindK (iget dev inum) (\<lambda>ip. returnK (Some ip)))))
     else thenK (brelse bp) (returnK None))))"

definition ialloc :: "u32 \<Rightarrow> u16 \<Rightarrow> ('z kfs_scheme, nat) kmon" where
  "ialloc dev type =
     bindK (getF (\<lambda>f. unat (sb_ninodes (sb f)))) (\<lambda>n.
     bindK (searchK [1..<n] (\<lambda>inum. ialloc_at dev type (of_nat inum))) (\<lambda>r.
     case r of Some ip \<Rightarrow> returnK ip | None \<Rightarrow> panicK ''ialloc: no inodes''))"

definition to_dinode :: "inode \<Rightarrow> dinode" where
  "to_dinode x = \<lparr>d_type = i_type x, d_major = i_major x, d_minor = i_minor x, d_nlink = i_nlink x, d_size = i_size x,
     d_addrs = i_addrs x\<rparr>"

definition of_dinode :: "dinode \<Rightarrow> inode \<Rightarrow> inode" where
  "of_dinode d x = x\<lparr>i_type := d_type d, i_major := d_major d, i_minor := d_minor d, i_nlink := d_nlink d,
     i_size := d_size d, i_addrs := d_addrs d\<rparr>"

definition iupdate :: "nat \<Rightarrow> ('z kfs_scheme, unit) kmon" where
  "iupdate ip =
     bindK (get_inode ip) (\<lambda>x.
     bindK (getF sb) (\<lambda>sb.
     bindK (bread (i_dev x) (IBLOCK (i_inum x) sb)) (\<lambda>bp.
     thenK (set_data bp (put_dinode (dinode_off (i_inum x)) (to_dinode x))) (
     thenK (log_write bp)
           (brelse bp)))))"

definition idup :: "nat \<Rightarrow> ('z kfs_scheme, nat) kmon" where
  "idup ip =
     thenK (acquire IcacheLock) (
     thenK (mod_inode ip (i_ref_update (\<lambda>n. n + 1))) (
     thenK (release IcacheLock) (returnK ip)))"

definition ilock :: "nat \<Rightarrow> ('z kfs_scheme, unit) kmon" where
  "ilock ip =
     bindK (get_inode ip) (\<lambda>x.
     if i_ref x < 1 then panicK ''ilock'' else
     thenK (acquiresleep (InodeLock ip)) (
     bindK (get_inode ip) (\<lambda>x.
     whenK (\<not> i_valid x) (
       bindK (getF sb) (\<lambda>sb.
       bindK (bread (i_dev x) (IBLOCK (i_inum x) sb)) (\<lambda>bp.
       bindK (buf_data bp) (\<lambda>d.
       thenK (mod_inode ip (of_dinode (get_dinode (dinode_off (i_inum x)) d))) (
       thenK (brelse bp) (
       thenK (mod_inode ip (i_valid_update (\<lambda>_. True))) (
       bindK (get_inode ip) (\<lambda>x.
       if i_type x = 0 then panicK ''ilock: no type'' else returnK ())))))))))))"

definition iunlock :: "nat \<Rightarrow> ('z kfs_scheme, unit) kmon" where
  "iunlock ip =
     bindK (holdingsleep (InodeLock ip)) (\<lambda>h.
     bindK (get_inode ip) (\<lambda>x.
     if \<not> h \<or> i_ref x < 1 then panicK ''iunlock'' else
     releasesleep (InodeLock ip)))"

definition itrunc :: "nat \<Rightarrow> ('z kfs_scheme, unit) kmon" where
  "itrunc ip =
     thenK (forK [0..<NDIRECT] (\<lambda>i.
       bindK (get_inode ip) (\<lambda>x.
       whenK (i_addrs x ! i \<noteq> 0) (
         thenK (bfree (i_dev x) (i_addrs x ! i))
               (mod_inode ip (i_addrs_update (\<lambda>a. a[i := 0]))))))) (
     bindK (get_inode ip) (\<lambda>x.
     thenK (whenK (i_addrs x ! NDIRECT \<noteq> 0) (
       bindK (bread (i_dev x) (i_addrs x ! NDIRECT)) (\<lambda>bp.
       thenK (forK [0..<NINDIRECT] (\<lambda>j.
         bindK (buf_data bp) (\<lambda>d.
         whenK (le32 d (4 * j) \<noteq> 0) (bfree (i_dev x) (le32 d (4 * j)))))) (
       thenK (brelse bp) (
       thenK (bfree (i_dev x) (i_addrs x ! NDIRECT))
             (mod_inode ip (i_addrs_update (\<lambda>a. a[NDIRECT := 0])))))))) (
     thenK (mod_inode ip (i_size_update (\<lambda>_. 0)))
           (iupdate ip))))"

definition iput :: "nat \<Rightarrow> ('z kfs_scheme, unit) kmon" where
  "iput ip =
     thenK (acquiresleep (InodeLock ip)) (
     bindK (get_inode ip) (\<lambda>x.
     thenK (whenK (i_valid x \<and> i_nlink x = 0) (
       thenK (acquire IcacheLock) (
       bindK (get_inode ip) (\<lambda>y.
       thenK (release IcacheLock)
       (whenK (i_ref y = 1) (
          thenK (itrunc ip) (
          thenK (mod_inode ip (i_type_update (\<lambda>_. 0))) (
          thenK (iupdate ip)
                (mod_inode ip (i_valid_update (\<lambda>_. False))))))))))) (
     thenK (releasesleep (InodeLock ip)) (
     thenK (acquire IcacheLock) (
     thenK (mod_inode ip (i_ref_update (\<lambda>n. n - 1)))
           (release IcacheLock))))))"

definition iunlockput :: "nat \<Rightarrow> ('z kfs_scheme, unit) kmon" where
  "iunlockput ip = thenK (iunlock ip) (iput ip)"

section \<open>Inode content\<close>

definition bmap :: "nat \<Rightarrow> nat \<Rightarrow> ('z kfs_scheme, u32) kmon" where
  "bmap ip bn =
     bindK (get_inode ip) (\<lambda>x.
     if bn < NDIRECT then
       (if i_addrs x ! bn = 0 then
          bindK (balloc (i_dev x)) (\<lambda>addr.
          thenK (mod_inode ip (i_addrs_update (\<lambda>a. a[bn := addr]))) (returnK addr))
        else returnK (i_addrs x ! bn))
     else if bn - NDIRECT < NINDIRECT then
       bindK
         (if i_addrs x ! NDIRECT = 0 then
            bindK (balloc (i_dev x)) (\<lambda>addr.
            thenK (mod_inode ip (i_addrs_update (\<lambda>a. a[NDIRECT := addr]))) (returnK addr))
          else returnK (i_addrs x ! NDIRECT)) (\<lambda>ind.
       bindK (bread (i_dev x) ind) (\<lambda>bp.
       bindK (buf_data bp) (\<lambda>d.
       bindK
         (if le32 d (4 * (bn - NDIRECT)) = 0 then
            bindK (balloc (i_dev x)) (\<lambda>addr.
            thenK (set_data bp (put32 (4 * (bn - NDIRECT)) addr)) (
            thenK (log_write bp) (returnK addr)))
          else returnK (le32 d (4 * (bn - NDIRECT)))) (\<lambda>addr.
       thenK (brelse bp) (returnK addr)))))
     else panicK ''bmap: out of range'')"

record stat =
  st_type :: u16
  st_dev :: u32
  st_ino :: u32
  st_nlink :: u16
  st_size :: u32

definition stati :: "nat \<Rightarrow> ('z kfs_scheme, stat) kmon" where
  "stati ip =
     bindK (get_inode ip) (\<lambda>x.
     returnK \<lparr>st_type = i_type x, st_dev = i_dev x, st_ino = i_inum x, st_nlink = i_nlink x, st_size = i_size x\<rparr>)"

lemma getF_run [simp]: "getF f s = Done (f (fs s)) s"
  by (simp add: getF_def)

lemma modF_run [simp]: "modF f s = Done () (s\<lparr>fs := f (fs s)\<rparr>)"
  by (simp add: modF_def)

lemma get_inode_run [simp]: "get_inode ip s = Done (inodes (fs s) ! ip) s"
  by (simp add: get_inode_def)

lemma mod_inode_run [simp]: "mod_inode ip f s = Done () (s\<lparr>fs := (fs s)\<lparr>inodes := upd_slot ip f (inodes (fs s))\<rparr>\<rparr>)"
  by (simp add: mod_inode_def)

end
