(* ===== verification/Xv6_Console.thy ===== *)
theory Xv6_Console
  imports Xv6_Inode Kbd
begin

text \<open>
  The console (\<^verbatim>\<open>console.c\<close>), the output half of the serial port (\<^verbatim>\<open>uart.c\<close>) and \<^verbatim>\<open>procdump\<close> of \<^verbatim>\<open>proc.c\<close>. The state has
  the input buffer, the text screen with its cursor and the bytes sent to the serial port. The characters that
  \<^verbatim>\<open>getc\<close> delivers to \<^verbatim>\<open>consoleintr\<close> are an argument. A buffer of the caller is an argument too: \<open>dst i bs\<close> stores the
  bytes \<open>bs\<close> at offset \<open>i\<close> of the destination. The arguments of \<^verbatim>\<open>cprintf\<close> are a list of words and strings.
\<close>

section \<open>State\<close>

definition INPUT_BUF :: nat where "INPUT_BUF = 128"
definition BACKSPACE :: int where "BACKSPACE = 0x100"
definition CONSOLE :: nat where "CONSOLE = 1"

record input =
  ibuf :: "u8 list"
  ir :: u32
  iw :: u32
  ie :: u32

datatype devread = Consoleread
datatype devwrite = Consolewrite

record devsw =
  dread :: "devread option"
  dwrite :: "devwrite option"

record consst =
  locking :: bool
  panicked :: bool
  input :: input
  crt :: "nat \<Rightarrow> u16"
  crtpos :: nat
  uart :: bool
  uartout :: "u8 list"
  devsws :: "devsw list"

record kcons = kfs +
  cons :: consst

definition getC :: "(consst \<Rightarrow> 'a) \<Rightarrow> ('z kcons_scheme, 'a) kmon" where
  "getC f = getK (\<lambda>s. f (cons s))"

definition modC :: "(consst \<Rightarrow> consst) \<Rightarrow> ('z kcons_scheme, unit) kmon" where
  "modC f = modK (\<lambda>s. s\<lparr>cons := f (cons s)\<rparr>)"

definition mod_input :: "(input \<Rightarrow> input) \<Rightarrow> ('z kcons_scheme, unit) kmon" where
  "mod_input f = modC (\<lambda>c. c\<lparr>input := f (input c)\<rparr>)"

section \<open>Output\<close>

definition uartputc :: "int \<Rightarrow> ('z kcons_scheme, unit) kmon" where
  "uartputc c = modC (\<lambda>s. if uart s then s\<lparr>uartout := uartout s @ [word_of_int c]\<rparr> else s)"

text \<open>The cursor after the character has been placed, and the screen.\<close>

definition cga_place :: "int \<Rightarrow> nat \<Rightarrow> (nat \<Rightarrow> u16) \<Rightarrow> nat \<times> (nat \<Rightarrow> u16)" where
  "cga_place c pos scr =
     (if c = 10 then (pos + (80 - pos mod 80), scr)
      else if c = BACKSPACE then (pos - 1, scr)
      else (pos + 1, scr(pos := (word_of_int c AND 0xff) OR 0x0700)))"

definition cga_scroll :: "nat \<Rightarrow> (nat \<Rightarrow> u16) \<Rightarrow> nat \<times> (nat \<Rightarrow> u16)" where
  "cga_scroll pos scr =
     (if pos div 80 \<ge> 24 then
        (let up = (\<lambda>i. if i < 23 * 80 then scr (i + 80) else scr i);
             p = pos - 80
         in (p, \<lambda>i. if p \<le> i \<and> i < 24 * 80 then 0 else up i))
      else (pos, scr))"

definition cgaputc :: "int \<Rightarrow> ('z kcons_scheme, unit) kmon" where
  "cgaputc c =
     bindK (getC (\<lambda>s. cga_place c (crtpos s) (crt s))) (\<lambda>(pos, scr).
     if pos > 25 * 80 then panicK ''pos under/overflow'' else
     (let (p, scr) = cga_scroll pos scr
      in modC (\<lambda>s. s\<lparr>crtpos := p, crt := scr(p := 0x0720)\<rparr>)))"

definition consputc :: "int \<Rightarrow> ('z kcons_scheme, unit) kmon" where
  "consputc c =
     bindK (getC panicked) (\<lambda>p.
     if p then thenK cli (\<lambda>s. Spins s) else
     thenK (if c = BACKSPACE then thenK (uartputc 8) (thenK (uartputc 32) (uartputc 8)) else uartputc c)
           (cgaputc c))"

text \<open>The digits of \<^verbatim>\<open>printint\<close>, least significant first.\<close>

definition digit_char :: "nat \<Rightarrow> char" where
  "digit_char d = ''0123456789abcdef'' ! d"

function print_digits :: "nat \<Rightarrow> nat \<Rightarrow> char list" where
  "print_digits base x = digit_char (x mod base) # (if base \<le> 1 \<or> x div base = 0 then [] else print_digits base (x div base))"
  by pat_completeness auto
termination
proof (relation "measure (\<lambda>(base, x). x)")
  show "((base, x div base), base, x) \<in> measure (\<lambda>(base, x). x)" if "\<not> (base \<le> 1 \<or> x div base = 0)" for base x :: nat
    using that by (cases "x = 0") auto
qed simp

text \<open>The characters \<^verbatim>\<open>printint\<close> prints, in order.\<close>

definition print_int :: "u32 \<Rightarrow> nat \<Rightarrow> bool \<Rightarrow> char list" where
  "print_int xx base sign =
     (let neg = (sign \<and> sint xx < 0);
          x = (if neg then - xx else xx)
      in rev (print_digits base (unat x) @ (if neg then [CHR ''-''] else [])))"

definition consputs :: "char list \<Rightarrow> ('z kcons_scheme, unit) kmon" where
  "consputs cs = forK cs (\<lambda>c. consputc (int (of_char c)))"

definition printint :: "u32 \<Rightarrow> nat \<Rightarrow> bool \<Rightarrow> ('z kcons_scheme, unit) kmon" where
  "printint xx base sign = consputs (print_int xx base sign)"

datatype carg = Word u32 | Str "char list option"

text \<open>The text \<^verbatim>\<open>cprintf\<close> prints. Fewer arguments than the format asks for, or arguments of the wrong kind, are
  undefined in C; the result is then \<open>None\<close>.\<close>

fun cformat :: "char list \<Rightarrow> carg list \<Rightarrow> char list option" where
  "cformat [] as = Some []"
| "cformat (c # fmt) as =
     (if c \<noteq> CHR ''%'' then map_option (Cons c) (cformat fmt as)
      else case fmt of
        [] \<Rightarrow> Some []
      | d # fmt' \<Rightarrow>
          (if d = CHR ''d'' then
             (case as of Word w # as' \<Rightarrow> map_option (append (print_int w 10 True)) (cformat fmt' as') | _ \<Rightarrow> None)
           else if d = CHR ''x'' \<or> d = CHR ''p'' then
             (case as of Word w # as' \<Rightarrow> map_option (append (print_int w 16 False)) (cformat fmt' as') | _ \<Rightarrow> None)
           else if d = CHR ''s'' then
             (case as of
                Str None # as' \<Rightarrow> map_option (append ''(null)'') (cformat fmt' as')
              | Str (Some t) # as' \<Rightarrow> map_option (append t) (cformat fmt' as')
              | _ \<Rightarrow> None)
           else if d = CHR ''%'' then map_option (Cons (CHR ''%'')) (cformat fmt' as)
           else map_option (append [CHR ''%'', d]) (cformat fmt' as)))"

definition cprintf :: "char list \<Rightarrow> carg list \<Rightarrow> ('z kcons_scheme, unit) kmon" where
  "cprintf fmt as =
     bindK (getC locking) (\<lambda>l.
     thenK (whenK l (acquire ConsLock)) (
     thenK (case cformat fmt as of None \<Rightarrow> panicK ''undefined: arguments of cprintf'' | Some t \<Rightarrow> consputs t)
     (whenK l (release ConsLock))))"

text \<open>\<^verbatim>\<open>procdump\<close>. The call stack of a sleeping process, which \<^verbatim>\<open>getcallerpcs\<close> finds in its kernel stack, is given by the
  argument \<open>pcs\<close>.\<close>

definition state_name :: "procstate \<Rightarrow> string" where
  "state_name st = (case st of UNUSED \<Rightarrow> ''unused'' | EMBRYO \<Rightarrow> ''embryo'' | SLEEPING \<Rightarrow> ''sleep '' | RUNNABLE \<Rightarrow> ''runble''
     | RUNNING \<Rightarrow> ''run   '' | ZOMBIE \<Rightarrow> ''zombie'')"

definition procdump_one :: "u32 list \<Rightarrow> proc \<Rightarrow> ('z kcons_scheme, unit) kmon" where
  "procdump_one pc p =
     whenK (state p \<noteq> UNUSED) (
       thenK (cprintf ''%d %s %s'' [Word (pid p), Str (Some (state_name (state p))), Str (Some (pname p))]) (
       thenK (whenK (state p = SLEEPING) (forK (takeWhile (\<lambda>w. w \<noteq> 0) (take 10 pc)) (\<lambda>w. cprintf '' %p'' [Word w])))
             (cprintf [newline] [])))"

definition procdump :: "(nat \<Rightarrow> u32 list) \<Rightarrow> ('z kcons_scheme, unit) kmon" where
  "procdump pcs = bindK (getK ptable) (\<lambda>t. forK [0..<length t] (\<lambda>i. procdump_one (pcs i) (t ! i)))"

section \<open>Input\<close>

text \<open>How many characters \<^verbatim>\<open>C('U')\<close> erases: back to the start of the line being edited.\<close>

definition kill_len :: "input \<Rightarrow> nat" where
  "kill_len b = length (takeWhile (\<lambda>i. ibuf b ! (unat (ie b - of_nat i - 1) mod INPUT_BUF) \<noteq> 10) [0..<unat (ie b - iw b)])"

definition erase :: "('z kcons_scheme, unit) kmon" where
  "erase = thenK (mod_input (\<lambda>b. b\<lparr>ie := ie b - 1\<rparr>)) (consputc BACKSPACE)"

definition console_char :: "int \<Rightarrow> ('z kcons_scheme, unit) kmon" where
  "console_char c =
     bindK (getC input) (\<lambda>b.
     if c = 16 then returnK ()
     else if c = 21 then forK [0..<kill_len b] (\<lambda>_. erase)
     else if c = 8 \<or> c = 127 then whenK (ie b \<noteq> iw b) erase
     else whenK (c \<noteq> 0 \<and> ie b - ir b < of_nat INPUT_BUF) (
       (let c = (if c = 13 then 10 else c)
        in thenK (mod_input (\<lambda>b. b\<lparr>ibuf := (ibuf b)[unat (ie b) mod INPUT_BUF := word_of_int c], ie := ie b + 1\<rparr>)) (
           thenK (consputc c) (
           bindK (getC input) (\<lambda>b.
           whenK (c = 10 \<or> c = 4 \<or> ie b = ir b + of_nat INPUT_BUF) (
             thenK (mod_input (\<lambda>b. b\<lparr>iw := ie b\<rparr>)) (wakeup (Some InputChan)))))))))"

definition consoleintr :: "(nat \<Rightarrow> u32 list) \<Rightarrow> int list \<Rightarrow> ('z kcons_scheme, unit) kmon" where
  "consoleintr pcs cs =
     thenK (acquire ConsLock) (
     thenK (forK cs console_char) (
     thenK (release ConsLock)
           (whenK (16 \<in> set cs) (procdump pcs))))"

text \<open>\<^verbatim>\<open>consoleread\<close>: the value it returns and the bytes it has stored. \<open>n\<close> is how many more are wanted, \<open>got\<close> what has
  been stored so far. A process that slept in the inner loop comes back to the start of \<open>consoleread_loop\<close>.\<close>

primrec consoleread_loop :: "nat \<Rightarrow> nat \<Rightarrow> (nat \<Rightarrow> u8 list \<Rightarrow> ('z kcons_scheme, unit) kmon) \<Rightarrow> nat \<Rightarrow> u8 list
    \<Rightarrow> ('z kcons_scheme, int \<times> u8 list) kmon" where
  "consoleread_loop 0 ip dst target got =
     thenK (release ConsLock) (thenK (ilock ip) (returnK (int (length got), got)))"
| "consoleread_loop (Suc n) ip dst target got =
     bindK (getC input) (\<lambda>b.
     if ir b = iw b then
       bindK curproc (\<lambda>p.
       bindK (getK (\<lambda>s. killed (ptable s ! p))) (\<lambda>k.
       if k then thenK (release ConsLock) (thenK (ilock ip) (returnK (-1, got)))
       else sleep (Some InputChan) (Some ConsLock)))
     else
       (let c = ibuf b ! (unat (ir b) mod INPUT_BUF)
        in thenK (mod_input (\<lambda>b. b\<lparr>ir := ir b + 1\<rparr>)) (
           if c = 4 then
             thenK (whenK (Suc n < target) (mod_input (\<lambda>b. b\<lparr>ir := ir b - 1\<rparr>))) (
             thenK (release ConsLock) (thenK (ilock ip) (returnK (int (length got), got))))
           else
             thenK (dst (length got) [c]) (
             if c = 10 then
               thenK (release ConsLock) (thenK (ilock ip) (returnK (int (length got + 1), got @ [c])))
             else consoleread_loop n ip dst target (got @ [c])))))"

definition consoleread :: "nat \<Rightarrow> (nat \<Rightarrow> u8 list \<Rightarrow> ('z kcons_scheme, unit) kmon) \<Rightarrow> int \<Rightarrow> ('z kcons_scheme, int \<times> u8 list) kmon" where
  "consoleread ip dst n =
     thenK (iunlock ip) (
     thenK (acquire ConsLock)
     (if n \<le> 0 then thenK (release ConsLock) (thenK (ilock ip) (returnK (0, [])))
      else consoleread_loop (nat n) ip dst (nat n) []))"

definition consolewrite :: "nat \<Rightarrow> u8 list \<Rightarrow> ('z kcons_scheme, int) kmon" where
  "consolewrite ip buf =
     thenK (iunlock ip) (
     thenK (acquire ConsLock) (
     thenK (forK buf (\<lambda>b. consputc (uint b))) (
     thenK (release ConsLock) (
     thenK (ilock ip) (returnK (int (length buf)))))))"

definition consoleinit :: "('z kcons_scheme, unit) kmon" where
  "consoleinit =
     thenK (initlock ConsLock ''console'') (
     thenK (modC (\<lambda>c. c\<lparr>devsws := upd_slot CONSOLE (\<lambda>d. d\<lparr>dwrite := Some Consolewrite\<rparr>) (devsws c)\<rparr>)) (
     thenK (modC (\<lambda>c. c\<lparr>devsws := upd_slot CONSOLE (\<lambda>d. d\<lparr>dread := Some Consoleread\<rparr>) (devsws c)\<rparr>))
           (modC (\<lambda>c. c\<lparr>locking := True\<rparr>))))"

lemma getC_run [simp]: "getC f s = Done (f (cons s)) s"
  by (simp add: getC_def)

lemma modC_run [simp]: "modC f s = Done () (s\<lparr>cons := f (cons s)\<rparr>)"
  by (simp add: modC_def)

lemma mod_input_run [simp]: "mod_input f s = Done () (s\<lparr>cons := (cons s)\<lparr>input := f (input (cons s))\<rparr>\<rparr>)"
  by (simp add: mod_input_def)

section \<open>A concrete state\<close>

definition fs0 :: fsst where
  "fs0 = \<lparr>sb = \<lparr>sb_size = 1000, sb_nblocks = 941, sb_ninodes = 200, sb_nlog = 30, sb_logstart = 2, sb_inodestart = 32, sb_bmapstart = 58\<rparr>,
     inodes = replicate NINODE \<lparr>i_dev = 0, i_inum = 0, i_ref = 0, i_valid = False, i_type = 0, i_major = 0, i_minor = 0,
       i_nlink = 0, i_size = 0, i_addrs = replicate 13 0\<rparr>\<rparr>"

definition cons0 :: consst where
  "cons0 = \<lparr>locking = True, panicked = False, input = \<lparr>ibuf = replicate 128 0, ir = 0, iw = 0, ie = 0\<rparr>, crt = (\<lambda>_. 0), crtpos = 0,
     uart = False, uartout = [], devsws = replicate 10 \<lparr>dread = None, dwrite = None\<rparr>\<rparr>"

definition kcons0 :: "fsst \<Rightarrow> consst \<Rightarrow> kcons" where
  "kcons0 f c = \<lparr>hw = hart0, ptable = [proc0], initproc = Some 0, nextpid = 2,
     slocks = (\<lambda>_. \<lparr>sl_locked = 0, sl_name = [], sl_pid = 0\<rparr>),
     mem = (\<lambda>_. 0), kend = 0x80120000, kdata = 0x80110000, kmem = \<lparr>use_lock = True, freelist = 0x80200000\<rparr>,
     bio = bio0, lg = lg0, fs = f, cons = c\<rparr>"

end
