(* ===== verification/Xv6_Ring.thy ===== *)
theory Xv6_Ring
  imports Xv6_Base
begin

text \<open>
  Circular buffers with free-running 32-bit indices, as pipes and the console's input line use them: the byte with
  number \<open>i\<close> lies at \<open>i\<close> modulo the size, and the indices wrap at \<open>2 ^ 32\<close>. The locale \<open>bounded_queue\<close> is the contract such a
  buffer offers; its clients' lemmas on runs of insertions and removals are proved there.
\<close>

section \<open>The contract\<close>

locale bounded_queue =
  fixes ok :: "'q \<Rightarrow> bool" and abs_q :: "'q \<Rightarrow> 'a list" and cap :: nat
    and push :: "'a \<Rightarrow> 'q \<Rightarrow> 'q" and pop :: "'q \<Rightarrow> 'q" and front :: "'q \<Rightarrow> 'a"
  assumes push_law: "ok q \<Longrightarrow> length (abs_q q) < cap \<Longrightarrow> ok (push c q) \<and> abs_q (push c q) = abs_q q @ [c]"
    and pop_law: "ok q \<Longrightarrow> abs_q q \<noteq> [] \<Longrightarrow> ok (pop q) \<and> abs_q (pop q) = tl (abs_q q) \<and> front q = hd (abs_q q)"
    and bound_law: "ok q \<Longrightarrow> length (abs_q q) \<le> cap"
begin

lemma push_all:
  "ok q \<Longrightarrow> length (abs_q q) + length cs \<le> cap \<Longrightarrow> ok (fold push cs q) \<and> abs_q (fold push cs q) = abs_q q @ cs"
  by (induction cs arbitrary: q) (auto simp: push_law)

lemma pop_all:
  "ok q \<Longrightarrow> n \<le> length (abs_q q) \<Longrightarrow> ok ((pop ^^ n) q) \<and> abs_q ((pop ^^ n) q) = drop n (abs_q q)"
proof (induction n)
  case (Suc n)
  then show ?case using pop_law [of "(pop ^^ n) q"] by (auto simp: drop_Suc tl_drop)
qed simp

lemma fronts: "ok q \<Longrightarrow> n < length (abs_q q) \<Longrightarrow> front ((pop ^^ n) q) = abs_q q ! n"
  using pop_all [of q n] pop_law [of "(pop ^^ n) q"] by (simp add: hd_drop_conv_nth)

end

section \<open>The buffer\<close>

definition ring_contents :: "nat \<Rightarrow> 'a list \<Rightarrow> u32 \<Rightarrow> u32 \<Rightarrow> 'a list" where
  "ring_contents N d r w = map (\<lambda>i. d ! ((unat r + i) mod N)) [0..<unat (w - r)]"

definition ring_ok :: "nat \<Rightarrow> 'a list \<Rightarrow> u32 \<Rightarrow> u32 \<Rightarrow> bool" where
  "ring_ok N d r w \<longleftrightarrow> length d = N \<and> unat (w - r) \<le> N"

lemma length_ring [simp]: "length (ring_contents N d r w) = unat (w - r)"
  by (simp add: ring_contents_def)

lemma ring_empty_iff: "ring_contents N d r w = [] \<longleftrightarrow> r = w"
  by (auto simp: ring_contents_def unat_eq_zero simp flip: length_0_conv)

lemma nth_ring: "i < unat (w - r) \<Longrightarrow> ring_contents N d r w ! i = d ! ((unat r + i) mod N)"
  by (simp add: ring_contents_def)

lemma index_wraps:
  assumes "N dvd 4294967296"
  shows "unat (r + of_nat i :: u32) mod N = (unat r + i) mod N"
proof -
  have "unat (r + of_nat i) = (unat r + i) mod 4294967296" by (simp add: unat_word_ariths unat_of_nat mod_simps)
  then show ?thesis using assms by (simp add: mod_mod_cancel)
qed

lemma write_index:
  assumes "N dvd 4294967296"
  shows "unat (w :: u32) mod N = (unat r + unat (w - r)) mod N"
  using index_wraps [OF assms, of r "unat (w - r)"] by simp

lemma unat_diff_Suc:
  assumes "unat (w - r :: u32) < 4294967295"
  shows "unat (w + 1 - r) = Suc (unat (w - r))"
proof -
  have "w + 1 - r = (w - r) + 1" by (simp add: algebra_simps)
  moreover have "unat ((w - r) + 1) = unat (w - r) + unat (1 :: u32)"
    by (rule unat_add_small) (use assms in simp)
  ultimately show ?thesis by (simp only:) simp
qed

lemma unat_diff_pred:
  assumes "w \<noteq> (r :: u32)"
  shows "unat (w - (r + 1)) = unat (w - r) - 1" "unat (w - 1 - r) = unat (w - r) - 1"
proof -
  have "0 < unat (w - r)" using assms by (simp add: unat_gt_0)
  then have "1 \<le> w - r" by (simp add: word_le_nat_alt)
  then have "unat (w - r - 1) = unat (w - r) - 1" by (simp add: unat_sub_le)
  moreover have "w - (r + 1) = w - r - 1" "w - 1 - r = w - r - 1" by (simp_all add: algebra_simps)
  ultimately show "unat (w - (r + 1)) = unat (w - r) - 1" "unat (w - 1 - r) = unat (w - r) - 1" by (simp_all only:)
qed

lemma mod_apart: "i < j \<Longrightarrow> j < i + N \<Longrightarrow> (a + i) mod N \<noteq> (a + j) mod (N :: nat)"
proof
  assume "i < j" "j < i + N" "(a + i) mod N = (a + j) mod N"
  then have "N dvd (a + j) - (a + i)" by (metis mod_eq_dvd_iff_nat add_le_cancel_left less_imp_le)
  then have "N \<le> j - i" using \<open>i < j\<close> by (simp add: dvd_imp_le)
  then show False using \<open>i < j\<close> \<open>j < i + N\<close> by linarith
qed

lemma ring_push:
  assumes "N dvd 4294967296" "N < 4294967295" "ring_ok N d r w" "unat (w - r) < N"
  shows "ring_ok N (d[unat w mod N := c]) r (w + 1)"
    and "ring_contents N (d[unat w mod N := c]) r (w + 1) = ring_contents N d r w @ [c]"
proof -
  have e: "unat (w + 1 - r) = Suc (unat (w - r))" using assms by (intro unat_diff_Suc) linarith
  then show "ring_ok N (d[unat w mod N := c]) r (w + 1)" using assms by (simp add: ring_ok_def)
  have n: "0 < N" "length d = N" using assms by (auto simp: ring_ok_def)
  have old: "d[unat w mod N := c] ! ((unat r + i) mod N) = d ! ((unat r + i) mod N)" if "i < unat (w - r)" for i
    using mod_apart [OF that, of N "unat r"] assms(4) by (simp add: write_index [OF assms(1), of w r])
  have new: "d[unat w mod N := c] ! ((unat r + unat (w - r)) mod N) = c"
    using n by (simp flip: write_index [OF assms(1), of w r])
  show "ring_contents N (d[unat w mod N := c]) r (w + 1) = ring_contents N d r w @ [c]"
    unfolding ring_contents_def e using old new by simp
qed

lemma ring_pop:
  assumes "N dvd 4294967296" "ring_ok N d r w" "r \<noteq> w"
  shows "ring_ok N d (r + 1) w" "ring_contents N d (r + 1) w = tl (ring_contents N d r w)"
    "d ! (unat r mod N) = hd (ring_contents N d r w)"
proof -
  have e: "unat (w - (r + 1)) = unat (w - r) - 1" using assms(3) by (intro unat_diff_pred(1)) simp
  have pos: "0 < unat (w - r)" using assms(3) by (simp add: unat_gt_0)
  show "ring_ok N d (r + 1) w" using assms(2) e unfolding ring_ok_def by linarith
  show "d ! (unat r mod N) = hd (ring_contents N d r w)"
    using pos by (simp add: ring_contents_def hd_map upt_rec)
  have i: "(unat (r + 1) + i) mod N = (unat r + Suc i) mod N" for i
  proof -
    have "(unat (r + 1) + i) mod N = (unat (r + 1) mod N + i) mod N" by (simp add: mod_add_left_eq)
    also have "\<dots> = ((unat r + 1) mod N + i) mod N" using index_wraps [OF assms(1), of r 1] by simp
    also have "\<dots> = (unat r + Suc i) mod N" by (simp add: mod_add_left_eq)
    finally show ?thesis .
  qed
  show "ring_contents N d (r + 1) w = tl (ring_contents N d r w)"
    by (rule nth_equalityI) (simp_all add: e nth_ring nth_tl i)
qed

lemma ring_unpush:
  assumes "ring_ok N d r w" "r \<noteq> w"
  shows "ring_ok N d r (w - 1)" "ring_contents N d r (w - 1) = butlast (ring_contents N d r w)"
proof -
  have e: "unat (w - 1 - r) = unat (w - r) - 1" using assms(2) by (intro unat_diff_pred(2)) simp
  show "ring_ok N d r (w - 1)" using assms(1) e unfolding ring_ok_def by linarith
  show "ring_contents N d r (w - 1) = butlast (ring_contents N d r w)"
    by (rule nth_equalityI) (simp_all add: e nth_ring nth_butlast)
qed

end
