(* ===== verification/Xv6_Line.thy ===== *)
theory Xv6_Line
  imports Xv6_Console Xv6_Ring
begin

text \<open>
  The line discipline of the console (\<^verbatim>\<open>consoleintr\<close> of \<^verbatim>\<open>console.c\<close>): the circular buffer with its read, write and edit
  index implements a queue of committed bytes and a line being edited.
\<close>

section \<open>Output\<close>

definition cons_ok :: "consst \<Rightarrow> bool" where
  "cons_ok c \<longleftrightarrow> \<not> panicked c \<and> crtpos c < 24 * 80"

definition same_input :: "consst \<Rightarrow> consst \<Rightarrow> bool" where
  "same_input c d \<longleftrightarrow> input d = input c \<and> locking d = locking c \<and> devsws d = devsws c"

text \<open>The cursor never leaves the screen, so putting a character never panics.\<close>

lemma cga_in_range:
  assumes "pos < 1920" "cga_place c pos scr = (p, scr')"
  shows "p \<le> 1920" "fst (cga_scroll p scr'') < 1920"
proof -
  show "p \<le> 1920"
  proof (cases "c = 10")
    case True
    have "pos div 80 < 24" using assms(1) by (simp add: less_mult_imp_div_less)
    moreover have "pos + (80 - pos mod 80) = (pos div 80 + 1) * 80"
    proof -
      have m: "pos mod 80 < 80" "pos mod 80 \<le> pos" by simp_all
      then have "pos + (80 - pos mod 80) = (pos - pos mod 80) + 80" by linarith
      also have "pos - pos mod 80 = pos div 80 * 80" by (rule minus_mod_eq_div_mult)
      finally show ?thesis by simp
    qed
    ultimately show ?thesis using True assms(2) by (auto simp: cga_place_def)
  qed (use assms in \<open>auto simp: cga_place_def split: if_splits\<close>)
  then show "fst (cga_scroll p scr'') < 1920" by (auto simp: cga_scroll_def Let_def not_le div_less_iff_less_mult)
qed

definition echoes :: "('z kcons_scheme, unit) kmon \<Rightarrow> bool" where
  "echoes f \<longleftrightarrow> (\<forall>s. cons_ok (cons s) \<longrightarrow> (\<exists>c. f s = Done () (s\<lparr>cons := c\<rparr>) \<and> cons_ok c \<and> same_input (cons s) c))"

lemma echoesD: "echoes f \<Longrightarrow> cons_ok (cons s) \<Longrightarrow> \<exists>c. f s = Done () (s\<lparr>cons := c\<rparr>) \<and> cons_ok c \<and> same_input (cons s) c"
  by (simp add: echoes_def)

lemma echoes_thenK:
  assumes "echoes f" "echoes g"
  shows "echoes (thenK f g)"
  unfolding echoes_def
proof (intro allI impI)
  fix s :: "'a kcons_scheme" assume "cons_ok (cons s)"
  then obtain c where c: "f s = Done () (s\<lparr>cons := c\<rparr>)" "cons_ok c" "same_input (cons s) c" using echoesD [OF assms(1)] by blast
  then obtain d where "g (s\<lparr>cons := c\<rparr>) = Done () (s\<lparr>cons := c\<rparr>\<lparr>cons := d\<rparr>)" "cons_ok d" "same_input c d"
    using echoesD [OF assms(2), of "s\<lparr>cons := c\<rparr>"] by auto
  then show "\<exists>c. thenK f g s = Done () (s\<lparr>cons := c\<rparr>) \<and> cons_ok c \<and> same_input (cons s) c"
    using c by (intro exI [of _ d]) (simp add: same_input_def)
qed

lemma echoes_cgaputc: "echoes (cgaputc k)"
  unfolding echoes_def
proof (intro allI impI)
  fix s :: "'a kcons_scheme" assume ok: "cons_ok (cons s)"
  obtain p scr where p: "cga_place k (crtpos (cons s)) (crt (cons s)) = (p, scr)" by fastforce
  obtain p' scr' where q: "cga_scroll p scr = (p', scr')" by fastforce
  have "crtpos (cons s) < 1920" using ok by (simp add: cons_ok_def)
  then have "p \<le> 1920" "p' < 1920" using cga_in_range(1) [OF _ p] cga_in_range(2) [OF _ p, where scr'' = scr] q by auto
  then show "\<exists>c. cgaputc k s = Done () (s\<lparr>cons := c\<rparr>) \<and> cons_ok c \<and> same_input (cons s) c"
    using ok p q by (intro exI [of _ "(cons s)\<lparr>crtpos := p', crt := scr'(p' := 0x0720)\<rparr>"]) (simp add: cgaputc_def cons_ok_def same_input_def)
qed

lemma echoes_uartputc: "echoes (uartputc k)"
  unfolding echoes_def
proof (intro allI impI)
  fix s :: "'a kcons_scheme" assume "cons_ok (cons s)"
  then show "\<exists>c. uartputc k s = Done () (s\<lparr>cons := c\<rparr>) \<and> cons_ok c \<and> same_input (cons s) c"
    by (intro exI [of _ "if uart (cons s) then (cons s)\<lparr>uartout := uartout (cons s) @ [word_of_int k]\<rparr> else cons s"])
      (simp add: uartputc_def cons_ok_def same_input_def)
qed

lemma echoes_consputc: "echoes (consputc k)"
proof -
  have "echoes (thenK (if k = BACKSPACE then thenK (uartputc 8) (thenK (uartputc 32) (uartputc 8)) else uartputc k) (cgaputc k))"
    by (intro echoes_thenK echoes_cgaputc) (simp add: echoes_thenK echoes_uartputc)
  then show ?thesis by (simp add: echoes_def consputc_def cons_ok_def)
qed

section \<open>Input\<close>

text \<open>What the buffer holds, and the invariant: the line being edited has no newline, since a newline commits it.\<close>

definition in_bytes :: "input \<Rightarrow> u8 list" where
  "in_bytes b = ring_contents INPUT_BUF (ibuf b) (ir b) (ie b)"

definition committed :: "input \<Rightarrow> u8 list" where
  "committed b = take (unat (iw b - ir b)) (in_bytes b)"

definition line :: "input \<Rightarrow> u8 list" where
  "line b = drop (unat (iw b - ir b)) (in_bytes b)"

definition in_ok :: "input \<Rightarrow> bool" where
  "in_ok b \<longleftrightarrow> ring_ok INPUT_BUF (ibuf b) (ir b) (ie b) \<and> unat (iw b - ir b) \<le> unat (ie b - ir b) \<and> 10 \<notin> set (line b)"

abbreviation input_line :: "'z kcons_scheme \<Rightarrow> u8 list \<times> u8 list" where
  "input_line s \<equiv> (committed (input (cons s)), line (input (cons s)))"

text \<open>The line discipline: ^P is left to the caller, ^U empties the line, backspace and delete remove its last byte, any
  other byte is appended if there is room, carriage return as newline; newline, ^D and a full buffer commit the line.\<close>

definition line_step :: "int \<Rightarrow> u8 list \<times> u8 list \<Rightarrow> u8 list \<times> u8 list" where
  "line_step c = (\<lambda>(com, cur).
     if c = 16 then (com, cur)
     else if c = 21 then (com, [])
     else if c = 8 \<or> c = 127 then (com, butlast cur)
     else if c = 0 \<or> INPUT_BUF \<le> length com + length cur then (com, cur)
     else
       (let d = (if c = 13 then 10 else c); cur = cur @ [word_of_int d]
        in if d = 10 \<or> d = 4 \<or> length com + length cur = INPUT_BUF then (com @ cur, []) else (com, cur)))"

lemma in_split: "in_bytes b = committed b @ line b"
  by (simp add: committed_def line_def)

lemma in_lengths:
  assumes "in_ok b"
  shows "length (committed b) = unat (iw b - ir b)" "length (line b) = unat (ie b - iw b)"
    "length (committed b) + length (line b) = unat (ie b - ir b)" "unat (ie b - ir b) \<le> 128"
proof -
  have le: "iw b - ir b \<le> ie b - ir b" using assms by (simp add: in_ok_def word_le_nat_alt)
  have "ie b - iw b = (ie b - ir b) - (iw b - ir b)" by simp
  then have "unat (ie b - iw b) = unat (ie b - ir b) - unat (iw b - ir b)" using unat_sub_le [OF le] by (simp only:)
  then show "length (committed b) = unat (iw b - ir b)" "length (line b) = unat (ie b - iw b)"
    "length (committed b) + length (line b) = unat (ie b - ir b)" "unat (ie b - ir b) \<le> 128"
    using assms by (simp_all add: in_ok_def ring_ok_def committed_def line_def in_bytes_def INPUT_BUF_def)
qed

lemma line_empty_iff: "in_ok b \<Longrightarrow> ie b = iw b \<longleftrightarrow> line b = []"
  using in_lengths(2) [of b] by (metis length_0_conv unat_eq_zero eq_iff_diff_eq_0)

text \<open>The three changes of the buffer: a byte removed, a byte added, the line committed.\<close>

definition unput :: "input \<Rightarrow> input" where
  "unput b = b\<lparr>ie := ie b - 1\<rparr>"

definition put :: "u8 \<Rightarrow> input \<Rightarrow> input" where
  "put c b = b\<lparr>ibuf := (ibuf b)[unat (ie b) mod INPUT_BUF := c], ie := ie b + 1\<rparr>"

definition commit_line :: "input \<Rightarrow> input" where
  "commit_line b = b\<lparr>iw := ie b\<rparr>"

lemma unput_ok:
  assumes "in_ok b" "line b \<noteq> []"
  shows "in_ok (unput b)" "committed (unput b) = committed b" "line (unput b) = butlast (line b)"
proof -
  have ne: "ir b \<noteq> ie b" using assms in_lengths(3) [OF assms(1)] by auto
  have r: "ring_ok INPUT_BUF (ibuf b) (ir b) (ie b)" using assms(1) by (simp add: in_ok_def)
  have all: "in_bytes (unput b) = butlast (in_bytes b)" using ring_unpush(2) [OF r ne] by (simp add: in_bytes_def unput_def)
  have k: "length (committed b) = unat (iw b - ir b)" by (rule in_lengths(1) [OF assms(1)])
  have split: "in_bytes (unput b) = committed b @ butlast (line b)" using all assms(2) by (simp add: in_split butlast_append)
  then show l: "committed (unput b) = committed b" "line (unput b) = butlast (line b)"
    using k by (simp_all add: committed_def [of "unput b"] line_def [of "unput b"]) (simp_all add: unput_def)
  have "unat (iw b - ir b) \<le> unat (ie b - 1 - ir b)"
    using arg_cong [OF split, of length] k by (simp add: in_bytes_def unput_def)
  then show "in_ok (unput b)"
    using ring_unpush(1) [OF r ne] l(2) assms(1) in_set_butlastD [of 10 "line b"] by (auto simp: in_ok_def unput_def)
qed

lemma put_ok:
  assumes "in_ok b" "length (committed b) + length (line b) < INPUT_BUF"
  shows "committed (put c b) = committed b" "line (put c b) = line b @ [c]" "c \<noteq> 10 \<Longrightarrow> in_ok (put c b)"
    "ring_ok INPUT_BUF (ibuf (put c b)) (ir b) (ie b + 1)" "in_bytes (put c b) = committed b @ line b @ [c]"
proof -
  have n: "INPUT_BUF dvd 4294967296" "INPUT_BUF < 4294967295" by (simp_all add: INPUT_BUF_def)
  have r: "ring_ok INPUT_BUF (ibuf b) (ir b) (ie b)" and lt: "unat (ie b - ir b) < INPUT_BUF"
    using assms in_lengths(3) [OF assms(1)] by (simp_all add: in_ok_def)
  have k: "length (committed b) = unat (iw b - ir b)" by (rule in_lengths(1) [OF assms(1)])
  show split: "in_bytes (put c b) = committed b @ line b @ [c]"
    using ring_push(2) [OF n r lt] by (simp add: in_bytes_def put_def flip: in_split [unfolded in_bytes_def] append_assoc)
  then show l: "committed (put c b) = committed b" "line (put c b) = line b @ [c]"
    using k by (simp_all add: committed_def [of "put c b"] line_def [of "put c b"]) (simp_all add: put_def)
  show "ring_ok INPUT_BUF (ibuf (put c b)) (ir b) (ie b + 1)" using ring_push(1) [OF n r lt] by (simp add: put_def)
  moreover have "unat (iw b - ir b) \<le> unat (ie b + 1 - ir b)"
    using arg_cong [OF split, of length] k by (simp add: in_bytes_def put_def)
  ultimately show "c \<noteq> 10 \<Longrightarrow> in_ok (put c b)" using assms(1) l(2) by (auto simp: in_ok_def put_def)
qed

lemma commit_line_ok:
  assumes "ring_ok INPUT_BUF (ibuf b) (ir b) (ie b)"
  shows "in_ok (commit_line b)" "committed (commit_line b) = in_bytes b" "line (commit_line b) = []"
proof -
  have "length (in_bytes b) = unat (ie b - ir b)" by (simp add: in_bytes_def)
  then show "committed (commit_line b) = in_bytes b" "line (commit_line b) = []"
    by (simp_all add: committed_def line_def commit_line_def in_bytes_def)
  then show "in_ok (commit_line b)" using assms by (simp add: in_ok_def commit_line_def)
qed

section \<open>The interrupt handler\<close>

text \<open>A state with the console lock held, and what handling characters may change.\<close>

definition cons_locked :: "'z kcons_scheme \<Rightarrow> bool" where
  "cons_locked s \<longleftrightarrow> cpu_ok (hw s) \<and> 0 < depth (hw s) \<and> lock_free PtableLock (hw s) \<and> cons_ok (cons s) \<and> in_ok (input (cons s))"

definition typed :: "'z kcons_scheme \<Rightarrow> 'z kcons_scheme \<Rightarrow> bool" where
  "typed s t \<longleftrightarrow> (\<exists>c pt. t = s\<lparr>cons := c, ptable := pt\<rparr> \<and> cons_ok c \<and> in_ok (input c) \<and>
     devsws c = devsws (cons s) \<and> locking c = locking (cons s))"

lemma typedI:
  assumes "cons_ok c" "in_ok (input c)" "devsws c = devsws (cons s)" "locking c = locking (cons s)"
  shows "typed s (s\<lparr>cons := c, ptable := pt\<rparr>)" "typed s (s\<lparr>cons := c\<rparr>)"
proof -
  show "typed s (s\<lparr>cons := c, ptable := pt\<rparr>)" using assms by (auto simp: typed_def)
  have "s\<lparr>cons := c\<rparr> = s\<lparr>cons := c, ptable := ptable s\<rparr>" by simp
  then show "typed s (s\<lparr>cons := c\<rparr>)" using assms unfolding typed_def by blast
qed

lemma typedD:
  assumes "typed s t"
  shows "cons_ok (cons t)" "in_ok (input (cons t))" "hw t = hw s"
  using assms by (auto simp: typed_def)

lemma typed_refl:
  assumes "cons_locked s"
  shows "typed s s"
proof -
  have "typed s (s\<lparr>cons := cons s\<rparr>)" by (rule typedI(2)) (use assms in \<open>simp_all add: cons_locked_def\<close>)
  then show ?thesis by simp
qed

lemma typed_trans:
  assumes "typed s t" "typed t u"
  shows "typed s u"
proof -
  obtain c pt where t: "t = s\<lparr>cons := c, ptable := pt\<rparr>" "devsws c = devsws (cons s)" "locking c = locking (cons s)"
    using assms(1) by (auto simp: typed_def)
  obtain d qt where u: "u = t\<lparr>cons := d, ptable := qt\<rparr>" "cons_ok d" "in_ok (input d)" "devsws d = devsws (cons t)" "locking d = locking (cons t)"
    using assms(2) by (auto simp: typed_def)
  have "u = s\<lparr>cons := d, ptable := qt\<rparr>" using t(1) u(1) by simp
  moreover have "devsws d = devsws (cons s)" "locking d = locking (cons s)" using t u by simp_all
  ultimately show ?thesis using typedI(1) [OF u(2,3), of s qt] by simp
qed

lemma consputc_with:
  assumes "cons_ok (cons s)"
  shows "\<exists>c. consputc k s = Done () (s\<lparr>cons := c\<rparr>) \<and> cons_ok c \<and> same_input (cons s) c"
  using echoesD [OF echoes_consputc assms] .

lemma erase_run:
  assumes "cons_locked s" "line (input (cons s)) \<noteq> []"
  shows "\<exists>c. erase s = Done () (s\<lparr>cons := c\<rparr>) \<and> cons_locked (s\<lparr>cons := c\<rparr>) \<and>
    input c = unput (input (cons s)) \<and> locking c = locking (cons s) \<and> devsws c = devsws (cons s)"
proof -
  let ?s = "s\<lparr>cons := (cons s)\<lparr>input := unput (input (cons s))\<rparr>\<rparr>"
  have "cons_ok (cons ?s)" using assms(1) by (simp add: cons_locked_def cons_ok_def)
  then obtain c where "consputc BACKSPACE ?s = Done () (?s\<lparr>cons := c\<rparr>)" "cons_ok c" "same_input (cons ?s) c"
    using consputc_with by blast
  then show ?thesis using assms unput_ok(1) [of "input (cons s)"]
    by (intro exI [of _ c]) (simp add: erase_def unput_def [symmetric] same_input_def cons_locked_def)
qed

lemma erases_run:
  assumes "cons_locked s" "length (line (input (cons s))) = length xs"
  shows "\<exists>c. forK xs (\<lambda>_. erase) s = Done () (s\<lparr>cons := c\<rparr>) \<and> cons_locked (s\<lparr>cons := c\<rparr>) \<and>
    committed (input c) = committed (input (cons s)) \<and> line (input c) = [] \<and> locking c = locking (cons s) \<and> devsws c = devsws (cons s)"
  using assms
proof (induction xs arbitrary: s)
  case Nil
  then show ?case by (intro exI [of _ "cons s"]) simp
next
  case (Cons x xs)
  then have ne: "line (input (cons s)) \<noteq> []" by auto
  obtain c where c: "erase s = Done () (s\<lparr>cons := c\<rparr>)" "cons_locked (s\<lparr>cons := c\<rparr>)" "input c = unput (input (cons s))"
    "locking c = locking (cons s)" "devsws c = devsws (cons s)"
    using erase_run [OF Cons.prems(1) ne] by blast
  have u: "committed (input c) = committed (input (cons s))" "line (input c) = butlast (line (input (cons s)))"
    using unput_ok [OF _ ne] Cons.prems(1) c(3) by (simp_all add: cons_locked_def)
  have "length (line (input (cons (s\<lparr>cons := c\<rparr>)))) = length xs" using u(2) Cons.prems(2) by simp
  from Cons.IH [OF c(2) this] obtain d where "forK xs (\<lambda>_. erase) (s\<lparr>cons := c\<rparr>) = Done () (s\<lparr>cons := c\<rparr>\<lparr>cons := d\<rparr>)"
    "cons_locked (s\<lparr>cons := c\<rparr>\<lparr>cons := d\<rparr>)" "committed (input d) = committed (input c)" "line (input d) = []"
    "locking d = locking c" "devsws d = devsws c" by auto
  then show ?case using c u by (intro exI [of _ d]) simp
qed

text \<open>^U erases the whole line: there is no newline in it to stop at.\<close>

lemma kill_len_line:
  assumes "in_ok b"
  shows "kill_len b = length (line b)"
proof -
  let ?n = "unat (ie b - iw b)"
  have n: "INPUT_BUF dvd 4294967296" by (simp add: INPUT_BUF_def)
  note l = in_lengths [OF assms]
  have "ibuf b ! (unat (ie b - of_nat i - 1) mod INPUT_BUF) \<noteq> 10" if "i < ?n" for i
  proof -
    let ?m = "unat (ie b - ir b)"
    have lt: "i < ?m" using that l by linarith
    have e: "ie b - of_nat i - 1 = ir b + of_nat (?m - Suc i)" using lt by (simp add: of_nat_diff)
    have "ibuf b ! (unat (ie b - of_nat i - 1) mod INPUT_BUF) = in_bytes b ! (?m - Suc i)"
      unfolding e index_wraps [OF n] using lt by (simp add: in_bytes_def nth_ring)
    also have "\<dots> = line b ! (?n - Suc i)"
    proof -
      have "?m - Suc i = length (committed b) + (?n - Suc i)" using that l by linarith
      then show ?thesis by (simp only: in_split nth_append_length_plus)
    qed
    moreover have "line b ! (?n - Suc i) \<in> set (line b)" by (rule nth_mem) (use that l(2) in linarith)
    ultimately show ?thesis using assms by (metis in_ok_def)
  qed
  then have "takeWhile (\<lambda>i. ibuf b ! (unat (ie b - of_nat i - 1) mod INPUT_BUF) \<noteq> 10) [0..<?n] = [0..<?n]"
    by (subst takeWhile_eq_all_conv) auto
  from arg_cong [OF this, of length] show ?thesis unfolding kill_len_def l(2) by (simp only: length_upt diff_zero)
qed

lemma word_of_char: "0 \<le> c \<Longrightarrow> c < 256 \<Longrightarrow> (word_of_int c :: u8) = 10 \<longleftrightarrow> c = 10"
proof -
  assume "0 \<le> c" "c < 256"
  then have "uint (word_of_int c :: u8) = c" by (simp add: uint_word_of_int)
  then show ?thesis by (simp add: word_uint_eq_iff)
qed

lemma carriage_return: "console_char 13 = console_char 10" "line_step 13 = line_step 10"
  by (simp_all add: fun_eq_iff console_char_def line_step_def)

lemma console_char_put:
  assumes "cons_locked s" "0 \<le> c" "c < 256" "c \<notin> {0, 16, 21, 8, 127, 13}"
    "length (committed (input (cons s))) + length (line (input (cons s))) < INPUT_BUF"
  shows "\<exists>t. console_char c s = Done () t \<and> typed s t \<and>
    input_line t = line_step c (input_line s) \<and>
    ptable t = (if committed (input (cons t)) = committed (input (cons s)) then ptable s else map (wake (Some InputChan)) (ptable s))"
proof -
  let ?b = "input (cons s)" and ?w = "word_of_int c :: u8"
  let ?p = "put ?w ?b"
  let ?s = "s\<lparr>cons := (cons s)\<lparr>input := ?p\<rparr>\<rparr>"
  have ok: "in_ok ?b" "cons_ok (cons s)" "cpu_ok (hw s)" "0 < depth (hw s)" "lock_free PtableLock (hw s)"
    using assms(1) by (simp_all add: cons_locked_def)
  note l = in_lengths [OF ok(1)] and p = put_ok [OF ok(1) assms(5), of ?w]
  have room: "ie ?b - ir ?b < of_nat INPUT_BUF"
    using assms(5) l(3) by (simp add: word_less_nat_alt unat_of_nat_small INPUT_BUF_def)
  have "cons_ok (cons ?s)" using ok(2) by (simp add: cons_ok_def)
  then obtain d where d: "consputc c ?s = Done () (?s\<lparr>cons := d\<rparr>)" "cons_ok d" "same_input (cons ?s) d" using consputc_with by blast
  have di: "input d = ?p" "locking d = locking (cons s)" "devsws d = devsws (cons s)" using d(3) by (simp_all add: same_input_def)
  have full: "ie ?p = ir ?p + of_nat INPUT_BUF \<longleftrightarrow> length (committed ?b) + length (line ?b) + 1 = INPUT_BUF"
  proof -
    have "ie ?p = ir ?p + of_nat INPUT_BUF \<longleftrightarrow> ie ?b + 1 - ir ?b = of_nat INPUT_BUF" by (auto simp: put_def algebra_simps)
    also have "\<dots> \<longleftrightarrow> unat (ie ?b + 1 - ir ?b) = INPUT_BUF" by (simp add: word_unat_eq_iff unat_of_nat_small INPUT_BUF_def)
    finally have "ie ?p = ir ?p + of_nat INPUT_BUF \<longleftrightarrow> unat (ie ?b + 1 - ir ?b) = INPUT_BUF" .
    then show ?thesis using unat_diff_Suc [of "ie ?b" "ir ?b"] l by simp
  qed
  show ?thesis
  proof (cases "c = 10 \<or> c = 4 \<or> ie ?p = ir ?p + of_nat INPUT_BUF")
    case True
    let ?t = "s\<lparr>cons := d\<lparr>input := commit_line ?p\<rparr>, ptable := map (wake (Some InputChan)) (ptable s)\<rparr>"
    have c: "in_ok (commit_line ?p)" "committed (commit_line ?p) = committed ?b @ line ?b @ [?w]" "line (commit_line ?p) = []"
      using commit_line_ok [of ?p] p(4,5) by (simp_all add: put_def)
    show ?thesis
      using True assms(4,5) room ok d di c full
      by (intro exI [of _ ?t]) (simp add: console_char_def put_def [symmetric] commit_line_def [symmetric] wakeup_run typedI
        cons_ok_def line_step_def Let_def)
  next
    case False
    let ?t = "s\<lparr>cons := d\<rparr>"
    have "in_ok ?p" using p(3) False word_of_char [OF assms(2,3)] by simp
    then show ?thesis
      using False assms(4,5) room ok d di p full
      by (intro exI [of _ ?t]) (simp add: console_char_def put_def [symmetric] typedI cons_ok_def line_step_def Let_def)
  qed
qed

lemma console_char_run:
  assumes "cons_locked s" "0 \<le> c" "c < 256"
  shows "\<exists>t. console_char c s = Done () t \<and> typed s t \<and> input_line t = line_step c (input_line s) \<and>
    ptable t = (if committed (input (cons t)) = committed (input (cons s)) then ptable s else map (wake (Some InputChan)) (ptable s))"
proof -
  let ?b = "input (cons s)"
  have ok: "in_ok ?b" "cons_ok (cons s)" using assms(1) by (simp_all add: cons_locked_def)
  consider "c = 16" | "c = 21" | "c = 8 \<or> c = 127" "line ?b = []" | "c = 8 \<or> c = 127" "line ?b \<noteq> []" | "c = 0"
    | "c \<notin> {0, 16, 21, 8, 127}" "INPUT_BUF \<le> length (committed ?b) + length (line ?b)"
    | "c \<notin> {0, 16, 21, 8, 127}" "length (committed ?b) + length (line ?b) < INPUT_BUF" by force
  then show ?thesis
  proof cases
    case 2
    obtain d where "forK [0..<kill_len ?b] (\<lambda>_. erase) s = Done () (s\<lparr>cons := d\<rparr>)" "cons_locked (s\<lparr>cons := d\<rparr>)"
      "committed (input d) = committed ?b" "line (input d) = []" "locking d = locking (cons s)" "devsws d = devsws (cons s)"
      using erases_run [OF assms(1), of "[0..<kill_len ?b]"] kill_len_line [OF ok(1)] by auto
    then show ?thesis using 2
      by (intro exI [of _ "s\<lparr>cons := d\<rparr>"]) (simp add: console_char_def typedI line_step_def cons_locked_def)
  next
    case 4
    obtain d where "erase s = Done () (s\<lparr>cons := d\<rparr>)" "cons_locked (s\<lparr>cons := d\<rparr>)" "input d = unput ?b"
      "locking d = locking (cons s)" "devsws d = devsws (cons s)" using erase_run [OF assms(1) 4(2)] by blast
    moreover have "ie ?b \<noteq> iw ?b" using line_empty_iff [OF ok(1)] 4(2) by simp
    moreover have "c \<noteq> 16" "c \<noteq> 21" using 4(1) by auto
    ultimately show ?thesis using 4(1) unput_ok [OF ok(1) 4(2)]
      by (intro exI [of _ "s\<lparr>cons := d\<rparr>"]) (simp add: console_char_def typedI line_step_def cons_locked_def whenK_def)
  next
    case 6
    then have "\<not> ie ?b - ir ?b < of_nat INPUT_BUF"
      using in_lengths(3) [OF ok(1)] by (simp add: word_less_nat_alt unat_of_nat_small INPUT_BUF_def)
    then show ?thesis using 6 typed_refl [OF assms(1)] by (simp add: console_char_def line_step_def whenK_def)
  next
    case 7
    show ?thesis
    proof (cases "c = 13")
      case True
      have "10 \<notin> {0, 16, 21, 8, 127, 13 :: int}" by simp
      from console_char_put [OF assms(1) _ _ this 7(2)] show ?thesis using True by (simp add: carriage_return)
    next
      case False
      then show ?thesis using console_char_put [OF assms(1-3) _ 7(2)] 7(1) by auto
    qed
  next
    case 3
    then have "ie ?b = iw ?b" "c \<noteq> 16" "c \<noteq> 21" using line_empty_iff [OF ok(1)] by auto
    then show ?thesis using 3 typed_refl [OF assms(1)] by (simp add: console_char_def line_step_def whenK_def)
  qed (use typed_refl [OF assms(1)] in \<open>simp_all add: console_char_def line_step_def whenK_def\<close>)
qed

lemma line_step_grows: "\<exists>x. fst (line_step c l) = fst l @ x"
  by (auto simp: line_step_def Let_def split: prod.splits)

lemma line_steps_grow: "\<exists>x. fst (fold line_step cs l) = fst l @ x"
proof (induction cs arbitrary: l)
  case (Cons c cs)
  then show ?case using line_step_grows [of c l] by (metis append_assoc fold_simps(2))
qed simp

lemma console_chars_run:
  assumes "cons_locked s" "\<forall>c\<in>set cs. 0 \<le> c \<and> c < 256"
  shows "\<exists>t. forK cs console_char s = Done () t \<and> typed s t \<and> input_line t = fold line_step cs (input_line s) \<and>
    ptable t = (if committed (input (cons t)) = committed (input (cons s)) then ptable s else map (wake (Some InputChan)) (ptable s))"
  using assms
proof (induction cs arbitrary: s)
  case Nil
  then show ?case using typed_refl by (intro exI [of _ s]) simp
next
  case (Cons c cs)
  obtain t where t: "console_char c s = Done () t" "typed s t" "input_line t = line_step c (input_line s)"
    "ptable t = (if committed (input (cons t)) = committed (input (cons s)) then ptable s else map (wake (Some InputChan)) (ptable s))"
    using console_char_run [OF Cons.prems(1)] Cons.prems(2) by (metis list.set_intros(1))
  have "cons_locked t" using Cons.prems(1) typedD [OF t(2)] by (simp add: cons_locked_def)
  then obtain u where u: "forK cs console_char t = Done () u" "typed t u" "input_line u = fold line_step cs (input_line t)"
    "ptable u = (if committed (input (cons u)) = committed (input (cons t)) then ptable t else map (wake (Some InputChan)) (ptable t))"
    using Cons.IH [of t] Cons.prems(2) by auto
  obtain x y where xy: "committed (input (cons t)) = committed (input (cons s)) @ x" "committed (input (cons u)) = committed (input (cons t)) @ y"
    using line_step_grows [of c "input_line s"] line_steps_grow [of cs "input_line t"] t(3) u(3) by (metis fst_conv)
  have "ptable u = (if committed (input (cons u)) = committed (input (cons s)) then ptable s else map (wake (Some InputChan)) (ptable s))"
    using t(4) u(4) xy by (auto simp: comp_def)
  then show ?case using t(1,3) u(1,3) typed_trans [OF t(2) u(2)] by (intro exI [of _ u]) simp
qed

text \<open>C11. The interrupt handler of the console refines the line discipline: whatever characters the device delivers (^P, which
  lists the processes, apart), the handler returns, the committed bytes and the line being edited are those of the
  discipline, the invariant of the buffer holds again, readers are woken exactly if bytes were committed, and nothing but
  the console and the process table changes.\<close>

theorem consoleintr_refines:
  assumes "calm s" "cons_ok (cons s)" "in_ok (input (cons s))" "\<forall>c\<in>set cs. 0 \<le> c \<and> c < 256 \<and> c \<noteq> 16"
  shows "\<exists>t. consoleintr pcs cs s = Done () t \<and> calm t \<and> cons_ok (cons t) \<and> in_ok (input (cons t)) \<and>
    input_line t = fold line_step cs (input_line s) \<and>
    t = s\<lparr>hw := settle (hw s), cons := cons t, ptable := (if committed (input (cons t)) = committed (input (cons s))
      then ptable s else map (wake (Some InputChan)) (ptable s))\<rparr>"
proof -
  let ?s = "s\<lparr>hw := enter ConsLock (hw s)\<rparr>"
  note c = calmD [OF assms(1)]
  have "cons_locked ?s" using assms c by (simp add: cons_locked_def)
  then obtain t where t: "forK cs console_char ?s = Done () t" "typed ?s t" "input_line t = fold line_step cs (input_line s)"
    "ptable t = (if committed (input (cons t)) = committed (input (cons s)) then ptable s else map (wake (Some InputChan)) (ptable s))"
    using console_chars_run [of ?s cs] assms(4) by auto
  have hw: "hw t = enter ConsLock (hw s)" using typedD(3) [OF t(2)] by simp
  let ?t = "t\<lparr>hw := settle (hw s)\<rparr>"
  have "consoleintr pcs cs s = Done () ?t"
    using t(1) hw c assms(4) by (auto simp: consoleintr_def run_simps whenK_def)
  moreover have "?t = s\<lparr>hw := settle (hw s), cons := cons t, ptable := ptable t\<rparr>" using t(2) by (auto simp: typed_def)
  moreover have "length (ptable t) = length (ptable s)" using t(4) by simp
  ultimately show ?thesis using t assms(1) typedD [OF t(2)] by (intro exI [of _ ?t]) simp
qed

text \<open>The keys \<^verbatim>\<open>l s x\<close>, backspace, return.\<close>

theorem consoleintr_refines_witness:
  "\<exists>t. consoleintr (\<lambda>_. []) [108, 115, 120, 8, 13] (kcons0 fs0 cons0) = Done () t \<and> input_line t = ([108, 115, 10], [])"
proof -
  have b: "in_bytes (input cons0) = []" by (simp add: in_bytes_def ring_contents_def cons0_def)
  then have l: "committed (input cons0) = []" "line (input cons0) = []" by (simp_all add: committed_def line_def)
  then have ok: "in_ok (input cons0)" "cons_ok cons0" by (simp_all add: in_ok_def ring_ok_def cons_ok_def cons0_def INPUT_BUF_def)
  have k: "calm (kcons0 fs0 cons0)" "cons (kcons0 fs0 cons0) = cons0" by (simp_all add: kcons0_def hcalm_hart0)
  have f: "fold line_step [108, 115, 120, 8, 13] ([], []) = ([108, 115, 10], [])" by (simp add: line_step_def Let_def INPUT_BUF_def)
  show ?thesis
    using consoleintr_refines [of "kcons0 fs0 cons0" "[108, 115, 120, 8, 13]" "\<lambda>_. []", OF k(1)] ok unfolding k(2) l f by force
qed

end
