(* ===== verification/Xv6_Fs.thy ===== *)
theory Xv6_Fs
  imports Xv6_Console
begin

text \<open>
  The upper half of \<^verbatim>\<open>fs.c\<close>: reading and writing the content of inodes, directories and path names. A destination
  in memory is a function that stores bytes at an offset (\<open>nodst\<close> where the destination is a local variable of the
  kernel, whose bytes are part of the result); a source is a function that loads bytes from an offset. Path names and
  directory names are lists of non-zero bytes; the array \<^verbatim>\<open>name\<close> of \<^verbatim>\<open>DIRSIZ\<close> bytes is the list of its bytes before a
  terminating zero.
\<close>

section \<open>Inode content\<close>

type_synonym 's dest = "nat \<Rightarrow> u8 list \<Rightarrow> ('s, unit) kmon"
type_synonym 's source = "nat \<Rightarrow> nat \<Rightarrow> ('s, u8 list) kmon"

definition nodst :: "'s dest" where
  "nodst i bs = returnK ()"

definition from_bytes :: "u8 list \<Rightarrow> 's source" where
  "from_bytes bs i n = returnK (take n (drop i bs))"

function readi_loop :: "nat \<Rightarrow> 'z kcons_scheme dest \<Rightarrow> nat \<Rightarrow> nat \<Rightarrow> nat \<Rightarrow> ('z kcons_scheme, u8 list) kmon" where
  "readi_loop ip dst n off tot =
     (if tot < n then
        (let m = min (n - tot) (BSIZE - off mod BSIZE)
         in bindK (bmap ip (off div BSIZE)) (\<lambda>addr.
            bindK (get_inode ip) (\<lambda>x.
            bindK (bread (i_dev x) addr) (\<lambda>bp.
            bindK (buf_data bp) (\<lambda>d.
            thenK (dst tot (take m (drop (off mod BSIZE) d))) (
            thenK (brelse bp) (
            bindK (readi_loop ip dst n (off + m) (tot + m)) (\<lambda>rest.
            returnK (take m (drop (off mod BSIZE) d) @ rest)))))))))
      else returnK [])"
  by pat_completeness auto
termination
  by (relation "measure (\<lambda>(ip, dst, n, off, tot). n - tot)") (auto simp: BSIZE_def)

definition readi :: "nat \<Rightarrow> 'z kcons_scheme dest \<Rightarrow> u32 \<Rightarrow> u32 \<Rightarrow> ('z kcons_scheme, int \<times> u8 list) kmon" where
  "readi ip dst off n =
     bindK (get_inode ip) (\<lambda>x.
     if i_type x = T_DEV then
       bindK (getC devsws) (\<lambda>dv.
       if sint (i_major x) < 0 \<or> int NDEV \<le> sint (i_major x) then returnK (-1, []) else
       case dread (dv ! nat (sint (i_major x))) of
         None \<Rightarrow> returnK (-1, [])
       | Some Consoleread \<Rightarrow> consoleread ip dst (sint n))
     else if i_size x < off \<or> off + n < off then returnK (-1, [])
     else
       (let n = (if i_size x < off + n then i_size x - off else n)
        in bindK (readi_loop ip dst (unat n) (unat off) 0) (\<lambda>bs. returnK (sint n, bs))))"

definition splice :: "nat \<Rightarrow> u8 list \<Rightarrow> u8 list \<Rightarrow> u8 list" where
  "splice k bs d = take k d @ bs @ drop (k + length bs) d"

function writei_loop :: "nat \<Rightarrow> 'z kcons_scheme source \<Rightarrow> nat \<Rightarrow> nat \<Rightarrow> nat \<Rightarrow> ('z kcons_scheme, unit) kmon" where
  "writei_loop ip src n off tot =
     (if tot < n then
        (let m = min (n - tot) (BSIZE - off mod BSIZE)
         in bindK (bmap ip (off div BSIZE)) (\<lambda>addr.
            bindK (get_inode ip) (\<lambda>x.
            bindK (bread (i_dev x) addr) (\<lambda>bp.
            bindK (src tot m) (\<lambda>bs.
            thenK (set_data bp (splice (off mod BSIZE) bs)) (
            thenK (log_write bp) (
            thenK (brelse bp)
                  (writei_loop ip src n (off + m) (tot + m)))))))))
      else returnK ())"
  by pat_completeness auto
termination
  by (relation "measure (\<lambda>(ip, src, n, off, tot). n - tot)") (auto simp: BSIZE_def)

definition writei :: "nat \<Rightarrow> 'z kcons_scheme source \<Rightarrow> u32 \<Rightarrow> u32 \<Rightarrow> ('z kcons_scheme, int) kmon" where
  "writei ip src off n =
     bindK (get_inode ip) (\<lambda>x.
     if i_type x = T_DEV then
       bindK (getC devsws) (\<lambda>dv.
       if sint (i_major x) < 0 \<or> int NDEV \<le> sint (i_major x) then returnK (-1) else
       case dwrite (dv ! nat (sint (i_major x))) of
         None \<Rightarrow> returnK (-1)
       | Some Consolewrite \<Rightarrow> bindK (src 0 (unat n)) (\<lambda>bs. consolewrite ip bs))
     else if i_size x < off \<or> off + n < off then returnK (-1)
     else if of_nat (MAXFILE * BSIZE) < off + n then returnK (-1)
     else
       thenK (writei_loop ip src (unat n) (unat off) 0) (
       bindK (get_inode ip) (\<lambda>x.
       thenK (whenK (0 < n \<and> i_size x < off + n) (
                thenK (mod_inode ip (i_size_update (\<lambda>_. off + n)))
                      (iupdate ip)))
             (returnK (sint n)))))"

section \<open>Directories\<close>

text \<open>\<^verbatim>\<open>strncmp\<close> and \<^verbatim>\<open>strncpy\<close> on strings that are lists of bytes, a missing byte being the terminator.\<close>

definition at0 :: "u8 list \<Rightarrow> u8" where
  "at0 s = (case s of [] \<Rightarrow> 0 | c # _ \<Rightarrow> c)"

primrec strncmp_bytes :: "nat \<Rightarrow> u8 list \<Rightarrow> u8 list \<Rightarrow> int" where
  "strncmp_bytes 0 p q = 0"
| "strncmp_bytes (Suc n) p q =
     (if at0 p \<noteq> 0 \<and> at0 p = at0 q then strncmp_bytes n (tl p) (tl q) else uint (at0 p) - uint (at0 q))"

definition namecmp :: "u8 list \<Rightarrow> u8 list \<Rightarrow> int" where
  "namecmp s t = strncmp_bytes DIRSIZ s t"

definition strncpy_bytes :: "nat \<Rightarrow> u8 list \<Rightarrow> u8 list" where
  "strncpy_bytes n s = (let t = take n (takeWhile (\<lambda>c. c \<noteq> 0) s) in t @ replicate (n - length t) 0)"

text \<open>A directory entry: 16 bytes, the inode number and the name.\<close>

definition de_inum :: "u8 list \<Rightarrow> u16" where
  "de_inum de = le16 de 0"

definition de_name :: "u8 list \<Rightarrow> u8 list" where
  "de_name de = take DIRSIZ (drop 2 de)"

definition mk_dirent :: "u16 \<Rightarrow> u8 list \<Rightarrow> u8 list" where
  "mk_dirent inum name = put16 0 inum (replicate 2 0) @ strncpy_bytes DIRSIZ name"

definition dir_offsets :: "u32 \<Rightarrow> nat list" where
  "dir_offsets n = map (\<lambda>i. 16 * i) [0..<(unat n + 15) div 16]"

definition dirlookup_at :: "nat \<Rightarrow> u8 list \<Rightarrow> nat \<Rightarrow> ('z kcons_scheme, (nat \<times> u32) option) kmon" where
  "dirlookup_at dp name off =
     bindK (readi dp nodst (of_nat off) 16) (\<lambda>(r, de).
     if r \<noteq> 16 then panicK ''dirlookup read'' else
     if de_inum de = 0 then returnK None else
     if namecmp name (de_name de) = 0 then
       bindK (get_inode dp) (\<lambda>x.
       bindK (iget (i_dev x) (ucast (de_inum de))) (\<lambda>ip. returnK (Some (ip, of_nat off))))
     else returnK None)"

definition dirlookup :: "nat \<Rightarrow> u8 list \<Rightarrow> ('z kcons_scheme, (nat \<times> u32) option) kmon" where
  "dirlookup dp name =
     bindK (get_inode dp) (\<lambda>x.
     if i_type x \<noteq> T_DIR then panicK ''dirlookup not DIR'' else
     searchK (dir_offsets (i_size x)) (dirlookup_at dp name))"

definition dirlink_free :: "nat \<Rightarrow> nat \<Rightarrow> ('z kcons_scheme, nat option) kmon" where
  "dirlink_free dp off =
     bindK (readi dp nodst (of_nat off) 16) (\<lambda>(r, de).
     if r \<noteq> 16 then panicK ''dirlink read'' else
     returnK (if de_inum de = 0 then Some off else None))"

definition dirlink :: "nat \<Rightarrow> u8 list \<Rightarrow> u32 \<Rightarrow> ('z kcons_scheme, int) kmon" where
  "dirlink dp name inum =
     bindK (dirlookup dp name) (\<lambda>r.
     case r of
       Some (ip, _) \<Rightarrow> thenK (iput ip) (returnK (-1))
     | None \<Rightarrow>
         bindK (get_inode dp) (\<lambda>x.
         bindK (searchK (dir_offsets (i_size x)) (dirlink_free dp)) (\<lambda>r.
         let off = (case r of Some off \<Rightarrow> off | None \<Rightarrow> 16 * ((unat (i_size x) + 15) div 16))
         in bindK (writei dp (from_bytes (mk_dirent (ucast inum) name)) (of_nat off) 16) (\<lambda>w.
            if w \<noteq> 16 then panicK ''dirlink'' else returnK 0))))"

section \<open>Paths\<close>

definition slash :: u8 where "slash = 47"

definition skipelem :: "u8 list \<Rightarrow> (u8 list \<times> u8 list) option" where
  "skipelem path =
     (let s = dropWhile (\<lambda>c. c = slash) path
      in if s = [] then None
         else Some (dropWhile (\<lambda>c. c = slash) (dropWhile (\<lambda>c. c \<noteq> slash) s), take DIRSIZ (takeWhile (\<lambda>c. c \<noteq> slash) s)))"

lemma skipelem_shorter: "skipelem path = Some (rest, name) \<Longrightarrow> length rest < length path"
proof -
  assume a: "skipelem path = Some (rest, name)"
  let ?s = "dropWhile (\<lambda>c. c = slash) path"
  have s: "?s \<noteq> []" "rest = dropWhile (\<lambda>c. c = slash) (dropWhile (\<lambda>c. c \<noteq> slash) ?s)"
    using a by (auto simp: skipelem_def Let_def split: if_splits)
  have "hd ?s \<noteq> slash" using s(1) hd_dropWhile [of "\<lambda>c. c = slash" path] by auto
  then have "dropWhile (\<lambda>c. c \<noteq> slash) ?s = dropWhile (\<lambda>c. c \<noteq> slash) (tl ?s)" using s(1) by (cases ?s) auto
  then have "length rest \<le> length (tl ?s)" unfolding s(2) by (metis length_dropWhile_le le_trans)
  also have "\<dots> < length ?s" using s(1) by simp
  also have "\<dots> \<le> length path" by (rule length_dropWhile_le)
  finally show ?thesis .
qed

function namex_loop :: "nat \<Rightarrow> u8 list \<Rightarrow> bool \<Rightarrow> u8 list \<Rightarrow> ('z kcons_scheme, (nat \<times> u8 list) option) kmon" where
  "namex_loop ip path par name =
     (case skipelem path of
        None \<Rightarrow> if par then thenK (iput ip) (returnK None) else returnK (Some (ip, name))
      | Some (path', name') \<Rightarrow>
          thenK (ilock ip) (
          bindK (get_inode ip) (\<lambda>x.
          if i_type x \<noteq> T_DIR then thenK (iunlockput ip) (returnK None)
          else if par \<and> path' = [] then thenK (iunlock ip) (returnK (Some (ip, name')))
          else
            bindK (dirlookup ip name') (\<lambda>r.
            case r of
              None \<Rightarrow> thenK (iunlockput ip) (returnK None)
            | Some (nxt, _) \<Rightarrow> thenK (iunlockput ip) (namex_loop nxt path' par name')))))"
  by pat_completeness auto
termination
  by (relation "measure (\<lambda>(ip, path, par, name). length path)") (auto dest: skipelem_shorter)

definition namex :: "u8 list \<Rightarrow> bool \<Rightarrow> ('z kcons_scheme, (nat \<times> u8 list) option) kmon" where
  "namex path par =
     bindK (if path \<noteq> [] \<and> hd path = slash then iget ROOTDEV ROOTINO
            else bindK curproc (\<lambda>p. bindK (getK (\<lambda>s. cwd (ptable s ! p))) (\<lambda>d.
                 case d of Some ip \<Rightarrow> idup ip | None \<Rightarrow> panicK ''trap''))) (\<lambda>ip.
     namex_loop ip path par [])"

definition namei :: "u8 list \<Rightarrow> ('z kcons_scheme, nat option) kmon" where
  "namei path = bindK (namex path False) (\<lambda>r. returnK (map_option fst r))"

definition nameiparent :: "u8 list \<Rightarrow> ('z kcons_scheme, (nat \<times> u8 list) option) kmon" where
  "nameiparent path = namex path True"

end
