(* ===== verification/Xv6_Pipe.thy ===== *)
theory Xv6_Pipe
  imports Xv6_Fs Xv6_Ring
begin

text \<open>
  Pipes (\<^verbatim>\<open>pipe.c\<close>). A pipe lies in a page of the page allocator; its fields are kept in a table indexed by the address
  of that page. \<^verbatim>\<open>pipealloc\<close>, which also opens the two ends, is in \<open>Xv6_File\<close>. A process that sleeps in
  \<^verbatim>\<open>pipewrite\<close> comes back to the start of \<open>pipewrite_loop\<close> for the same byte, one that sleeps in \<^verbatim>\<open>piperead\<close> to the start of
  \<open>piperead_wait\<close>.
\<close>

section \<open>State\<close>

definition PIPESIZE :: nat where "PIPESIZE = 512"

record pipe =
  pdata :: "u8 list"
  nread :: u32
  nwrite :: u32
  readopen :: bool
  writeopen :: bool

record kpipe = kcons +
  pipes :: "u32 \<Rightarrow> pipe"

definition mod_pipe :: "u32 \<Rightarrow> (pipe \<Rightarrow> pipe) \<Rightarrow> ('z kpipe_scheme, unit) kmon" where
  "mod_pipe p f = modK (\<lambda>s. s\<lparr>pipes := (pipes s)(p := f (pipes s p))\<rparr>)"

definition get_pipe :: "u32 \<Rightarrow> ('z kpipe_scheme, pipe) kmon" where
  "get_pipe p = getK (\<lambda>s. pipes s p)"

definition mykilled :: "('z kproc_scheme, bool) kmon" where
  "mykilled = bindK curproc (\<lambda>p. getK (\<lambda>s. killed (ptable s ! p)))"

section \<open>Operations\<close>

definition pipeclose :: "u32 \<Rightarrow> bool \<Rightarrow> ('z kpipe_scheme, unit) kmon" where
  "pipeclose p writable =
     thenK (acquire (PipeLock p)) (
     thenK (if writable then thenK (mod_pipe p (writeopen_update (\<lambda>_. False))) (wakeup (Some (PipeReadChan p)))
            else thenK (mod_pipe p (readopen_update (\<lambda>_. False))) (wakeup (Some (PipeWriteChan p)))) (
     bindK (get_pipe p) (\<lambda>q.
     if \<not> readopen q \<and> \<not> writeopen q then thenK (release (PipeLock p)) (kfree p)
     else release (PipeLock p))))"

definition pipe_push :: "u8 \<Rightarrow> pipe \<Rightarrow> pipe" where
  "pipe_push c q = q\<lparr>pdata := (pdata q)[unat (nwrite q) mod PIPESIZE := c], nwrite := nwrite q + 1\<rparr>"

primrec pipewrite_loop :: "nat \<Rightarrow> u32 \<Rightarrow> 'z kpipe_scheme source \<Rightarrow> nat \<Rightarrow> ('z kpipe_scheme, int) kmon" where
  "pipewrite_loop 0 p src i =
     thenK (wakeup (Some (PipeReadChan p))) (
     thenK (release (PipeLock p)) (returnK (int i)))"
| "pipewrite_loop (Suc k) p src i =
     bindK (get_pipe p) (\<lambda>q.
     if nwrite q = nread q + of_nat PIPESIZE then
       bindK (if \<not> readopen q then returnK True else mykilled) (\<lambda>quit.
       if quit then thenK (release (PipeLock p)) (returnK (-1))
       else thenK (wakeup (Some (PipeReadChan p))) (sleep (Some (PipeWriteChan p)) (Some (PipeLock p))))
     else
       bindK (src i 1) (\<lambda>bs.
       thenK (mod_pipe p (pipe_push (hd bs)))
             (pipewrite_loop k p src (i + 1))))"

definition pipewrite :: "u32 \<Rightarrow> 'z kpipe_scheme source \<Rightarrow> int \<Rightarrow> ('z kpipe_scheme, int) kmon" where
  "pipewrite p src n = thenK (acquire (PipeLock p)) (bindK (pipewrite_loop (nat n) p src 0) (\<lambda>r. returnK (if r < 0 then r else n)))"

definition pipe_pop :: "pipe \<Rightarrow> pipe" where
  "pipe_pop q = q\<lparr>nread := nread q + 1\<rparr>"

definition pipe_front :: "pipe \<Rightarrow> u8" where
  "pipe_front q = pdata q ! (unat (nread q) mod PIPESIZE)"

primrec piperead_copy :: "nat \<Rightarrow> u32 \<Rightarrow> 'z kpipe_scheme dest \<Rightarrow> u8 list \<Rightarrow> ('z kpipe_scheme, u8 list) kmon" where
  "piperead_copy 0 p dst got = returnK got"
| "piperead_copy (Suc k) p dst got =
     bindK (get_pipe p) (\<lambda>q.
     if nread q = nwrite q then returnK got
     else
       thenK (mod_pipe p pipe_pop) (
       thenK (dst (length got) [pipe_front q])
             (piperead_copy k p dst (got @ [pipe_front q]))))"

definition piperead_wait :: "u32 \<Rightarrow> 'z kpipe_scheme dest \<Rightarrow> int \<Rightarrow> ('z kpipe_scheme, int \<times> u8 list) kmon" where
  "piperead_wait p dst n =
     bindK (get_pipe p) (\<lambda>q.
     if nread q = nwrite q \<and> writeopen q then
       bindK mykilled (\<lambda>k.
       if k then thenK (release (PipeLock p)) (returnK (-1, []))
       else sleep (Some (PipeReadChan p)) (Some (PipeLock p)))
     else
       bindK (piperead_copy (nat n) p dst []) (\<lambda>bs.
       thenK (wakeup (Some (PipeWriteChan p))) (
       thenK (release (PipeLock p)) (returnK (int (length bs), bs)))))"

definition piperead :: "u32 \<Rightarrow> 'z kpipe_scheme dest \<Rightarrow> int \<Rightarrow> ('z kpipe_scheme, int \<times> u8 list) kmon" where
  "piperead p dst n = thenK (acquire (PipeLock p)) (piperead_wait p dst n)"

lemma mod_pipe_run [simp]: "mod_pipe p f s = Done () (s\<lparr>pipes := (pipes s)(p := f (pipes s p))\<rparr>)"
  by (simp add: mod_pipe_def)

lemma get_pipe_run [simp]: "get_pipe p s = Done (pipes s p) s"
  by (simp add: get_pipe_def)

section \<open>The buffer as a bounded queue\<close>

definition pipe_ok :: "pipe \<Rightarrow> bool" where
  "pipe_ok q \<longleftrightarrow> ring_ok PIPESIZE (pdata q) (nread q) (nwrite q)"

definition pipe_bytes :: "pipe \<Rightarrow> u8 list" where
  "pipe_bytes q = ring_contents PIPESIZE (pdata q) (nread q) (nwrite q)"

lemma pipe_empty_iff: "nread q = nwrite q \<longleftrightarrow> pipe_bytes q = []"
  by (simp add: pipe_bytes_def ring_empty_iff)

lemma pipe_full_iff:
  assumes "pipe_ok q"
  shows "nwrite q = nread q + of_nat PIPESIZE \<longleftrightarrow> length (pipe_bytes q) = PIPESIZE"
proof -
  have "nwrite q = nread q + of_nat PIPESIZE \<longleftrightarrow> nwrite q - nread q = of_nat PIPESIZE" by (auto simp: algebra_simps)
  also have "\<dots> \<longleftrightarrow> unat (nwrite q - nread q) = PIPESIZE"
    by (simp add: word_unat_eq_iff unat_of_nat_small PIPESIZE_def)
  finally show ?thesis by (simp add: pipe_bytes_def)
qed

interpretation pq: bounded_queue pipe_ok pipe_bytes PIPESIZE pipe_push pipe_pop pipe_front
proof
  have n: "PIPESIZE dvd 4294967296" "PIPESIZE < 4294967295" by (simp_all add: PIPESIZE_def)
  show "pipe_ok (pipe_push c q) \<and> pipe_bytes (pipe_push c q) = pipe_bytes q @ [c]"
    if "pipe_ok q" "length (pipe_bytes q) < PIPESIZE" for q c
    using that ring_push [OF n, of "pdata q" "nread q" "nwrite q" c] by (simp add: pipe_ok_def pipe_bytes_def pipe_push_def)
  show "pipe_ok (pipe_pop q) \<and> pipe_bytes (pipe_pop q) = tl (pipe_bytes q) \<and> pipe_front q = hd (pipe_bytes q)"
    if "pipe_ok q" "pipe_bytes q \<noteq> []" for q
    using that ring_pop [OF n(1), of "pdata q" "nread q" "nwrite q"]
    by (simp add: pipe_ok_def pipe_bytes_def pipe_pop_def pipe_front_def ring_empty_iff)
  show "length (pipe_bytes q) \<le> PIPESIZE" if "pipe_ok q" for q
    using that by (simp add: pipe_ok_def pipe_bytes_def ring_ok_def)
qed

section \<open>Writing\<close>

text \<open>A source that delivers the bytes \<open>bs\<close> and changes nothing; a destination that leaves the kernel's own state alone.\<close>

definition delivers :: "'s source \<Rightarrow> u8 list \<Rightarrow> bool" where
  "delivers src bs \<longleftrightarrow> (\<forall>i s. i < length bs \<longrightarrow> src i 1 s = Done [bs ! i] s)"

lemma delivers_from_bytes: "delivers (from_bytes bs) bs"
  by (auto simp: delivers_def from_bytes_def take_Suc_conv_app_nth hd_drop_conv_nth take_Suc)

definition with_pipe :: "u32 \<Rightarrow> pipe \<Rightarrow> 'z kpipe_scheme \<Rightarrow> 'z kpipe_scheme" where
  "with_pipe p q s = s\<lparr>pipes := (pipes s)(p := q)\<rparr>"

lemma with_pipe_simps [simp]:
  "pipes (with_pipe p q s) = (pipes s)(p := q)" "hw (with_pipe p q s) = hw s" "ptable (with_pipe p q s) = ptable s"
  "with_pipe p q' (with_pipe p q s) = with_pipe p q' s" "with_pipe p (pipes s p) s = s"
  by (simp_all add: with_pipe_def)

text \<open>As long as there is room the loop inserts byte after byte.\<close>

lemma pipewrite_pushes:
  assumes "delivers src bs" "pipe_ok (pipes s p)" "length (pipe_bytes (pipes s p)) + k \<le> PIPESIZE" "i + k \<le> length bs"
  shows "pipewrite_loop (k + j) p src i s = pipewrite_loop j p src (i + k) (with_pipe p (fold pipe_push (take k (drop i bs)) (pipes s p)) s)"
  using assms(2-)
proof (induction k arbitrary: i s)
  case (Suc k)
  let ?q = "pipes s p"
  let ?t = "with_pipe p (pipe_push (bs ! i) ?q) s"
  have "nwrite ?q \<noteq> nread ?q + of_nat PIPESIZE" using Suc.prems pipe_full_iff [of ?q] by simp
  moreover have "src i 1 s = Done [bs ! i] s" using assms(1) Suc.prems(3) by (simp add: delivers_def)
  ultimately have "pipewrite_loop (Suc k + j) p src i s = pipewrite_loop (k + j) p src (i + 1) ?t"
    by (simp add: with_pipe_def)
  also have "\<dots> = pipewrite_loop j p src (i + 1 + k) (with_pipe p (fold pipe_push (take k (drop (i + 1) bs)) (pipes ?t p)) ?t)"
    by (rule Suc.IH) (use Suc.prems pq.push_law [of ?q "bs ! i"] in simp_all)
  moreover have "take (Suc k) (drop i bs) = bs ! i # take k (drop (i + 1) bs)"
    using Suc.prems(3) by (simp add: take_Suc_conv_app_nth Cons_nth_drop_Suc [symmetric])
  ultimately show ?case by simp
qed simp

lemma mykilled_run [run_simps]:
  "cpu_ok (hw s) \<Longrightarrow> cur_proc (hw s) = Some p \<Longrightarrow> mykilled s = Done (killed (ptable s ! p)) (s\<lparr>hw := settle (hw s)\<rparr>)"
  by (simp add: mykilled_def run_simps)

text \<open>The end of \<^verbatim>\<open>pipewrite\<close> with the pipe's lock held: all bytes written, or the pipe full.\<close>

lemma pipewrite_end:
  assumes "calm s" "hw t = enter (PipeLock p) (hw s)" "ptable t = ptable s"
  shows "pipewrite_loop 0 p src i t = Done (int i) (t\<lparr>hw := settle (hw s), ptable := map (wake (Some (PipeReadChan p))) (ptable s)\<rparr>)"
  using assms calmD [OF assms(1)] by (simp add: run_simps hart_settled)

lemma pipewrite_full:
  assumes "calm s" "hw t = enter (PipeLock p) (hw s)" "ptable t = ptable s" "nwrite (pipes t p) = nread (pipes t p) + of_nat PIPESIZE"
  shows "pipewrite_loop (Suc k) p src i t =
    (if \<not> readopen (pipes t p) \<or> killed (ptable s ! me s) then Done (-1) (t\<lparr>hw := settle (hw s)\<rparr>)
     else Sleeps (t\<lparr>hw := leave (PipeLock p) (enter PtableLock (enter (PipeLock p) (hw s))),
       ptable := upd_slot (me s) (asleep (Some (PipeWriteChan p))) (map (wake (Some (PipeReadChan p))) (ptable s))\<rparr>))"
  using assms calmD [OF assms(1)] by (simp add: run_simps)

lemma fold_push_simps [simp]:
  "readopen (fold pipe_push cs q) = readopen q" "writeopen (fold pipe_push cs q) = writeopen q"
  by (induction cs arbitrary: q) (simp_all add: pipe_push_def)

text \<open>C10. \<^verbatim>\<open>pipewrite\<close> refines appending to a bounded queue. If the bytes fit, they are appended in order, readers are woken
  and the call returns their number. Otherwise as many as fit are appended, and the call returns -1 if no reader is left
  or the process has been killed; else readers are woken and the process sleeps until there is room, having released
  the pipe's lock. Other pipes are never touched.\<close>

theorem pipewrite_refines:
  assumes "calm s" "pipe_ok (pipes s p)" "delivers src bs" "n = PIPESIZE - length (pipe_bytes (pipes s p))"
  shows "\<exists>t q'. pipe_ok q' \<and> pipe_bytes q' = pipe_bytes (pipes s p) @ take n bs \<and> pipes t = (pipes s)(p := q') \<and>
    (if length bs \<le> n then
       pipewrite p src (int (length bs)) s = Done (int (length bs)) t \<and> calm t \<and>
       ptable t = map (wake (Some (PipeReadChan p))) (ptable s)
     else if \<not> readopen (pipes s p) \<or> killed (ptable s ! me s) then
       pipewrite p src (int (length bs)) s = Done (-1) t \<and> calm t \<and> ptable t = ptable s
     else
       pipewrite p src (int (length bs)) s = Sleeps t \<and> lock_free (PipeLock p) (hw t) \<and>
       ptable t = upd_slot (me s) (asleep (Some (PipeWriteChan p))) (map (wake (Some (PipeReadChan p))) (ptable s)))"
proof -
  define q where "q = pipes s p"
  let ?k = "min n (length bs)"
  let ?q = "fold pipe_push (take ?k bs) q"
  let ?s = "s\<lparr>hw := enter (PipeLock p) (hw s)\<rparr>"
  have room: "length (pipe_bytes q) + n = PIPESIZE" using pq.bound_law [OF assms(2)] by (simp add: q_def assms(4))
  have ok: "pipe_ok ?q" "pipe_bytes ?q = pipe_bytes q @ take n bs"
    using pq.push_all [of q "take ?k bs"] assms(2) room by (simp_all add: q_def min_def)
  have acq: "acquire (PipeLock p) s = Done () ?s" using calmD [OF assms(1)] by (simp add: run_simps)
  have run: "pipewrite_loop (length bs) p src 0 ?s = pipewrite_loop (length bs - ?k) p src ?k (with_pipe p ?q ?s)"
    using pipewrite_pushes [OF assms(3), of ?s p ?k 0 "length bs - ?k"] assms(2) room by (simp add: q_def)
  show ?thesis
  proof (cases "length bs \<le> n")
    case True
    then show ?thesis using ok run acq pipewrite_end [OF assms(1), of "with_pipe p ?q ?s" p src "length bs"]
      by (intro exI [of _ "(with_pipe p ?q ?s)\<lparr>hw := settle (hw s), ptable := map (wake (Some (PipeReadChan p))) (ptable s)\<rparr>"] exI [of _ ?q])
        (use assms(1) in \<open>simp add: pipewrite_def with_pipe_def q_def\<close>)
  next
    case False
    then obtain k where k: "length bs - ?k = Suc k" by (metis Suc_diff_Suc min.absorb1 nat_le_linear not_le)
    have "nwrite ?q = nread ?q + of_nat PIPESIZE" using False ok room by (simp add: pipe_full_iff)
    then have full: "pipewrite_loop (Suc k) p src ?k (with_pipe p ?q ?s) =
      (if \<not> readopen q \<or> killed (ptable s ! me s) then Done (-1) ((with_pipe p ?q ?s)\<lparr>hw := settle (hw s)\<rparr>)
       else Sleeps ((with_pipe p ?q ?s)\<lparr>hw := leave (PipeLock p) (enter PtableLock (enter (PipeLock p) (hw s))),
         ptable := upd_slot (me s) (asleep (Some (PipeWriteChan p))) (map (wake (Some (PipeReadChan p))) (ptable s))\<rparr>))"
      using pipewrite_full [OF assms(1), of "with_pipe p ?q ?s" p k src ?k] by simp
    show ?thesis
    proof (cases "\<not> readopen q \<or> killed (ptable s ! me s)")
      case True
      then show ?thesis using False ok run acq full k
        by (intro exI [of _ "(with_pipe p ?q ?s)\<lparr>hw := settle (hw s)\<rparr>"] exI [of _ ?q]) (use assms(1) in \<open>simp add: pipewrite_def with_pipe_def q_def\<close>)
    next
      case sl: False
      then show ?thesis using False ok run acq full k
        by (intro exI [of _ "(with_pipe p ?q ?s)\<lparr>hw := leave (PipeLock p) (enter PtableLock (enter (PipeLock p) (hw s))),
          ptable := upd_slot (me s) (asleep (Some (PipeWriteChan p))) (map (wake (Some (PipeReadChan p))) (ptable s))\<rparr>"] exI [of _ ?q])
          (simp add: pipewrite_def with_pipe_def q_def)
    qed
  qed
qed

section \<open>Reading\<close>

definition quiet :: "'z kpipe_scheme dest \<Rightarrow> bool" where
  "quiet dst \<longleftrightarrow> (\<forall>i bs s. \<exists>t. dst i bs s = Done () t \<and> pipes t = pipes s \<and> hw t = hw s \<and> ptable t = ptable s)"

lemma quiet_nodst: "quiet nodst"
  by (simp add: quiet_def nodst_def)

lemma piperead_pops:
  assumes "quiet dst" "pipe_ok (pipes s p)" "k = min n (length (pipe_bytes (pipes s p)))"
  shows "\<exists>t. piperead_copy n p dst got s = Done (got @ take n (pipe_bytes (pipes s p))) t \<and>
    pipes t = (pipes s)(p := (pipe_pop ^^ k) (pipes s p)) \<and> hw t = hw s \<and> ptable t = ptable s"
  using assms(2,3)
proof (induction n arbitrary: got s k)
  case (Suc n)
  let ?q = "pipes s p"
  show ?case
  proof (cases "pipe_bytes ?q = []")
    case True
    then show ?thesis using Suc.prems by (simp add: pipe_empty_iff)
  next
    case False
    let ?s = "with_pipe p (pipe_pop ?q) s"
    obtain u where u: "dst (length got) [pipe_front ?q] ?s = Done () u" "pipes u = pipes ?s" "hw u = hw s" "ptable u = ptable s"
      using assms(1) unfolding quiet_def by (metis with_pipe_simps(2,3))
    have pop: "pipe_ok (pipe_pop ?q)" "pipe_bytes (pipe_pop ?q) = tl (pipe_bytes ?q)" "pipe_front ?q = hd (pipe_bytes ?q)"
      using pq.pop_law [OF Suc.prems(1) False] by auto
    obtain j where j: "k = Suc j" "j = min n (length (pipe_bytes (pipes u p)))"
      using Suc.prems(2) False pop(2) by (cases "pipe_bytes ?q") (auto simp: u(2))
    have "pipe_ok (pipes u p)" using pop u(2) by simp
    from Suc.IH [OF this j(2), of "got @ [pipe_front ?q]"]
    obtain t where t: "piperead_copy n p dst (got @ [pipe_front ?q]) u = Done ((got @ [pipe_front ?q]) @ take n (pipe_bytes (pipes u p))) t"
      "pipes t = (pipes u)(p := (pipe_pop ^^ j) (pipes u p))" "hw t = hw u" "ptable t = ptable u"
      by blast
    have "piperead_copy (Suc n) p dst got s = piperead_copy n p dst (got @ [pipe_front ?q]) u"
      using False u(1) by (simp add: pipe_empty_iff with_pipe_def)
    moreover have "take (Suc n) (pipe_bytes ?q) = pipe_front ?q # take n (tl (pipe_bytes ?q))"
      using False pop(3) by (cases "pipe_bytes ?q") auto
    moreover have "(pipe_pop ^^ k) ?q = (pipe_pop ^^ j) (pipe_pop ?q)" by (simp add: j(1) funpow_swap1)
    ultimately show ?thesis using t u pop by (intro exI [of _ t]) simp
  qed
qed auto

text \<open>C26. \<^verbatim>\<open>piperead\<close> refines removing from the queue. From an empty pipe with a writer left it returns -1 if the process has
  been killed and otherwise sleeps, having released the pipe's lock; in every other case it returns the oldest bytes of
  the pipe, at most \<open>n\<close> of them, in the order they were written (so 0 only at the end of the data), removes exactly those
  and wakes the writers.\<close>

theorem piperead_refines:
  assumes "calm s" "pipe_ok (pipes s p)" "quiet dst"
  shows "if pipe_bytes (pipes s p) = [] \<and> writeopen (pipes s p) then
      (if killed (ptable s ! me s) then piperead p dst (int n) s = Done (-1, []) (s\<lparr>hw := settle (hw s)\<rparr>)
       else \<exists>h. lock_free (PipeLock p) h \<and> piperead p dst (int n) s =
         Sleeps (s\<lparr>hw := h, ptable := upd_slot (me s) (asleep (Some (PipeReadChan p))) (ptable s)\<rparr>))
    else \<exists>t q'. piperead p dst (int n) s = Done (int (min n (length (pipe_bytes (pipes s p)))), take n (pipe_bytes (pipes s p))) t \<and>
      pipe_ok q' \<and> pipe_bytes q' = drop n (pipe_bytes (pipes s p)) \<and> pipes t = (pipes s)(p := q') \<and> calm t \<and>
      ptable t = map (wake (Some (PipeWriteChan p))) (ptable s)"
proof -
  let ?q = "pipes s p"
  let ?s = "s\<lparr>hw := enter (PipeLock p) (hw s)\<rparr>"
  note c = calmD [OF assms(1)]
  show ?thesis
  proof (cases "pipe_bytes ?q = [] \<and> writeopen ?q")
    case True
    then have w: "nread ?q = nwrite ?q" "writeopen ?q" by (simp_all add: pipe_empty_iff)
    show ?thesis
    proof (cases "killed (ptable s ! me s)")
      case k: True
      then show ?thesis using True w c by (simp add: piperead_def piperead_wait_def run_simps)
    next
      case False
      then show ?thesis using True w c
        by (auto simp: piperead_def piperead_wait_def run_simps intro!: exI [of _ "leave (PipeLock p) (enter PtableLock (enter (PipeLock p) (hw s)))"])
    qed
  next
    case False
    let ?k = "min n (length (pipe_bytes ?q))"
    obtain t where t: "piperead_copy n p dst [] ?s = Done (take n (pipe_bytes ?q)) t" "pipes t = (pipes s)(p := (pipe_pop ^^ ?k) ?q)"
      "hw t = enter (PipeLock p) (hw s)" "ptable t = ptable s"
      using piperead_pops [OF assms(3), of ?s p ?k n "[]"] assms(2) by auto
    have "\<not> (nread ?q = nwrite ?q \<and> writeopen ?q)" using False by (simp add: pipe_empty_iff)
    then have "piperead p dst (int n) s = Done (int ?k, take n (pipe_bytes ?q))
        (t\<lparr>hw := settle (hw s), ptable := map (wake (Some (PipeWriteChan p))) (ptable s)\<rparr>)"
      using t c by (auto simp: piperead_def piperead_wait_def run_simps hart_settled)
    moreover have "pipe_ok ((pipe_pop ^^ ?k) ?q)" "pipe_bytes ((pipe_pop ^^ ?k) ?q) = drop n (pipe_bytes ?q)"
      using pq.pop_all [OF assms(2), of ?k] by (auto simp: min_def)
    ultimately show ?thesis using False t(2) assms(1)
      by (auto intro!: exI [of _ "(pipe_pop ^^ ?k) ?q"] exI [of _ "t\<lparr>hw := settle (hw s), ptable := map (wake (Some (PipeWriteChan p))) (ptable s)\<rparr>"])
  qed
qed

definition kpipe0 :: "pipe \<Rightarrow> kpipe" where
  "kpipe0 q = \<lparr>hw = hart0, ptable = [proc0], initproc = Some 0, nextpid = 2,
     slocks = (\<lambda>_. \<lparr>sl_locked = 0, sl_name = [], sl_pid = 0\<rparr>),
     mem = (\<lambda>_. 0), kend = 0x80120000, kdata = 0x80110000, kmem = \<lparr>use_lock = True, freelist = 0x80200000\<rparr>,
     bio = bio0, lg = lg0, fs = fs0, cons = cons0, pipes = (\<lambda>_. q)\<rparr>"

text \<open>A pipe whose indices are about to wrap, with 511 bytes in it.\<close>

definition pipe0 :: pipe where
  "pipe0 = \<lparr>pdata = replicate 512 7, nread = - 500, nwrite = 11, readopen = True, writeopen = True\<rparr>"

lemma pipe0_facts: "pipe_ok pipe0" "length (pipe_bytes pipe0) = 511"
proof -
  have "(11 :: u32) - (- 500) = 511" by simp
  then show "pipe_ok pipe0" "length (pipe_bytes pipe0) = 511"
    by (simp_all add: pipe_ok_def ring_ok_def pipe_bytes_def pipe0_def PIPESIZE_def)
qed

theorem pipewrite_refines_witness:
  "\<exists>t q'. pipe_bytes q' = pipe_bytes pipe0 @ [1] \<and> pipes t = (pipes (kpipe0 pipe0))(0x80300000 := q') \<and>
     pipewrite 0x80300000 (from_bytes [1, 2]) 2 (kpipe0 pipe0) = Sleeps t"
proof -
  have k: "calm (kpipe0 pipe0)" "pipes (kpipe0 pipe0) 0x80300000 = pipe0" "ptable (kpipe0 pipe0) = [proc0]" "me (kpipe0 pipe0) = 0"
    by (simp_all add: kpipe0_def hcalm_hart0)
  have r: "readopen pipe0" "\<not> killed proc0" by (simp_all add: pipe0_def proc0_def)
  show ?thesis
    using pipewrite_refines [of "kpipe0 pipe0" "0x80300000" "from_bytes [1, 2]" "[1, 2]" 1, OF k(1)] pipe0_facts r
    by (simp add: k(2-) delivers_from_bytes PIPESIZE_def) blast
qed

theorem piperead_refines_witness:
  "\<exists>t. piperead 0x80300000 nodst 2 (kpipe0 pipe0) = Done (2, take 2 (pipe_bytes pipe0)) t"
proof -
  have "pipe_bytes pipe0 \<noteq> []" using pipe0_facts(2) by auto
  then show ?thesis
    using piperead_refines [of "kpipe0 pipe0" "0x80300000" nodst 2]
    by (auto simp: kpipe0_def pipe0_facts quiet_nodst hcalm_hart0)
qed

end
