(* ===== verification/Xv6_File.thy ===== *)
theory Xv6_File
  imports Xv6_Pipe
begin

text \<open>
  The table of open files (\<^verbatim>\<open>file.c\<close>) and \<^verbatim>\<open>pipealloc\<close> of \<^verbatim>\<open>pipe.c\<close>. A pointer to a \<^verbatim>\<open>struct file\<close> (\<open>filestruct\<close>) is its index in the table.
\<close>

section \<open>State\<close>

datatype ftype = FD_NONE | FD_PIPE | FD_INODE

record filestruct =
  f_type :: ftype
  f_ref :: int
  f_readable :: bool
  f_writable :: bool
  f_pipe :: u32
  f_ip :: nat
  f_off :: u32

record kfile = kpipe +
  ftable :: "filestruct list"

definition get_file :: "nat \<Rightarrow> ('z kfile_scheme, filestruct) kmon" where
  "get_file f = getK (\<lambda>s. ftable s ! f)"

definition mod_file :: "nat \<Rightarrow> (filestruct \<Rightarrow> filestruct) \<Rightarrow> ('z kfile_scheme, unit) kmon" where
  "mod_file f g = modK (\<lambda>s. s\<lparr>ftable := upd_slot f g (ftable s)\<rparr>)"

section \<open>Operations\<close>

definition fileinit :: "('z kfile_scheme, unit) kmon" where
  "fileinit = initlock FtableLock ''ftable''"

definition filealloc :: "('z kfile_scheme, nat option) kmon" where
  "filealloc =
     thenK (acquire FtableLock) (
     bindK (getK (\<lambda>s. find_slot (\<lambda>f. f_ref f = 0) (ftable s))) (\<lambda>r.
     case r of
       Some f \<Rightarrow> thenK (mod_file f (f_ref_update (\<lambda>_. 1))) (thenK (release FtableLock) (returnK (Some f)))
     | None \<Rightarrow> thenK (release FtableLock) (returnK None)))"

definition filedup :: "nat \<Rightarrow> ('z kfile_scheme, nat) kmon" where
  "filedup f =
     thenK (acquire FtableLock) (
     bindK (get_file f) (\<lambda>x.
     if f_ref x < 1 then panicK ''filedup'' else
     thenK (mod_file f (f_ref_update (\<lambda>n. n + 1))) (
     thenK (release FtableLock) (returnK f))))"

definition fileclose :: "nat \<Rightarrow> ('z kfile_scheme, unit) kmon" where
  "fileclose f =
     thenK (acquire FtableLock) (
     bindK (get_file f) (\<lambda>x.
     if f_ref x < 1 then panicK ''fileclose'' else
     thenK (mod_file f (f_ref_update (\<lambda>n. n - 1))) (
     if f_ref x - 1 > 0 then release FtableLock else
     bindK (get_file f) (\<lambda>ff.
     thenK (mod_file f (\<lambda>x. x\<lparr>f_ref := 0, f_type := FD_NONE\<rparr>)) (
     thenK (release FtableLock)
     (if f_type ff = FD_PIPE then pipeclose (f_pipe ff) (f_writable ff)
      else whenK (f_type ff = FD_INODE) (
        thenK begin_op (
        thenK (iput (f_ip ff))
              end_op))))))))"

definition filestat :: "nat \<Rightarrow> ('z kfile_scheme, stat option) kmon" where
  "filestat f =
     bindK (get_file f) (\<lambda>x.
     if f_type x = FD_INODE then
       thenK (ilock (f_ip x)) (
       bindK (stati (f_ip x)) (\<lambda>st.
       thenK (iunlock (f_ip x)) (returnK (Some st))))
     else returnK None)"

definition fileread :: "nat \<Rightarrow> 'z kfile_scheme dest \<Rightarrow> int \<Rightarrow> ('z kfile_scheme, int \<times> u8 list) kmon" where
  "fileread f dst n =
     bindK (get_file f) (\<lambda>x.
     if \<not> f_readable x then returnK (-1, [])
     else if f_type x = FD_PIPE then piperead (f_pipe x) dst n
     else if f_type x = FD_INODE then
       thenK (ilock (f_ip x)) (
       bindK (readi (f_ip x) dst (f_off x) (word_of_int n)) (\<lambda>(r, bs).
       thenK (whenK (r > 0) (mod_file f (f_off_update (\<lambda>o'. o' + word_of_int r)))) (
       thenK (iunlock (f_ip x)) (returnK (r, bs)))))
     else panicK ''fileread'')"

text \<open>The largest piece \<^verbatim>\<open>filewrite\<close> writes in one transaction.\<close>

definition filewrite_max :: nat where
  "filewrite_max = ((MAXOPBLOCKS - 1 - 1 - 2) div 2) * 512"

function filewrite_loop :: "nat \<Rightarrow> 'z kfile_scheme source \<Rightarrow> nat \<Rightarrow> nat \<Rightarrow> ('z kfile_scheme, int) kmon" where
  "filewrite_loop f src n i =
     (if i < n then
        (let n1 = min (n - i) filewrite_max
         in thenK begin_op (
            bindK (get_file f) (\<lambda>x.
            thenK (ilock (f_ip x)) (
            bindK (writei (f_ip x) (\<lambda>j. src (i + j)) (f_off x) (of_nat n1)) (\<lambda>r.
            thenK (whenK (r > 0) (mod_file f (f_off_update (\<lambda>o'. o' + word_of_int r)))) (
            thenK (iunlock (f_ip x)) (
            thenK end_op
            (if r < 0 then returnK (-1)
             else if r \<noteq> int n1 then panicK ''short filewrite''
             else filewrite_loop f src n (i + n1)))))))))
      else returnK (int n))"
  by pat_completeness auto
termination
  by (relation "measure (\<lambda>(f, src, n, i). n - i)") (auto simp: filewrite_max_def MAXOPBLOCKS_def)

definition filewrite :: "nat \<Rightarrow> 'z kfile_scheme source \<Rightarrow> int \<Rightarrow> ('z kfile_scheme, int) kmon" where
  "filewrite f src n =
     bindK (get_file f) (\<lambda>x.
     if \<not> f_writable x then returnK (-1)
     else if f_type x = FD_PIPE then pipewrite (f_pipe x) src n
     else if f_type x = FD_INODE then
       (if n < 0 then returnK (-1) else filewrite_loop f src (nat n) 0)
     else panicK ''filewrite'')"

section \<open>Opening a pipe\<close>

definition new_pipe :: "u32 \<Rightarrow> ('z kfile_scheme, unit) kmon" where
  "new_pipe p =
     thenK (mod_pipe p (\<lambda>q. q\<lparr>readopen := True, writeopen := True, nwrite := 0, nread := 0\<rparr>))
           (initlock (PipeLock p) ''pipe'')"

definition pipe_end :: "bool \<Rightarrow> u32 \<Rightarrow> filestruct \<Rightarrow> filestruct" where
  "pipe_end w p x = x\<lparr>f_type := FD_PIPE, f_readable := \<not> w, f_writable := w, f_pipe := p\<rparr>"

text \<open>The result is the two files, or nothing. The label \<^verbatim>\<open>bad\<close> closes what has been opened.\<close>

definition pipealloc :: "('z kfile_scheme, (nat \<times> nat) option) kmon" where
  "pipealloc =
     bindK filealloc (\<lambda>r0.
     case r0 of None \<Rightarrow> returnK None | Some f0 \<Rightarrow>
     bindK filealloc (\<lambda>r1.
     case r1 of None \<Rightarrow> thenK (fileclose f0) (returnK None) | Some f1 \<Rightarrow>
     bindK kalloc (\<lambda>p.
     if p = 0 then thenK (fileclose f0) (thenK (fileclose f1) (returnK None)) else
     thenK (new_pipe p) (
     thenK (mod_file f0 (pipe_end False p)) (
     thenK (mod_file f1 (pipe_end True p))
           (returnK (Some (f0, f1))))))))"

lemma get_file_run [simp]: "get_file f s = Done (ftable s ! f) s"
  by (simp add: get_file_def)

lemma mod_file_run [simp]: "mod_file f g s = Done () (s\<lparr>ftable := upd_slot f g (ftable s)\<rparr>)"
  by (simp add: mod_file_def)

end
