(* ===== verification/Xv6_Paging.thy ===== *)
theory Xv6_Paging
  imports Xv6_Kalloc
begin

text \<open>
  Page tables (\<^verbatim>\<open>vm.c\<close>, the part that works on memory and the page allocator only). A page directory and a page
  table are pages of the kernel's memory; the address of an entry is computed and dereferenced as in the code. All
  addresses of \<open>mem\<close> are addresses of the kernel's direct map. \<open>translate\<close> is the MMU's own walk.
\<close>

section \<open>Accessing memory\<close>

definition peek32 :: "u32 \<Rightarrow> ('z kmemst_scheme, u32) kmon" where
  "peek32 a = getK (\<lambda>s. load32 (mem s) a)"

definition poke32 :: "u32 \<Rightarrow> u32 \<Rightarrow> ('z kmemst_scheme, unit) kmon" where
  "poke32 a w = setmem (store32 a w)"

section \<open>Building page tables\<close>

definition walkpgdir :: "u32 \<Rightarrow> u32 \<Rightarrow> bool \<Rightarrow> ('z kmemst_scheme, u32) kmon" where
  "walkpgdir pd va alloc =
     (let pde = pd + 4 * PDX va
      in bindK (peek32 pde) (\<lambda>e.
         if e AND PTE_P \<noteq> 0 then returnK (P2V (PTE_ADDR e) + 4 * PTX va)
         else if \<not> alloc then returnK 0
         else
           bindK kalloc (\<lambda>pgtab.
           if pgtab = 0 then returnK 0
           else
             thenK (setmem (memset pgtab 0 PGSIZE)) (
             thenK (poke32 pde (V2P pgtab OR PTE_P OR PTE_W OR PTE_U))
                   (returnK (pgtab + 4 * PTX va))))))"

text \<open>One pass of the loop of \<^verbatim>\<open>mappages\<close>: the page at \<open>a\<close> is mapped to \<open>pa\<close>; \<open>Some\<close> is the early return.\<close>

definition map_one :: "u32 \<Rightarrow> u32 \<Rightarrow> u32 \<Rightarrow> u32 \<Rightarrow> ('z kmemst_scheme, int option) kmon" where
  "map_one pd perm a pa =
     bindK (walkpgdir pd a True) (\<lambda>pte.
     if pte = 0 then returnK (Some (-1)) else
     bindK (peek32 pte) (\<lambda>e.
     if e AND PTE_P \<noteq> 0 then panicK ''remap'' else
     thenK (poke32 pte (pa OR perm OR PTE_P)) (returnK None)))"

definition mappages :: "u32 \<Rightarrow> u32 \<Rightarrow> u32 \<Rightarrow> u32 \<Rightarrow> u32 \<Rightarrow> ('z kmemst_scheme, int) kmon" where
  "mappages pd va n pa perm =
     (let a = PGROUNDDOWN va; last = PGROUNDDOWN (va + n - 1)
      in bindK (searchK [0..<unat (last - a) div 4096 + 1]
             (\<lambda>k. map_one pd perm (a + of_nat k * PGSIZE) (pa + of_nat k * PGSIZE))) (\<lambda>r.
         returnK (case r of Some e \<Rightarrow> e | None \<Rightarrow> 0)))"

text \<open>\<^verbatim>\<open>deallocuvm\<close>. The loop's address goes up by a page, or to the next page table where there is none; should it
  wrap around at the end of the address space, which needs a size beyond the kernel's base, the loop starts over.\<close>

function deallocuvm_loop :: "u32 \<Rightarrow> u32 \<Rightarrow> u32 \<Rightarrow> ('z kmemst_scheme, unit) kmon" where
  "deallocuvm_loop pd oldsz a =
     (if a < oldsz then
        bindK (walkpgdir pd a False) (\<lambda>pte.
        bindK
          (if pte = 0 then returnK (PGADDR (PDX a + 1) 0 0 - PGSIZE)
           else
             bindK (peek32 pte) (\<lambda>e.
             if e AND PTE_P \<noteq> 0 then
               (if PTE_ADDR e = 0 then panicK ''kfree'' else
                thenK (kfree (P2V (PTE_ADDR e))) (
                thenK (poke32 pte 0) (returnK a)))
             else returnK a)) (\<lambda>b.
        if a < b + PGSIZE then deallocuvm_loop pd oldsz (b + PGSIZE) else (\<lambda>s. Spins s)))
      else returnK ())"
  by pat_completeness auto
termination
  by (relation "measure (\<lambda>(pd, oldsz, a). unat oldsz - unat a)") (auto simp: word_less_nat_alt)

declare deallocuvm_loop.simps [simp del]

definition deallocuvm :: "u32 \<Rightarrow> u32 \<Rightarrow> u32 \<Rightarrow> ('z kmemst_scheme, u32) kmon" where
  "deallocuvm pd oldsz newsz =
     (if oldsz \<le> newsz then returnK oldsz
      else thenK (deallocuvm_loop pd oldsz (PGROUNDUP newsz)) (returnK newsz))"

definition freevm :: "u32 \<Rightarrow> ('z kmemst_scheme, unit) kmon" where
  "freevm pd =
     (if pd = 0 then panicK ''freevm: no pgdir'' else
      thenK (deallocuvm pd KERNBASE 0) (
      thenK (forK [0..<NPDENTRIES] (\<lambda>i.
        bindK (peek32 (pd + 4 * of_nat i)) (\<lambda>e.
        whenK (e AND PTE_P \<noteq> 0) (kfree (P2V (PTE_ADDR e))))))
            (kfree pd)))"

section \<open>The kernel's mappings\<close>

record kmap_entry =
  virt :: u32
  phys_start :: u32
  phys_end :: u32
  perm :: u32

definition kmap :: "u32 \<Rightarrow> kmap_entry list" where
  "kmap data =
     [\<lparr>virt = KERNBASE, phys_start = 0, phys_end = EXTMEM, perm = PTE_W\<rparr>,
      \<lparr>virt = KERNLINK, phys_start = V2P KERNLINK, phys_end = V2P data, perm = 0\<rparr>,
      \<lparr>virt = data, phys_start = V2P data, phys_end = PHYSTOP, perm = PTE_W\<rparr>,
      \<lparr>virt = DEVSPACE, phys_start = DEVSPACE, phys_end = 0, perm = PTE_W\<rparr>]"

definition setupkvm :: "('z kmemst_scheme, u32) kmon" where
  "setupkvm =
     bindK kalloc (\<lambda>pd.
     if pd = 0 then returnK 0 else
     thenK (setmem (memset pd 0 PGSIZE)) (
     if P2V PHYSTOP > DEVSPACE then panicK ''PHYSTOP too high'' else
     bindK (getK kdata) (\<lambda>data.
     bindK (searchK (kmap data) (\<lambda>k.
       bindK (mappages pd (virt k) (phys_end k - phys_start k) (phys_start k) (perm k)) (\<lambda>r.
       if r < 0 then thenK (freevm pd) (returnK (Some 0)) else returnK None))) (\<lambda>r.
     returnK (case r of Some e \<Rightarrow> e | None \<Rightarrow> pd)))))"

section \<open>User memory\<close>

text \<open>\<^verbatim>\<open>inituvm\<close>; \<open>init\<close> are the bytes of the program. As in the code, the results of \<^verbatim>\<open>kalloc\<close> and \<^verbatim>\<open>mappages\<close> are
  not examined.\<close>

definition inituvm :: "u32 \<Rightarrow> u8 list \<Rightarrow> ('z kmemst_scheme, unit) kmon" where
  "inituvm pd init =
     (if length init \<ge> 4096 then panicK ''inituvm: more than a page'' else
      bindK kalloc (\<lambda>m.
      thenK (setmem (memset m 0 PGSIZE)) (
      thenK (mappages pd 0 PGSIZE (V2P m) (PTE_W OR PTE_U))
            (setmem (store_bytes init m)))))"

definition clearpteu :: "u32 \<Rightarrow> u32 \<Rightarrow> ('z kmemst_scheme, unit) kmon" where
  "clearpteu pd uva =
     bindK (walkpgdir pd uva False) (\<lambda>pte.
     if pte = 0 then panicK ''clearpteu'' else
     bindK (peek32 pte) (\<lambda>e. poke32 pte (e AND NOT PTE_U)))"

text \<open>One pass of the loop of \<^verbatim>\<open>copyuvm\<close>; \<open>Some\<close> is the jump to \<^verbatim>\<open>bad\<close>.\<close>

definition copy_page :: "u32 \<Rightarrow> u32 \<Rightarrow> u32 \<Rightarrow> ('z kmemst_scheme, unit option) kmon" where
  "copy_page pd d i =
     bindK (walkpgdir pd i False) (\<lambda>pte.
     if pte = 0 then panicK ''copyuvm: pte should exist'' else
     bindK (peek32 pte) (\<lambda>e.
     if e AND PTE_P = 0 then panicK ''copyuvm: page not present'' else
     bindK kalloc (\<lambda>m.
     if m = 0 then returnK (Some ()) else
     thenK (setmem (memmove m (P2V (PTE_ADDR e)) PGSIZE)) (
     bindK (mappages d i PGSIZE (V2P m) (PTE_FLAGS e)) (\<lambda>r.
     if r < 0 then thenK (kfree m) (returnK (Some ())) else returnK None)))))"

definition copyuvm :: "u32 \<Rightarrow> u32 \<Rightarrow> ('z kmemst_scheme, u32) kmon" where
  "copyuvm pd n =
     bindK setupkvm (\<lambda>d.
     if d = 0 then returnK 0 else
     bindK (searchK [0..<(unat n + 4095) div 4096] (\<lambda>k. copy_page pd d (of_nat k * PGSIZE))) (\<lambda>r.
     case r of None \<Rightarrow> returnK d | Some _ \<Rightarrow> thenK (freevm d) (returnK 0)))"

text \<open>\<^verbatim>\<open>uva2ka\<close> dereferences the result of \<^verbatim>\<open>walkpgdir\<close> without a test; address 0 is not mapped in the kernel's
  half, so on a null pointer it reads whatever user memory has there. The model stops at that point.\<close>

definition uva2ka :: "u32 \<Rightarrow> u32 \<Rightarrow> ('z kmemst_scheme, u32) kmon" where
  "uva2ka pd uva =
     bindK (walkpgdir pd uva False) (\<lambda>pte.
     if pte = 0 then panicK ''undefined: uva2ka dereferences a null page-table entry'' else
     bindK (peek32 pte) (\<lambda>e.
     if e AND PTE_P = 0 then returnK 0
     else if e AND PTE_U = 0 then returnK 0
     else returnK (P2V (PTE_ADDR e))))"

function copyout :: "u32 \<Rightarrow> u32 \<Rightarrow> u8 list \<Rightarrow> ('z kmemst_scheme, int) kmon" where
  "copyout pd va buf =
     (if buf = [] then returnK 0
      else
        (let va0 = PGROUNDDOWN va;
             n = min (4096 - unat (va - va0)) (length buf)
         in bindK (uva2ka pd va0) (\<lambda>pa0.
            if pa0 = 0 then returnK (-1) else
            thenK (setmem (store_bytes (take n buf) (pa0 + (va - va0))))
                  (copyout pd (va0 + PGSIZE) (drop n buf)))))"
  by pat_completeness auto

lemma page_offset: "va - PGROUNDDOWN va = va AND 0xFFF"
  using and_not_mask12 [of va] by (simp add: PGROUNDDOWN_def PGSIZE_def)

lemma page_offset_less: "unat (va - PGROUNDDOWN va) < 4096"
  by (simp add: page_offset unat_and_mask12)

termination copyout
  using page_offset_less by (relation "measure (\<lambda>(pd, va, buf). length buf)") auto

declare copyout.simps [simp del]

section \<open>The MMU\<close>

text \<open>The hardware's walk of the page tables: the address in the kernel's direct map of the byte at virtual address
  \<open>va\<close>, if it is mapped.\<close>

definition translate :: "memory \<Rightarrow> u32 \<Rightarrow> u32 \<Rightarrow> u32 option" where
  "translate m pd va =
     (let e = load32 m (pd + 4 * PDX va)
      in if e AND PTE_P = 0 then None
         else
           let f = load32 m (P2V (PTE_ADDR e) + 4 * PTX va)
           in if f AND PTE_P = 0 then None else Some (P2V (PTE_ADDR f) + (va AND 0xFFF)))"

lemma peek32_run [simp]: "peek32 a s = Done (load32 (mem s) a) s"
  by (simp add: peek32_def)

lemma poke32_run [simp]: "poke32 a w s = Done () (s\<lparr>mem := store32 a w (mem s)\<rparr>)"
  by (simp add: poke32_def setmem_def)

lemma setmem_run [simp]: "setmem f s = Done () (s\<lparr>mem := f (mem s)\<rparr>)"
  by (simp add: setmem_def)

end
