(* ===== verification/Xv6_Vm.thy ===== *)
theory Xv6_Vm
  imports Xv6_File Xv6_Paging
begin

text \<open>
  The rest of \<^verbatim>\<open>vm.c\<close>: the operations that also use the CPU's registers, the console or the file system. The registers
  that hold addresses (\<^verbatim>\<open>cr3\<close>) and the address of each CPU's task-state segment are part of the state; loading the
  segment registers themselves (\<^verbatim>\<open>lgdt\<close>, \<^verbatim>\<open>ltr\<close>) has no other effect in the model. Access to memory at a virtual
  address of the running process goes through the page table in \<^verbatim>\<open>cr3\<close>; where nothing is mapped the kernel faults, and
  \<^verbatim>\<open>trap\<close> panics.
\<close>

section \<open>State\<close>

record vmst =
  kpgdir :: u32
  cr3 :: u32
  ts_addr :: "nat \<Rightarrow> u32"

record kvm = kfile +
  vm :: vmst

definition getV :: "(vmst \<Rightarrow> 'a) \<Rightarrow> ('z kvm_scheme, 'a) kmon" where
  "getV f = getK (\<lambda>s. f (vm s))"

definition modV :: "(vmst \<Rightarrow> vmst) \<Rightarrow> ('z kvm_scheme, unit) kmon" where
  "modV f = modK (\<lambda>s. s\<lparr>vm := f (vm s)\<rparr>)"

section \<open>Segments and address spaces\<close>

definition set_gdt :: "nat \<Rightarrow> nat \<Rightarrow> segdesc \<Rightarrow> ('z kvm_scheme, unit) kmon" where
  "set_gdt c i d = mod_cpu c (\<lambda>x. x\<lparr>gdt := (gdt x)[i := d]\<rparr>)"

definition seginit :: "('z kvm_scheme, unit) kmon" where
  "seginit =
     bindK cpuid (\<lambda>c.
     thenK (set_gdt c SEG_KCODE (SEG (STA_X OR STA_R) 0 0xffffffff 0)) (
     thenK (set_gdt c SEG_KDATA (SEG STA_W 0 0xffffffff 0)) (
     thenK (set_gdt c SEG_UCODE (SEG (STA_X OR STA_R) 0 0xffffffff DPL_USER))
           (set_gdt c SEG_UDATA (SEG STA_W 0 0xffffffff DPL_USER)))))"

definition switchkvm :: "('z kvm_scheme, unit) kmon" where
  "switchkvm = modV (\<lambda>v. v\<lparr>cr3 := V2P (kpgdir v)\<rparr>)"

definition kvmalloc :: "('z kvm_scheme, unit) kmon" where
  "kvmalloc = bindK setupkvm (\<lambda>d. thenK (modV (\<lambda>v. v\<lparr>kpgdir := d\<rparr>)) switchkvm)"

definition switchuvm :: "nat \<Rightarrow> ('z kvm_scheme, unit) kmon" where
  "switchuvm p =
     bindK (getK (\<lambda>s. ptable s ! p)) (\<lambda>x.
     if kstack x = 0 then panicK ''switchuvm: no kstack'' else
     if pgdir x = 0 then panicK ''switchuvm: no pgdir'' else
     thenK pushcli (
     bindK mycpu (\<lambda>c.
     bindK (getV (\<lambda>v. ts_addr v c)) (\<lambda>a.
     thenK (set_gdt c SEG_TSS ((SEG16 STS_T32A a 103 0)\<lparr>seg_s := 0\<rparr>)) (
     thenK (mod_cpu c (\<lambda>y. y\<lparr>ts := (ts y)\<lparr>ss0 := push_bit 3 (of_nat SEG_KDATA), esp0 := kstack x + KSTACKSIZE, iomb := 0xFFFF\<rparr>\<rparr>)) (
     thenK (modV (\<lambda>v. v\<lparr>cr3 := V2P (pgdir x)\<rparr>))
           popcli))))))"

section \<open>User memory\<close>

definition uread :: "u32 \<Rightarrow> ('z kvm_scheme, u8) kmon" where
  "uread va =
     bindK (getK (\<lambda>s. map_option (mem s) (translate (mem s) (P2V (cr3 (vm s))) va))) (\<lambda>r.
     case r of Some b \<Rightarrow> returnK b | None \<Rightarrow> panicK ''trap'')"

primrec uread_n :: "nat \<Rightarrow> u32 \<Rightarrow> ('z kvm_scheme, u8 list) kmon" where
  "uread_n 0 va = returnK []"
| "uread_n (Suc n) va = bindK (uread va) (\<lambda>b. bindK (uread_n n (va + 1)) (\<lambda>bs. returnK (b # bs)))"

definition uwrite1 :: "u32 \<Rightarrow> u8 \<Rightarrow> ('z kvm_scheme, unit) kmon" where
  "uwrite1 va b =
     bindK (getK (\<lambda>s. translate (mem s) (P2V (cr3 (vm s))) va)) (\<lambda>r.
     case r of Some a \<Rightarrow> setmem (\<lambda>m. m(a := b)) | None \<Rightarrow> panicK ''trap'')"

primrec uwrite :: "u32 \<Rightarrow> u8 list \<Rightarrow> ('z kvm_scheme, unit) kmon" where
  "uwrite va [] = returnK ()"
| "uwrite va (b # bs) = thenK (uwrite1 va b) (uwrite (va + 1) bs)"

text \<open>The bytes of an int in memory.\<close>

definition bytes32 :: "u32 \<Rightarrow> u8 list" where
  "bytes32 w = map (byte_of w) [0..<4]"

text \<open>A buffer at a virtual address as destination and as source.\<close>

definition user_dst :: "u32 \<Rightarrow> 'z kvm_scheme dest" where
  "user_dst va i bs = uwrite (va + of_nat i) bs"

definition user_src :: "u32 \<Rightarrow> 'z kvm_scheme source" where
  "user_src va i n = uread_n n (va + of_nat i)"

definition load_page :: "u32 \<Rightarrow> u32 \<Rightarrow> nat \<Rightarrow> u32 \<Rightarrow> u32 \<Rightarrow> nat \<Rightarrow> ('z kvm_scheme, int option) kmon" where
  "load_page pd addr ip offset n k =
     (let i = of_nat k * PGSIZE
      in bindK (walkpgdir pd (addr + i) False) (\<lambda>pte.
         if pte = 0 then panicK ''loaduvm: address should exist'' else
         bindK (peek32 pte) (\<lambda>e.
         let m = (if n - i < PGSIZE then n - i else PGSIZE)
         in bindK (readi ip (\<lambda>j bs. setmem (store_bytes bs (P2V (PTE_ADDR e) + of_nat j))) (offset + i) m) (\<lambda>(r, _).
            returnK (if word_of_int r \<noteq> m then Some (-1) else None)))))"

definition loaduvm :: "u32 \<Rightarrow> u32 \<Rightarrow> nat \<Rightarrow> u32 \<Rightarrow> u32 \<Rightarrow> ('z kvm_scheme, int) kmon" where
  "loaduvm pd addr ip offset n =
     (if addr mod PGSIZE \<noteq> 0 then panicK ''loaduvm: addr must be page aligned'' else
      bindK (searchK [0..<(unat n + 4095) div 4096] (load_page pd addr ip offset n)) (\<lambda>r.
      returnK (case r of Some e \<Rightarrow> e | None \<Rightarrow> 0)))"

definition alloc_page :: "u32 \<Rightarrow> u32 \<Rightarrow> u32 \<Rightarrow> u32 \<Rightarrow> ('z kvm_scheme, u32 option) kmon" where
  "alloc_page pd oldsz newsz a =
     bindK kalloc (\<lambda>m.
     if m = 0 then
       thenK (cprintf (''allocuvm out of memory'' @ [newline]) []) (
       thenK (deallocuvm pd newsz oldsz) (returnK (Some 0)))
     else
       thenK (setmem (memset m 0 PGSIZE)) (
       bindK (mappages pd a PGSIZE (V2P m) (PTE_W OR PTE_U)) (\<lambda>r.
       if r < 0 then
         thenK (cprintf (''allocuvm out of memory (2)'' @ [newline]) []) (
         thenK (deallocuvm pd newsz oldsz) (
         thenK (kfree m) (returnK (Some 0))))
       else returnK None)))"

definition allocuvm :: "u32 \<Rightarrow> u32 \<Rightarrow> u32 \<Rightarrow> ('z kvm_scheme, u32) kmon" where
  "allocuvm pd oldsz newsz =
     (if newsz \<ge> KERNBASE then returnK 0
      else if newsz < oldsz then returnK oldsz
      else
        (let a = PGROUNDUP oldsz
         in bindK (searchK [0..<(unat newsz - unat a + 4095) div 4096] (\<lambda>k. alloc_page pd oldsz newsz (a + of_nat k * PGSIZE))) (\<lambda>r.
            returnK (case r of Some e \<Rightarrow> e | None \<Rightarrow> newsz))))"

lemma getV_run [simp]: "getV f s = Done (f (vm s)) s"
  by (simp add: getV_def)

lemma modV_run [simp]: "modV f s = Done () (s\<lparr>vm := f (vm s)\<rparr>)"
  by (simp add: modV_def)

end
