(* ===== verification/Xv6_Pagetable.thy ===== *)
theory Xv6_Pagetable
  imports Xv6_Paging
begin

text \<open>
  What the operations of \<open>Xv6_Paging\<close> do to an address space. An address space is abstracted to the function from
  virtual page numbers to page-table entries that its two levels of tables hold; \<open>pgdir_ok\<close> is the invariant of the
  tables: each is a page of its own that the allocator does not hold.
\<close>

section \<open>Entries\<close>

definition pde :: "memory \<Rightarrow> u32 \<Rightarrow> nat \<Rightarrow> u32" where
  "pde m pd i = load32 m (pd + 4 * of_nat i)"

definition tbl :: "memory \<Rightarrow> u32 \<Rightarrow> nat \<Rightarrow> u32 option" where
  "tbl m pd i = (if pde m pd i AND PTE_P = 0 then None else Some (P2V (PTE_ADDR (pde m pd i))))"

text \<open>The entry of a page, 0 where there is no table.\<close>

definition pte :: "memory \<Rightarrow> u32 \<Rightarrow> nat \<Rightarrow> u32" where
  "pte m pd n = (case tbl m pd (n div 1024) of None \<Rightarrow> 0 | Some t \<Rightarrow> load32 m (t + 4 * of_nat (n mod 1024)))"

definition vpn :: "u32 \<Rightarrow> nat" where
  "vpn va = unat va div 4096"

definition present :: "u32 \<Rightarrow> bool" where
  "present e \<longleftrightarrow> e AND PTE_P \<noteq> 0"

definition frame :: "u32 \<Rightarrow> u32" where
  "frame e = P2V (PTE_ADDR e)"

lemma not_present_0 [simp]: "\<not> present 0"
  by (simp add: present_def)

lemma vpn_less: "vpn va < 1048576"
  using unat32_less [of va] by (simp add: vpn_def less_mult_imp_div_less)

lemma unat_PDX: "unat (PDX va) = vpn va div 1024"
proof -
  have "unat (drop_bit 22 va) < 1024" using unat32_less [of va] by (simp add: drop_bit_eq_div unat_div less_mult_imp_div_less)
  then have "unat (PDX va) = unat va div 2 ^ 22"
    using unat_and_mask [OF mask10, of "drop_bit 22 va"] by (simp add: PDX_def drop_bit_eq_div unat_div)
  then show ?thesis by (simp add: vpn_def div_mult2_eq [symmetric])
qed

lemma unat_PTX: "unat (PTX va) = vpn va mod 1024"
  using unat_and_mask [OF mask10, of "drop_bit 12 va"] by (simp add: PTX_def drop_bit_eq_div unat_div vpn_def)

lemma PDX_vpn: "PDX va = of_nat (vpn va div 1024)" and PTX_vpn: "PTX va = of_nat (vpn va mod 1024)"
  by (simp_all add: unat_PDX [symmetric] unat_PTX [symmetric])

lemma vpn_div_less: "vpn va div 1024 < 1024"
  using vpn_less [of va] by (simp add: less_mult_imp_div_less)

lemma translate_pte:
  "translate m pd va = (if present (pte m pd (vpn va)) then Some (frame (pte m pd (vpn va)) + (va AND 0xFFF)) else None)"
  by (simp add: translate_def Let_def pte_def tbl_def pde_def PDX_vpn PTX_vpn present_def frame_def)

section \<open>Cells of pages\<close>

lemma multiple_room:
  fixes u d k :: nat
  assumes "u mod d = 0" "k < d" "u < d * c"
  shows "u + k < d * c"
proof -
  obtain q where q: "u = d * q" using assms(1) by (auto simp: mod_eq_0_iff_dvd)
  then have "q < c" using assms(3) by simp
  then have "d * Suc q \<le> d * c" by (intro mult_le_mono2) simp
  then show ?thesis using q assms(2) by simp
qed

lemma page_room: "unat v mod 4096 = 0 \<Longrightarrow> k < 4096 \<Longrightarrow> unat v + k < 2 ^ 32" for v :: u32
  using multiple_room [of "unat v" 4096 k 1048576] unat32_less [of v] by simp

lemma multiple_unique:
  fixes u v d i j :: nat
  assumes "u mod d = 0" "v mod d = 0" "i < d" "j < d" "u + i = v + j"
  shows "u = v"
proof -
  have "d * ((u + i) div d) = u" "d * ((v + j) div d) = v"
    using assms(1-4) by (auto simp: mod_eq_0_iff_dvd)
  then show ?thesis using assms(5) by simp
qed

lemma unat_cell:
  assumes "v mod PGSIZE = 0" "i < 1024"
  shows "unat (v + 4 * of_nat i) = unat v + 4 * i"
  using unat_offset [of v "4 * i"] page_room [of v "4 * i"] assms by (simp add: aligned_unat)

lemma cell_eq:
  assumes "v mod PGSIZE = 0" "w mod PGSIZE = 0" "i < 1024" "j < 1024"
  shows "v + 4 * of_nat i = w + 4 * of_nat j \<longleftrightarrow> v = w \<and> i = j"
proof
  assume "v + 4 * of_nat i = w + 4 * of_nat j"
  then have e: "unat v + 4 * i = unat w + 4 * j" using unat_cell assms by metis
  moreover have "unat v mod 4096 = 0" "unat w mod 4096 = 0" using assms by (simp_all add: aligned_unat)
  ultimately have "unat v = unat w" using assms(3,4) multiple_unique [of "unat v" 4096 "unat w" "4 * i" "4 * j"] by simp
  then show "v = w \<and> i = j" using e by (simp add: word_unat_eq_iff)
qed simp

lemma load32_store32_other:
  assumes "unat a mod 4 = 0" "unat c mod 4 = 0" "a \<noteq> c"
  shows "load32 (store32 a w m) c = load32 m c"
proof -
  have "store32 a w m (c + of_nat k) = m (c + of_nat k)" if "k < 4" for k
  proof -
    have "\<not> unat (c + of_nat k - a) < 4"
    proof
      assume l: "unat (c + of_nat k - a) < 4"
      define j where "j = unat (c + of_nat k - a)"
      have top: "unat x + i < 2 ^ 32" if "unat x mod 4 = 0" "i < 4" for x :: u32 and i
        using that unat32_less [of x] multiple_room [of "unat x" 4 i 1073741824] by simp
      have "c + of_nat k = a + of_nat j" by (simp add: j_def)
      then have "unat c + k = unat a + j"
        using unat_offset [of c k] unat_offset [of a j] top assms(1,2) l that by (metis j_def)
      then have "unat c = unat a" using assms(1,2) l that multiple_unique [of "unat c" 4 "unat a" k j] by (simp add: j_def)
      then show False using assms(3) by (simp add: word_unat_eq_iff)
    qed
    then show ?thesis by (simp add: store32_spec)
  qed
  from this [of 0] this [of 1] this [of 2] this [of 3] show ?thesis by (intro load32_cong) simp_all
qed

lemma cell_aligned: "v mod PGSIZE = 0 \<Longrightarrow> i < 1024 \<Longrightarrow> unat (v + 4 * of_nat i) mod 4 = 0"
proof -
  assume "v mod PGSIZE = 0" "i < 1024"
  then have "unat (v + 4 * of_nat i) = unat v + 4 * i" "unat v mod 4096 = 0" by (simp_all add: unat_cell aligned_unat)
  moreover from this(2) have "unat v mod 4 = 0" using mod_mod_cancel [of 4 4096 "unat v"] by simp
  ultimately show ?thesis by simp
qed

lemma load_store_cell:
  assumes "v mod PGSIZE = 0" "w mod PGSIZE = 0" "i < 1024" "j < 1024"
  shows "load32 (store32 (v + 4 * of_nat i) x m) (w + 4 * of_nat j) = (if v = w \<and> i = j then x else load32 m (w + 4 * of_nat j))"
  using assms cell_eq [OF assms] load32_store32_other [OF cell_aligned cell_aligned, of v i w j] by auto

lemma in_page_cell:
  assumes "v mod PGSIZE = 0" "i < 1024" "k < 4"
  shows "in_page v (v + 4 * of_nat i + of_nat k)"
  using in_page_word [of v "4 * i + k"] assms by (simp add: add.assoc)

lemma load_cell_cong:
  assumes "v mod PGSIZE = 0" "i < 1024" "\<And>a. in_page v a \<Longrightarrow> m a = m' a"
  shows "load32 m (v + 4 * of_nat i) = load32 m' (v + 4 * of_nat i)"
proof -
  have "m (v + 4 * of_nat i + of_nat k) = m' (v + 4 * of_nat i + of_nat k)" if "k < 4" for k
    by (intro assms(3) in_page_cell assms(1,2) that)
  from this [of 0] this [of 1] this [of 2] this [of 3] show ?thesis by (intro load32_cong) simp_all
qed

lemma store_cell_frame:
  assumes "v mod PGSIZE = 0" "i < 1024" "\<not> in_page v a"
  shows "store32 (v + 4 * of_nat i) w m a = m a"
proof -
  have "\<not> unat (a - (v + 4 * of_nat i)) < 4"
  proof
    assume "unat (a - (v + 4 * of_nat i)) < 4"
    then have "in_page v (v + 4 * of_nat i + of_nat (unat (a - (v + 4 * of_nat i))))" using assms by (intro in_page_cell)
    then show False using assms(3) by simp
  qed
  then show ?thesis by (simp add: store32_spec)
qed

lemma load_zeroed:
  assumes "v mod PGSIZE = 0" "i < 1024"
  shows "load32 (memset v 0 PGSIZE m) (v + 4 * of_nat i) = 0"
proof -
  have "memset v 0 PGSIZE m (v + 4 * of_nat i + of_nat k) = 0" if "k < 4" for k
    using in_page_cell [OF assms that] by (simp add: memset_spec in_page_def)
  from this [of 0] this [of 1] this [of 2] this [of 3] show ?thesis by (simp add: load32_def word_of_bytes_def)
qed

section \<open>The invariant of the tables\<close>

definition pgdir_ok :: "'z kmemst_scheme \<Rightarrow> u32 \<Rightarrow> u32 list \<Rightarrow> bool" where
  "pgdir_ok s pd xs \<longleftrightarrow> kfrees s xs \<and> kpage (kend s) pd \<and> pd \<notin> set xs \<and>
     (\<forall>i<1024. \<forall>t. tbl (mem s) pd i = Some t \<longrightarrow> kpage (kend s) t \<and> t \<notin> set xs \<and> t \<noteq> pd) \<and>
     (\<forall>i<1024. \<forall>j<1024. \<forall>t. tbl (mem s) pd i = Some t \<and> tbl (mem s) pd j = Some t \<longrightarrow> i = j)"

text \<open>What a step may change: the CPU (through the allocator's lock), memory and the free list.\<close>

definition mem_only :: "'z kmemst_scheme \<Rightarrow> 'z kmemst_scheme \<Rightarrow> bool" where
  "mem_only s t \<longleftrightarrow> (\<exists>h m k. t = s\<lparr>hw := h, mem := m, kmem := k\<rparr> \<and> h \<in> {hw s, settle (hw s)})"

lemma mem_onlyI: "h \<in> {hw s, settle (hw s)} \<Longrightarrow> mem_only s (s\<lparr>hw := h, mem := m, kmem := k\<rparr>)"
  unfolding mem_only_def by blast

lemma mem_only_refl [simp]: "mem_only s s"
  unfolding mem_only_def by (intro exI [of _ "hw s"] exI [of _ "mem s"] exI [of _ "kmem s"]) simp

lemma mem_only_trans:
  assumes "mem_only s t" "mem_only t u"
  shows "mem_only s u"
proof -
  obtain h m k where t: "t = s\<lparr>hw := h, mem := m, kmem := k\<rparr>" "h \<in> {hw s, settle (hw s)}" using assms(1) by (auto simp: mem_only_def)
  obtain h' m' k' where u: "u = t\<lparr>hw := h', mem := m', kmem := k'\<rparr>" "h' \<in> {h, settle h}" using assms(2) t(1) by (auto simp: mem_only_def)
  have "u = s\<lparr>hw := h', mem := m', kmem := k'\<rparr>" using t(1) u(1) by simp
  moreover have "h' \<in> {hw s, settle (hw s)}" using t(2) u(2) by auto
  ultimately show ?thesis by (simp add: mem_onlyI)
qed

lemma mem_only_mem: "mem_only s (s\<lparr>mem := m\<rparr>)"
proof -
  have "s\<lparr>mem := m\<rparr> = s\<lparr>hw := hw s, mem := m, kmem := kmem s\<rparr>" by simp
  then show ?thesis using mem_onlyI [of "hw s" s "kmem s" m] by simp
qed

lemma mem_only_kend: "mem_only s t \<Longrightarrow> kend t = kend s"
  by (auto simp: mem_only_def)

lemma khw_cases: "khw s \<in> {hw s, settle (hw s)}"
  by (simp add: khw_def)

lemma kpage_aligned: "kpage e v \<Longrightarrow> v mod PGSIZE = 0"
  by (simp add: kpage_def)

lemma tableD:
  assumes "pgdir_ok s pd xs" "tbl (mem s) pd i = Some t" "i < 1024"
  shows "kpage (kend s) t" "t mod PGSIZE = 0" "t \<noteq> 0" "t \<notin> set xs" "t \<noteq> pd"
  using assms by (auto simp: pgdir_ok_def kpage_def)

lemma pde_cong: "pd mod PGSIZE = 0 \<Longrightarrow> i < 1024 \<Longrightarrow> (\<And>a. in_page pd a \<Longrightarrow> m a = m' a) \<Longrightarrow> pde m pd i = pde m' pd i"
  unfolding pde_def by (rule load_cell_cong)

lemma tbl_cong: "pde m pd i = pde m' pd i \<Longrightarrow> tbl m pd i = tbl m' pd i"
  by (simp add: tbl_def)

lemma pte_cong:
  assumes "tbl m pd (n div 1024) = tbl m' pd (n div 1024)"
    "\<And>t. tbl m pd (n div 1024) = Some t \<Longrightarrow> t mod PGSIZE = 0 \<and> (\<forall>a. in_page t a \<longrightarrow> m a = m' a)"
  shows "pte m pd n = pte m' pd n"
  using assms load_cell_cong [of _ "n mod 1024" m m'] by (auto simp: pte_def split: option.split)

text \<open>Entries built from an aligned address and flags.\<close>

lemma PTE_ADDR_or:
  assumes "a mod PGSIZE = 0" "f AND NOT 0xFFF = 0"
  shows "PTE_ADDR (a OR f) = a"
proof -
  have "take_bit 12 a = 0" using assms(1) by (simp add: take_bit_eq_mod PGSIZE_def)
  then have "12 \<le> n" if "bit a n" for n using that bit_take_bit_iff [of 12 a n] by (simp add: not_less)
  moreover have "\<not> bit f n" if "12 \<le> n" "n < 32" for n
  proof -
    have "\<not> bit (f AND NOT (mask 12)) n" using assms(2) unfolding mask12 by simp
    then show ?thesis using that by (auto simp: bit_simps)
  qed
  ultimately show ?thesis
    unfolding PTE_ADDR_def mask12 by (intro bit_word_eqI) (auto simp: bit_simps not_less)
qed

lemma V2P_aligned: "v mod PGSIZE = 0 \<Longrightarrow> V2P v mod PGSIZE = 0"
proof -
  assume "v mod PGSIZE = 0"
  then have "4096 dvd unat v" by (simp add: aligned_unat mod_eq_0_iff_dvd)
  then have "4096 dvd unat v - 2147483648" "4096 dvd unat v + 4294967296 - 2147483648"
    by (intro dvd_diff_nat dvd_add; simp)+
  then have "4096 dvd unat (v - 2147483648)" by (simp add: unat_sub_if_size word_size)
  then show ?thesis by (simp add: aligned_unat V2P_def KERNBASE_def mod_eq_0_iff_dvd)
qed

lemma present_or [simp]: "present (a OR f OR PTE_P)" "present (a OR PTE_P OR f)"
proof -
  have "bit (a OR f OR PTE_P) 0" "bit (a OR PTE_P OR f) 0" by (simp_all add: PTE_P_def bit_simps)
  then have "bit ((a OR f OR PTE_P) AND PTE_P) 0" "bit ((a OR PTE_P OR f) AND PTE_P) 0" by (simp_all add: PTE_P_def bit_simps)
  then show "present (a OR f OR PTE_P)" "present (a OR PTE_P OR f)" unfolding present_def by (metis bit_0_eq bot_apply bot_bool_def)+
qed

section \<open>Finding an entry\<close>

lemma kalloc_mem_only:
  assumes "kfrees s (x # xs)"
  shows "\<exists>t. kalloc s = Done x t \<and> kfrees t xs \<and> mem_only s t \<and> mem t = mem s"
proof -
  have "kalloc s = Done x (s\<lparr>hw := khw s, mem := mem s, kmem := (kmem s)\<lparr>freelist := load32 (mem s) x\<rparr>\<rparr>)"
    using kalloc_run [of s] assms by (auto simp: kfrees_def kmem_inv_def)
  then show ?thesis using kal.alloc_some [OF assms] mem_onlyI [OF khw_cases] by fastforce
qed

lemma kalloc_empty:
  assumes "kfrees s []"
  shows "\<exists>t. kalloc s = Done 0 t \<and> kfrees t [] \<and> mem_only s t \<and> mem t = mem s"
proof -
  have "kalloc s = Done 0 (s\<lparr>hw := khw s, mem := mem s, kmem := kmem s\<rparr>)"
    using kalloc_run [of s] assms by (auto simp: kfrees_def kmem_inv_def)
  then show ?thesis using kal.alloc_none [OF assms] mem_onlyI [OF khw_cases] by fastforce
qed

lemma kfrees_mem:
  assumes "kfrees s xs" "\<And>a x. x \<in> set xs \<Longrightarrow> in_page x a \<Longrightarrow> m a = mem s a"
  shows "kfrees (s\<lparr>mem := m\<rparr>) xs"
proof -
  have "load32 m x = load32 (mem s) x" if "x \<in> set xs" for x
    using load_cell_cong [of x 0 m "mem s"] assms that by (auto simp: kfrees_def kmem_inv_def kpage_def)
  then show ?thesis using assms(1) chain_cong [of xs m "mem s"] by (simp add: kfrees_def kmem_inv_def kmem_ready_def)
qed

lemma walkpgdir_found:
  "tbl (mem s) pd (vpn va div 1024) = Some t \<Longrightarrow> walkpgdir pd va alloc s = Done (t + 4 * of_nat (vpn va mod 1024)) s"
  by (auto simp: walkpgdir_def Let_def tbl_def pde_def PDX_vpn PTX_vpn split: if_splits)

lemma walkpgdir_none: "tbl (mem s) pd (vpn va div 1024) = None \<Longrightarrow> walkpgdir pd va False s = Done 0 s"
  by (auto simp: walkpgdir_def Let_def tbl_def pde_def PDX_vpn split: if_splits)

lemma walkpgdir_full:
  assumes "tbl (mem s) pd (vpn va div 1024) = None" "kfrees s []"
  shows "\<exists>t. walkpgdir pd va True s = Done 0 t \<and> kfrees t [] \<and> mem_only s t \<and> mem t = mem s"
  using kalloc_empty [OF assms(2)] assms(1) by (auto simp: walkpgdir_def Let_def tbl_def pde_def PDX_vpn split: if_splits)

text \<open>A new page table: the directory entry points to the page taken from the allocator, which is cleared, so that no
  page's entry changes.\<close>

lemma new_table:
  assumes "pgdir_ok s pd (x # xs)" "tbl (mem s) pd i = None" "i < 1024"
  defines "m \<equiv> store32 (pd + 4 * of_nat i) (V2P x OR PTE_P OR PTE_W OR PTE_U) (memset x 0 PGSIZE (mem s))"
  shows "tbl m pd i = Some x" "\<And>j. j < 1024 \<Longrightarrow> j \<noteq> i \<Longrightarrow> tbl m pd j = tbl (mem s) pd j"
    "\<And>n. n < 1048576 \<Longrightarrow> pte m pd n = pte (mem s) pd n"
    "\<And>a. \<not> in_page pd a \<Longrightarrow> \<not> in_page x a \<Longrightarrow> m a = mem s a"
proof -
  have al: "pd mod PGSIZE = 0" "x mod PGSIZE = 0" "pd \<noteq> x"
    using assms(1) by (auto simp: pgdir_ok_def kfrees_def kmem_inv_def kpage_def)
  have tal: "t mod PGSIZE = 0 \<and> t \<noteq> x \<and> t \<noteq> pd" if "tbl (mem s) pd j = Some t" "j < 1024" for t j
    using assms(1) that by (auto simp: pgdir_ok_def kpage_def)
  show fr: "m a = mem s a" if "\<not> in_page pd a" "\<not> in_page x a" for a
    using that store_cell_frame [OF al(1) assms(3)] by (simp add: m_def memset_spec in_page_def)
  have set: "memset x 0 PGSIZE (mem s) a = mem s a" if "\<not> in_page x a" for a
    using that by (simp add: memset_spec in_page_def)
  have "pde m pd i = V2P x OR PTE_P OR PTE_W OR PTE_U"
    using load_store_cell [OF al(1,1) assms(3,3)] by (simp add: pde_def m_def)
  then have "tbl m pd i = Some (P2V (PTE_ADDR (V2P x OR PTE_P OR PTE_W OR PTE_U)))"
    using present_or(2) [of "V2P x" "PTE_W OR PTE_U"] by (simp add: tbl_def present_def)
  then show i: "tbl m pd i = Some x"
    using PTE_ADDR_or [OF V2P_aligned [OF al(2)], of "PTE_P OR PTE_W OR PTE_U"] by (simp add: pte_defs)
  show o: "tbl m pd j = tbl (mem s) pd j" if "j < 1024" "j \<noteq> i" for j
  proof (rule tbl_cong)
    have "pde m pd j = pde (memset x 0 PGSIZE (mem s)) pd j"
      using load_store_cell [OF al(1,1) assms(3) that(1)] that(2) by (simp add: pde_def m_def)
    also have "\<dots> = pde (mem s) pd j"
      using pages_apart [OF al(1,2,3)] set by (intro pde_cong al(1) that(1)) blast
    finally show "pde m pd j = pde (mem s) pd j" .
  qed
  show "pte m pd n = pte (mem s) pd n" if "n < 1048576" for n
  proof (cases "n div 1024 = i")
    case True
    have "load32 m (x + 4 * of_nat (n mod 1024)) = 0"
      using load_store_cell [OF al(1,2) assms(3), of "n mod 1024"] al(3) load_zeroed [OF al(2)] by (simp add: m_def)
    then show ?thesis using True i assms(2) by (simp add: pte_def)
  next
    case False
    have d: "n div 1024 < 1024" using that by (simp add: less_mult_imp_div_less)
    show ?thesis
    proof (rule pte_cong)
      show "tbl m pd (n div 1024) = tbl (mem s) pd (n div 1024)" by (rule o [OF d False])
      fix t assume "tbl m pd (n div 1024) = Some t"
      then have t: "t mod PGSIZE = 0" "t \<noteq> x" "t \<noteq> pd" using tal o [OF d False] d by auto
      then show "t mod PGSIZE = 0 \<and> (\<forall>a. in_page t a \<longrightarrow> m a = mem s a)"
        using pages_apart [of t x] pages_apart [of t pd] fr al by metis
    qed
  qed
qed

text \<open>The pages of an address space's tables, and the invariant after a change of memory that keeps the directory.\<close>

definition tables :: "memory \<Rightarrow> u32 \<Rightarrow> u32 set" where
  "tables m pd = {t. \<exists>i<1024. tbl m pd i = Some t}"

text \<open>How an operation that may add page tables moves on: it takes pages from the front of the free list, and changes only
  the directory, the tables and the pages it takes.\<close>

definition extends :: "u32 \<Rightarrow> 'z kmemst_scheme \<Rightarrow> u32 list \<Rightarrow> 'z kmemst_scheme \<Rightarrow> u32 list \<Rightarrow> bool" where
  "extends pd s xs t ys \<longleftrightarrow> pgdir_ok t pd ys \<and> mem_only s t \<and> tables (mem s) pd \<subseteq> tables (mem t) pd \<and>
     set ys \<union> tables (mem t) pd = set xs \<union> tables (mem s) pd \<and> (\<exists>k. ys = drop k xs) \<and>
     (\<forall>a. \<not> in_page pd a \<and> (\<forall>x\<in>set xs \<union> tables (mem s) pd. \<not> in_page x a) \<longrightarrow> mem t a = mem s a)"

lemma extends_refl: "pgdir_ok s pd xs \<Longrightarrow> extends pd s xs s xs"
  by (auto simp: extends_def intro: exI [of _ 0])

lemma extends_trans:
  assumes "extends pd s xs t ys" "extends pd t ys u zs"
  shows "extends pd s xs u zs"
proof -
  obtain k where k: "ys = drop k xs" using assms(1) by (auto simp: extends_def)
  then have ys: "set ys \<subseteq> set xs" by (simp add: set_drop_subset)
  have "\<exists>k. zs = drop k xs" using assms(2) k by (auto simp: extends_def)
  moreover have "mem u a = mem s a" if "\<not> in_page pd a" "\<forall>x\<in>set xs \<union> tables (mem s) pd. \<not> in_page x a" for a
  proof -
    have "\<forall>x\<in>set ys \<union> tables (mem t) pd. \<not> in_page x a" using that assms(1) ys by (auto simp: extends_def)
    then show ?thesis using assms that by (auto simp: extends_def)
  qed
  ultimately show ?thesis using assms ys mem_only_trans [of s t u] by (auto simp: extends_def)
qed

lemma walkpgdir_alloc:
  assumes "pgdir_ok s pd xs"
  shows "\<exists>r t ys. walkpgdir pd va True s = Done r t \<and> extends pd s xs t ys \<and>
    (\<forall>n<1048576. pte (mem t) pd n = pte (mem s) pd n) \<and>
    (if r = 0 then xs = [] \<and> mem t = mem s
     else \<exists>p. tbl (mem t) pd (vpn va div 1024) = Some p \<and> r = p + 4 * of_nat (vpn va mod 1024))"
proof (cases "tbl (mem s) pd (vpn va div 1024)")
  case (Some p)
  have "p mod PGSIZE = 0" "p \<noteq> 0" using assms Some vpn_div_less [of va] by (auto simp: pgdir_ok_def kpage_def)
  then have "p + 4 * of_nat (vpn va mod 1024) \<noteq> 0" using cell_eq [of p 0 "vpn va mod 1024" 0] by simp
  then show ?thesis using walkpgdir_found [OF Some] extends_refl [OF assms] Some
    by (intro exI [of _ "p + 4 * of_nat (vpn va mod 1024)"] exI [of _ s] exI [of _ xs]) auto
next
  case None
  show ?thesis
  proof (cases xs)
    case Nil
    then obtain t where "walkpgdir pd va True s = Done 0 t" "kfrees t []" "mem_only s t" "mem t = mem s"
      using walkpgdir_full [OF None] assms by (auto simp: pgdir_ok_def)
    moreover from this have "pgdir_ok t pd []" using assms Nil by (auto simp: pgdir_ok_def mem_only_kend)
    ultimately show ?thesis using Nil by (intro exI [of _ 0] exI [of _ t] exI [of _ "[]"]) (auto simp: extends_def)
  next
    case (Cons x ys)
    let ?i = "vpn va div 1024"
    let ?m = "store32 (pd + 4 * of_nat ?i) (V2P x OR PTE_P OR PTE_W OR PTE_U) (memset x 0 PGSIZE (mem s))"
    have ok: "pgdir_ok s pd (x # ys)" and i: "?i < 1024" using assms Cons vpn_div_less by simp_all
    note new = new_table [OF ok None i]
    have x: "kpage (kend s) x" "x \<notin> set ys" "x \<noteq> pd" "\<And>j. j < 1024 \<Longrightarrow> tbl (mem s) pd j \<noteq> Some x"
      using ok by (auto simp: pgdir_ok_def kfrees_def kmem_inv_def)
    obtain t where t: "kalloc s = Done x t" "kfrees t ys" "mem_only s t" "mem t = mem s"
      using kalloc_mem_only [of s x ys] ok by (auto simp: pgdir_ok_def)
    have w: "walkpgdir pd va True s = Done (x + 4 * of_nat (vpn va mod 1024)) (t\<lparr>mem := ?m\<rparr>)"
      using None t x(1) by (auto simp: walkpgdir_def Let_def tbl_def pde_def PDX_vpn PTX_vpn kpage_def split: if_splits)
    have "kfrees (t\<lparr>mem := ?m\<rparr>) ys"
    proof (rule kfrees_mem [OF t(2)])
      fix a y assume y: "y \<in> set ys" "in_page y a"
      then have "y mod PGSIZE = 0" "y \<noteq> x" "y \<noteq> pd" using ok x by (auto simp: pgdir_ok_def kfrees_def kmem_inv_def kpage_def)
      then show "?m a = mem t a"
        using new(4) [of a] pages_apart [of y x a] pages_apart [of y pd a] y(2) ok x(1) t(4) by (simp add: pgdir_ok_def kpage_def)
    qed
    moreover have tb: "tbl ?m pd j = (if j = ?i then Some x else tbl (mem s) pd j)" if "j < 1024" for j using new(1,2) that by simp
    ultimately have "pgdir_ok (t\<lparr>mem := ?m\<rparr>) pd ys"
      using ok x mem_only_kend [OF t(3)] by (auto simp: pgdir_ok_def split: if_splits)
    moreover have "mem_only s (t\<lparr>mem := ?m\<rparr>)" using t(3) mem_only_mem by (rule mem_only_trans)
    moreover have "x + 4 * of_nat (vpn va mod 1024) \<noteq> 0" using cell_eq [of x 0 "vpn va mod 1024" 0] x(1) by (simp add: kpage_def)
    moreover have "tables (mem s) pd \<subseteq> tables ?m pd" using tb None by (fastforce simp: tables_def)
    moreover have "tables ?m pd = insert x (tables (mem s) pd)"
      using tb None i by (auto simp: tables_def split: if_splits) (metis option.distinct(1))
    moreover have "\<exists>k. ys = drop k xs" using Cons by (intro exI [of _ 1]) simp
    ultimately show ?thesis using w new Cons unfolding extends_def
      by (intro exI [of _ "x + 4 * of_nat (vpn va mod 1024)"] exI [of _ "t\<lparr>mem := ?m\<rparr>"] exI [of _ ys]) simp
  qed
qed

section \<open>Setting an entry\<close>

lemma set_pte:
  fixes e :: u32
  assumes "pgdir_ok s pd xs" "tbl (mem s) pd (n div 1024) = Some p" "n < 1048576"
  defines "m \<equiv> store32 (p + 4 * of_nat (n mod 1024)) e (mem s)"
  shows "\<And>k. k < 1048576 \<Longrightarrow> pte m pd k = (if k = n then e else pte (mem s) pd k)"
    "extends pd s xs (s\<lparr>mem := m\<rparr>) xs" "\<And>i. i < 1024 \<Longrightarrow> tbl m pd i = tbl (mem s) pd i"
proof -
  have n: "n div 1024 < 1024" using assms(3) by (simp add: less_mult_imp_div_less)
  have p: "p mod PGSIZE = 0" "p \<noteq> pd" "p \<notin> set xs" "pd mod PGSIZE = 0"
    using assms(1,2) n by (auto simp: pgdir_ok_def kpage_def)
  have fr: "m a = mem s a" if "\<not> in_page p a" for a
    using that store_cell_frame [OF p(1), of "n mod 1024"] by (simp add: m_def)
  show tb: "tbl m pd i = tbl (mem s) pd i" if "i < 1024" for i
    using pages_apart [OF p(4,1) p(2) [symmetric]] fr by (intro tbl_cong pde_cong p(4) that) blast
  show "pte m pd k = (if k = n then e else pte (mem s) pd k)" if k: "k < 1048576" for k
  proof -
    have d: "k div 1024 < 1024" using k by (simp add: less_mult_imp_div_less)
    show ?thesis
    proof (cases "tbl (mem s) pd (k div 1024)")
      case None
      then show ?thesis using tb [OF d] assms(2) by (auto simp: pte_def)
    next
      case (Some q)
      have q: "q mod PGSIZE = 0" "q = p \<longleftrightarrow> k div 1024 = n div 1024"
        using assms(1,2) Some d n by (auto simp: pgdir_ok_def kpage_def)
      have "k = n \<longleftrightarrow> k div 1024 = n div 1024 \<and> k mod 1024 = n mod 1024" by (metis div_mult_mod_eq)
      then show ?thesis using load_store_cell [OF p(1) q(1), of "n mod 1024" "k mod 1024" e "mem s"] tb [OF d] Some q(2)
        by (auto simp: pte_def m_def)
    qed
  qed
  have "kfrees (s\<lparr>mem := m\<rparr>) xs"
  proof (rule kfrees_mem)
    show "kfrees s xs" using assms(1) by (simp add: pgdir_ok_def)
    fix a x assume x: "x \<in> set xs" "in_page x a"
    then have "x mod PGSIZE = 0" "x \<noteq> p" using assms(1) p(3) by (auto simp: pgdir_ok_def kfrees_def kmem_inv_def kpage_def)
    then show "m a = mem s a" using pages_apart [of x p a] p(1) x(2) fr by metis
  qed
  then have "pgdir_ok (s\<lparr>mem := m\<rparr>) pd xs" using assms(1) tb by (auto simp: pgdir_ok_def)
  moreover have "tables m pd = tables (mem s) pd" using tb by (auto simp: tables_def)
  moreover have "p \<in> tables (mem s) pd" using assms(2) n by (auto simp: tables_def)
  ultimately show "extends pd s xs (s\<lparr>mem := m\<rparr>) xs"
    using fr mem_only_mem [of s m] by (auto simp: extends_def intro: exI [of _ 0])
qed

lemma map_one_run:
  assumes "pgdir_ok s pd xs" "\<not> present (pte (mem s) pd (vpn a))"
  shows "\<exists>r t ys. map_one pd fl a pa s = Done r t \<and> extends pd s xs t ys \<and>
    (case r of None \<Rightarrow> \<forall>n<1048576. pte (mem t) pd n = (if n = vpn a then pa OR fl OR PTE_P else pte (mem s) pd n)
     | Some e \<Rightarrow> e = -1 \<and> xs = [] \<and> mem t = mem s)"
proof -
  obtain r t ys where w: "walkpgdir pd a True s = Done r t" "extends pd s xs t ys"
    "\<forall>n<1048576. pte (mem t) pd n = pte (mem s) pd n"
    "if r = 0 then xs = [] \<and> mem t = mem s else \<exists>p. tbl (mem t) pd (vpn a div 1024) = Some p \<and> r = p + 4 * of_nat (vpn a mod 1024)"
    using walkpgdir_alloc [OF assms(1), of a] by blast
  show ?thesis
  proof (cases "r = 0")
    case True
    then have "map_one pd fl a pa s = Done (Some (-1)) t" using w(1) by (simp add: map_one_def)
    then show ?thesis using w True by (intro exI [of _ "Some (-1)"] exI [of _ t] exI [of _ ys]) simp
  next
    case False
    then obtain p where p: "tbl (mem t) pd (vpn a div 1024) = Some p" "r = p + 4 * of_nat (vpn a mod 1024)" using w(4) by auto
    have ok: "pgdir_ok t pd ys" using w(2) by (simp add: extends_def)
    have "load32 (mem t) r = pte (mem t) pd (vpn a)" using p by (simp add: pte_def)
    then have np: "\<not> present (load32 (mem t) r)" using assms(2) w(3) vpn_less by simp
    let ?t = "t\<lparr>mem := store32 r (pa OR fl OR PTE_P) (mem t)\<rparr>"
    have "map_one pd fl a pa s = Done None ?t" using w(1) False np by (simp add: map_one_def present_def)
    moreover have "extends pd s xs ?t ys" using extends_trans [OF w(2)] set_pte(2) [OF ok p(1) vpn_less] p(2) by simp
    moreover have "\<forall>n<1048576. pte (mem ?t) pd n = (if n = vpn a then pa OR fl OR PTE_P else pte (mem s) pd n)"
      using set_pte(1) [OF ok p(1) vpn_less] w(3) p(2) by simp
    ultimately show ?thesis by (intro exI [of _ None] exI [of _ ?t] exI [of _ ys]) simp
  qed
qed

section \<open>Mapping a range\<close>

text \<open>The entries after \<open>c\<close> pages from page \<open>n\<close> on have been mapped to physical memory from \<open>pa\<close> on.\<close>

definition mapped :: "(nat \<Rightarrow> u32) \<Rightarrow> nat \<Rightarrow> nat \<Rightarrow> u32 \<Rightarrow> u32 \<Rightarrow> nat \<Rightarrow> u32" where
  "mapped f n c pa fl k = (if n \<le> k \<and> k < n + c then (pa + (of_nat k - of_nat n) * PGSIZE) OR fl OR PTE_P else f k)"

lemma mapped_0 [simp]: "mapped f n 0 pa fl = f"
  by (rule ext) (auto simp: mapped_def)

lemma vpn_add:
  assumes "unat a + 4096 * k < 2 ^ 32"
  shows "vpn (a + of_nat k * PGSIZE) = vpn a + k"
proof -
  have "unat (a + of_nat (4096 * k)) = unat a + 4096 * k" using assms by (rule unat_offset)
  then show ?thesis by (simp add: vpn_def PGSIZE_def mult.commute)
qed

lemma map_loop_run:
  assumes "pgdir_ok s pd xs" "unat a + 4096 * c < 2 ^ 32 + 4096" "j \<le> c"
    "\<forall>k<c. j \<le> k \<longrightarrow> \<not> present (pte (mem s) pd (vpn a + k))"
  shows "\<exists>r t ys k. searchK [j..<c] (\<lambda>k. map_one pd fl (a + of_nat k * PGSIZE) (pa + of_nat k * PGSIZE)) s = Done r t \<and>
    extends pd s xs t ys \<and> (r = None \<and> k = c \<or> r = Some (-1) \<and> k < c \<and> ys = []) \<and> j \<le> k \<and>
    (\<forall>n<1048576. pte (mem t) pd n = mapped (pte (mem s) pd) (vpn a + j) (k - j) (pa + of_nat j * PGSIZE) fl n)"
  using assms
proof (induction "c - j" arbitrary: j s xs)
  case 0
  then show ?case by (intro exI [of _ None] exI [of _ s] exI [of _ xs] exI [of _ c]) (simp add: extends_refl)
next
  case (Suc d)
  let ?f = "\<lambda>k. map_one pd fl (a + of_nat k * PGSIZE) (pa + of_nat k * PGSIZE)"
  let ?a = "a + of_nat j * PGSIZE"
  have j: "j < c" "[j..<c] = j # [Suc j..<c]" using Suc by (simp_all add: upt_conv_Cons)
  have va: "vpn ?a = vpn a + j" using Suc.prems(2) j(1) by (intro vpn_add) simp
  obtain r t ys where m: "?f j s = Done r t" "extends pd s xs t ys"
    "case r of None \<Rightarrow> \<forall>n<1048576. pte (mem t) pd n = (if n = vpn ?a then (pa + of_nat j * PGSIZE) OR fl OR PTE_P else pte (mem s) pd n)
     | Some e \<Rightarrow> e = -1 \<and> xs = [] \<and> mem t = mem s"
    using map_one_run [OF Suc.prems(1), of ?a fl "pa + of_nat j * PGSIZE"] Suc.prems(4) j(1) va by auto
  show ?case
  proof (cases r)
    case (Some e)
    then have "searchK [j..<c] ?f s = Done (Some (-1)) t" using m j by simp
    then show ?thesis using m Some j(1)
      by (intro exI [of _ "Some (-1)"] exI [of _ t] exI [of _ ys] exI [of _ j]) (auto simp: extends_def)
  next
    case None
    have p: "pte (mem t) pd n = (if n = vpn a + j then (pa + of_nat j * PGSIZE) OR fl OR PTE_P else pte (mem s) pd n)" if "n < 1048576" for n
      using m(3) None va that by simp
    have "vpn a + k < 1048576" if "k < c" for k using vpn_add [of a k] vpn_less [of "a + of_nat k * PGSIZE"] Suc.prems(2) that by simp
    then have np: "\<forall>k<c. Suc j \<le> k \<longrightarrow> \<not> present (pte (mem t) pd (vpn a + k))" using p Suc.prems(4) by simp
    have "pgdir_ok t pd ys" "d = c - Suc j" "Suc j \<le> c" using m(2) Suc.hyps(2) j(1) by (simp_all add: extends_def)
    then obtain r' u zs k where i: "searchK [Suc j..<c] ?f t = Done r' u" "extends pd t ys u zs"
      "r' = None \<and> k = c \<or> r' = Some (-1) \<and> k < c \<and> zs = []" "Suc j \<le> k"
      "\<forall>n<1048576. pte (mem u) pd n = mapped (pte (mem t) pd) (vpn a + Suc j) (k - Suc j) (pa + of_nat (Suc j) * PGSIZE) fl n"
      using Suc.hyps(1) [of "Suc j" t ys] Suc.prems(2) np by blast
    have "pte (mem u) pd n = mapped (pte (mem s) pd) (vpn a + j) (k - j) (pa + of_nat j * PGSIZE) fl n" if n: "n < 1048576" for n
    proof -
      have "(pa + of_nat (Suc j) * PGSIZE + (of_nat n - of_nat (vpn a + Suc j)) * PGSIZE) OR fl OR PTE_P =
          (pa + of_nat j * PGSIZE + (of_nat n - of_nat (vpn a + j)) * PGSIZE) OR fl OR PTE_P"
        by (simp add: algebra_simps)
      then show ?thesis using i(4,5) p n by (auto simp: mapped_def simp del: of_nat_Suc of_nat_add)
    qed
    then show ?thesis using i m None j extends_trans [OF m(2) i(2)]
      by (intro exI [of _ r'] exI [of _ u] exI [of _ zs] exI [of _ k]) auto
  qed
qed

lemma mappages_run:
  assumes "pgdir_ok s pd xs" "0 < n" "unat va + unat n \<le> 2 ^ 32"
    "\<forall>k. vpn va \<le> k \<and> k \<le> vpn (va + n - 1) \<longrightarrow> \<not> present (pte (mem s) pd k)"
  shows "\<exists>r t ys c. mappages pd va n pa fl s = Done r t \<and> extends pd s xs t ys \<and>
    (r = 0 \<and> c = Suc (vpn (va + n - 1)) - vpn va \<or> r = -1 \<and> c < Suc (vpn (va + n - 1)) - vpn va \<and> ys = []) \<and>
    (\<forall>k<1048576. pte (mem t) pd k = mapped (pte (mem s) pd) (vpn va) c pa fl k)"
proof -
  let ?a = "PGROUNDDOWN va" and ?l = "PGROUNDDOWN (va + n - 1)"
  let ?c = "unat (?l - ?a) div 4096 + 1"
  have rd: "unat (PGROUNDDOWN v) = 4096 * vpn v" for v
    by (simp add: unat_PGROUNDDOWN vpn_def minus_mod_eq_mult_div)
  have vr: "vpn (PGROUNDDOWN v) = vpn v" for v using rd [of v] by (simp add: vpn_def)
  have e: "unat (va + n - 1) = unat va + unat n - 1"
  proof -
    have "1 \<le> unat n" using assms(2) by (simp add: word_less_nat_alt)
    then have "va + n - 1 = va + of_nat (unat n - 1)" by (simp add: of_nat_diff)
    moreover have "unat (va + of_nat (unat n - 1)) = unat va + (unat n - 1)"
      using assms(3) \<open>1 \<le> unat n\<close> by (intro unat_offset) simp
    ultimately show ?thesis using \<open>1 \<le> unat n\<close> by (metis Nat.add_diff_assoc)
  qed
  then have le: "vpn va \<le> vpn (va + n - 1)" using assms(2) by (auto simp: vpn_def word_less_nat_alt intro!: div_le_mono)
  then have "unat (?l - ?a) = 4096 * (vpn (va + n - 1) - vpn va)"
    using rd by (subst unat_sub) (simp_all add: word_le_nat_alt diff_mult_distrib2)
  then have c: "?c = Suc (vpn (va + n - 1)) - vpn va" using le by simp
  have "unat ?a + 4096 * ?c = 4096 * vpn (va + n - 1) + 4096" using rd [of va] le unfolding c by simp
  moreover have "4096 * vpn (va + n - 1) < 2 ^ 32" using unat32_less [of ?l] rd [of "va + n - 1"] by simp
  ultimately obtain r t ys k where l: "searchK [0..<?c] (\<lambda>k. map_one pd fl (?a + of_nat k * PGSIZE) (pa + of_nat k * PGSIZE)) s = Done r t"
    "extends pd s xs t ys" "r = None \<and> k = ?c \<or> r = Some (-1) \<and> k < ?c \<and> ys = []"
    "\<forall>n<1048576. pte (mem t) pd n = mapped (pte (mem s) pd) (vpn va) k pa fl n"
    using map_loop_run [OF assms(1), of ?a ?c 0 fl pa] assms(4) c le by (auto simp: vr)
  moreover have "mappages pd va n pa fl s = Done (case r of Some e \<Rightarrow> e | None \<Rightarrow> 0) t"
    using l(1) unfolding mappages_def Let_def c by simp
  ultimately show ?thesis unfolding c
    by (intro exI [of _ "case r of Some e \<Rightarrow> e | None \<Rightarrow> 0"] exI [of _ t] exI [of _ ys] exI [of _ k]) auto
qed

section \<open>Giving up pages\<close>

lemma mem_only_freed: "mem_only s (freed v s)"
  unfolding freed_def by (rule mem_onlyI [OF khw_cases])

lemma tbl_tables: "tbl m pd i = Some t \<Longrightarrow> i < 1024 \<Longrightarrow> t \<in> tables m pd"
  by (auto simp: tables_def)

text \<open>Freeing a page that is no table of the address space.\<close>

lemma kfree_other:
  assumes "pgdir_ok s pd xs" "kpage (kend s) v" "v \<notin> set xs" "v \<noteq> pd" "v \<notin> tables (mem s) pd"
  shows "kfree v s = Done () (freed v s)" "pgdir_ok (freed v s) pd (v # xs)"
    "\<And>i. i < 1024 \<Longrightarrow> tbl (mem (freed v s)) pd i = tbl (mem s) pd i"
    "\<And>n. n < 1048576 \<Longrightarrow> pte (mem (freed v s)) pd n = pte (mem s) pd n"
proof -
  have v: "v mod PGSIZE = 0" using assms(2) by (rule kpage_aligned)
  have pd: "pd mod PGSIZE = 0" using assms(1) by (auto simp: pgdir_ok_def kpage_def)
  have k: "kmem_ready s" "kmem_inv s xs" using assms(1) by (simp_all add: pgdir_ok_def kfrees_def)
  show "kfree v s = Done () (freed v s)" by (rule kfree_run [OF k(1) assms(2)])
  have apart: "mem (freed v s) a = mem s a" if "w mod PGSIZE = 0" "w \<noteq> v" "in_page w a" for w a
    using freed_frame [OF v] pages_apart [OF that(1) v that(2,3)] by blast
  show tb: "tbl (mem (freed v s)) pd i = tbl (mem s) pd i" if "i < 1024" for i
    using apart [of pd] assms(4) pd by (intro tbl_cong pde_cong pd that) auto
  show "pte (mem (freed v s)) pd n = pte (mem s) pd n" if "n < 1048576" for n
  proof -
    have d: "n div 1024 < 1024" using that by (simp add: less_mult_imp_div_less)
    show ?thesis
    proof (rule pte_cong)
      show "tbl (mem (freed v s)) pd (n div 1024) = tbl (mem s) pd (n div 1024)" by (rule tb [OF d])
      fix t assume "tbl (mem (freed v s)) pd (n div 1024) = Some t"
      then have t: "tbl (mem s) pd (n div 1024) = Some t" using tb [OF d] by simp
      then have "t mod PGSIZE = 0" "t \<noteq> v" using assms(1,5) d tbl_tables [OF t d] by (auto simp: pgdir_ok_def kpage_def)
      then show "t mod PGSIZE = 0 \<and> (\<forall>a. in_page t a \<longrightarrow> mem (freed v s) a = mem s a)" using apart by simp
    qed
  qed
  have "kfrees (freed v s) (v # xs)" using kmem_inv_freed [OF k(2) assms(2,3)] k(1) by (simp add: kfrees_def)
  then show "pgdir_ok (freed v s) pd (v # xs)" using assms tb by (auto simp: pgdir_ok_def tables_def)
qed

text \<open>The pages of the user half and the pages an address space owns.\<close>

definition uframes :: "memory \<Rightarrow> u32 \<Rightarrow> u32 set" where
  "uframes m pd = {frame (pte m pd n) | n. n < 524288 \<and> present (pte m pd n)}"

definition owned :: "memory \<Rightarrow> u32 \<Rightarrow> u32 set" where
  "owned m pd = insert pd (tables m pd \<union> uframes m pd)"

text \<open>The invariant of an address space with user memory: no user page is free, a table, or mapped twice.\<close>

definition uvm_ok :: "'z kmemst_scheme \<Rightarrow> u32 \<Rightarrow> u32 list \<Rightarrow> bool" where
  "uvm_ok s pd xs \<longleftrightarrow> pgdir_ok s pd xs \<and> KERNBASE < kend s \<and>
     (\<forall>n<524288. present (pte (mem s) pd n) \<longrightarrow>
        kpage (kend s) (frame (pte (mem s) pd n)) \<and> frame (pte (mem s) pd n) \<notin> set xs \<union> insert pd (tables (mem s) pd)) \<and>
     (\<forall>n<524288. \<forall>k<524288. present (pte (mem s) pd n) \<and> present (pte (mem s) pd k) \<and>
        frame (pte (mem s) pd n) = frame (pte (mem s) pd k) \<longrightarrow> n = k)"

lemma uvm_okD:
  assumes "uvm_ok s pd xs" "n < 524288" "present (pte (mem s) pd n)"
  shows "kpage (kend s) (frame (pte (mem s) pd n))" "frame (pte (mem s) pd n) \<notin> set xs" "frame (pte (mem s) pd n) \<noteq> pd"
    "frame (pte (mem s) pd n) \<notin> tables (mem s) pd"
    "\<And>k. k < 524288 \<Longrightarrow> present (pte (mem s) pd k) \<Longrightarrow> frame (pte (mem s) pd n) = frame (pte (mem s) pd k) \<Longrightarrow> n = k"
  using assms by (auto simp: uvm_ok_def)

lemma drop_page:
  assumes "uvm_ok s pd xs" "n < 524288" "present (pte (mem s) pd n)" "tbl (mem s) pd (n div 1024) = Some p"
  defines "f \<equiv> frame (pte (mem s) pd n)"
  defines "t \<equiv> (freed f s)\<lparr>mem := store32 (p + 4 * of_nat (n mod 1024)) 0 (mem (freed f s))\<rparr>"
  shows "kfree f s = Done () (freed f s)" "mem_only s t" "tables (mem t) pd = tables (mem s) pd"
    "\<And>k. k < 1048576 \<Longrightarrow> pte (mem t) pd k = (if k = n then 0 else pte (mem s) pd k)"
    "uvm_ok t pd (f # xs)" "\<And>a. \<not> in_page p a \<Longrightarrow> \<not> in_page f a \<Longrightarrow> mem t a = mem s a"
proof -
  have ok: "pgdir_ok s pd xs" using assms(1) by (simp add: uvm_ok_def)
  have n: "n < 1048576" "n div 1024 < 1024" using assms(2) by (simp_all add: less_mult_imp_div_less)
  note f = uvm_okD [OF assms(1-3), folded f_def]
  note k = kfree_other [OF ok f(1-4)]
  have p': "tbl (mem (freed f s)) pd (n div 1024) = Some p" using k(3) [OF n(2)] assms(4) by simp
  note st = set_pte [OF k(2) p' n(1), where e = 0]
  show "kfree f s = Done () (freed f s)" by (rule k(1))
  show "mem_only s t" unfolding t_def by (rule mem_only_trans [OF mem_only_freed mem_only_mem])
  show tabs: "tables (mem t) pd = tables (mem s) pd" using st(3) k(3) by (simp add: t_def tables_def cong: conj_cong)
  show p: "pte (mem t) pd k = (if k = n then 0 else pte (mem s) pd k)" if "k < 1048576" for k
    using st(1) [OF that] k(4) [OF that] by (simp add: t_def)
  have kend: "kend t = kend s" by (simp add: t_def)
  have "pgdir_ok t pd (f # xs)" using st(2) by (simp add: extends_def t_def)
  moreover have "frame (pte (mem s) pd k) \<noteq> f" if "k < 524288" "present (pte (mem s) pd k)" "k \<noteq> n" for k using f(5) [of k] that by metis
  ultimately show "uvm_ok t pd (f # xs)"
    using assms(1) uvm_okD [OF assms(1)] p by (auto simp: uvm_ok_def kend tabs split: if_splits)
  have "p mod PGSIZE = 0" "f mod PGSIZE = 0" using ok assms(4) n(2) f(1) by (auto simp: pgdir_ok_def kpage_def)
  then show "mem t a = mem s a" if "\<not> in_page p a" "\<not> in_page f a" for a
    using that store_cell_frame [of p "n mod 1024" a] freed_frame [of f a s] by (simp add: t_def)
qed

lemma PTE_ADDR_0: "PTE_ADDR e = 0 \<longleftrightarrow> frame e = KERNBASE"
  by (simp add: frame_def P2V_def)

lemma next_table:
  assumes "vpn a < 524288"
  shows "unat (PGADDR (PDX a + 1) 0 0) = 4096 * (1024 * (vpn a div 1024 + 1))"
proof -
  have d: "vpn a div 1024 < 512" using assms by (simp add: less_mult_imp_div_less)
  have "PDX a + 1 = of_nat (vpn a div 1024 + 1)" by (simp add: PDX_vpn)
  then have "PGADDR (PDX a + 1) 0 0 = of_nat (4194304 * (vpn a div 1024 + 1))"
    by (simp add: PGADDR_def push_bit_eq_mult)
  moreover have "4194304 * (vpn a div 1024 + 1) < 2 ^ 32" using d by simp
  ultimately have "unat (PGADDR (PDX a + 1) 0 0) = 4194304 * (vpn a div 1024 + 1)"
    using unat_offset [of 0 "4194304 * (vpn a div 1024 + 1)"] by simp
  then show ?thesis by simp
qed

lemma vpn_aligned: "unat a = 4096 * n \<Longrightarrow> vpn a = n"
  by (simp add: vpn_def)

text \<open>The number of pages below a size, and what unmapping the user pages from \<open>n\<close> up to \<open>c\<close> does: their entries are cleared and
  their frames are free, the tables stay, and no other memory changes.\<close>

definition pages :: "u32 \<Rightarrow> nat" where
  "pages n = (unat n + 4095) div 4096"

lemma less_pages: "k < pages n \<longleftrightarrow> 4096 * k < unat n"
  using less_eq_div_iff_mult_less_eq [of 4096 "Suc k" "unat n + 4095"] by (auto simp: pages_def Suc_le_eq)

definition unmapped :: "u32 \<Rightarrow> nat \<Rightarrow> nat \<Rightarrow> 'z kmemst_scheme \<Rightarrow> u32 list \<Rightarrow> 'z kmemst_scheme \<Rightarrow> u32 list \<Rightarrow> bool" where
  "unmapped pd n c s xs t ys \<longleftrightarrow> uvm_ok t pd ys \<and> mem_only s t \<and> tables (mem t) pd = tables (mem s) pd \<and>
     (\<forall>k<1048576. pte (mem t) pd k = (if n \<le> k \<and> k < c \<and> present (pte (mem s) pd k) then 0 else pte (mem s) pd k)) \<and>
     set ys = set xs \<union> {frame (pte (mem s) pd k) | k. n \<le> k \<and> k < c \<and> present (pte (mem s) pd k)} \<and>
     (\<forall>b. (\<forall>p\<in>tables (mem s) pd. \<not> in_page p b) \<and>
       (\<forall>k. n \<le> k \<and> k < c \<and> present (pte (mem s) pd k) \<longrightarrow> \<not> in_page (frame (pte (mem s) pd k)) b) \<longrightarrow> mem t b = mem s b)"

lemma unmapped_skip:
  assumes "unmapped pd n' c s xs t ys" "n \<le> n'" "\<And>k. n \<le> k \<Longrightarrow> k < n' \<Longrightarrow> k < c \<Longrightarrow> \<not> present (pte (mem s) pd k)"
  shows "unmapped pd n c s xs t ys"
proof -
  have "n \<le> k \<and> k < c \<and> present (pte (mem s) pd k) \<longleftrightarrow> n' \<le> k \<and> k < c \<and> present (pte (mem s) pd k)" for k
    using assms(2) assms(3) [of k] by (cases "k < n'") auto
  then show ?thesis using assms(1) unfolding unmapped_def by simp
qed

lemma unmapped_none: "uvm_ok s pd xs \<Longrightarrow> c \<le> n \<Longrightarrow> unmapped pd n c s xs s xs"
  by (auto simp: unmapped_def)

lemma unmapped_step:
  assumes "uvm_ok s pd xs" "n < 524288" "present (pte (mem s) pd n)" "tbl (mem s) pd (n div 1024) = Some p" "n < c" "c \<le> 524288"
  defines "f \<equiv> frame (pte (mem s) pd n)"
  defines "u \<equiv> (freed f s)\<lparr>mem := store32 (p + 4 * of_nat (n mod 1024)) 0 (mem (freed f s))\<rparr>"
  assumes "unmapped pd (Suc n) c u (f # xs) t ys"
  shows "unmapped pd n c s xs t ys"
proof -
  note d = drop_page [OF assms(1-4), folded f_def, folded u_def]
  note t = assms(9) [unfolded unmapped_def]
  have pu: "pte (mem u) pd k = (if k = n then 0 else pte (mem s) pd k)" if "k < 1048576" for k using d(4) that by simp
  have same: "Suc n \<le> k \<and> k < c \<and> present (pte (mem u) pd k) \<longleftrightarrow> Suc n \<le> k \<and> k < c \<and> present (pte (mem s) pd k)"
    "Suc n \<le> k \<and> k < c \<Longrightarrow> pte (mem u) pd k = pte (mem s) pd k" for k
    using pu [of k] assms(6) by auto
  have "pte (mem t) pd k = (if n \<le> k \<and> k < c \<and> present (pte (mem s) pd k) then 0 else pte (mem s) pd k)" if "k < 1048576" for k
    using t pu [OF that] that assms(3,5) by (cases "k = n") auto
  moreover have "set ys = set xs \<union> {frame (pte (mem s) pd k) | k. n \<le> k \<and> k < c \<and> present (pte (mem s) pd k)}"
  proof -
    have "{frame (pte (mem u) pd k) | k. Suc n \<le> k \<and> k < c \<and> present (pte (mem u) pd k)} =
        {frame (pte (mem s) pd k) | k. Suc n \<le> k \<and> k < c \<and> present (pte (mem s) pd k)}"
      using same by (intro Collect_cong ex_cong1) metis
    moreover have "{frame (pte (mem s) pd k) | k. n \<le> k \<and> k < c \<and> present (pte (mem s) pd k)} =
        insert f {frame (pte (mem s) pd k) | k. Suc n \<le> k \<and> k < c \<and> present (pte (mem s) pd k)}"
      using assms(3,5) unfolding f_def by (auto simp: Suc_le_eq) (metis le_neq_implies_less)
    ultimately show ?thesis using t by simp
  qed
  moreover have "mem t b = mem s b" if b: "\<forall>p\<in>tables (mem s) pd. \<not> in_page p b"
    "\<forall>k. n \<le> k \<and> k < c \<and> present (pte (mem s) pd k) \<longrightarrow> \<not> in_page (frame (pte (mem s) pd k)) b" for b
  proof -
    have "p \<in> tables (mem s) pd" using assms(2,4) by (intro tbl_tables) (auto simp: less_mult_imp_div_less)
    then have "\<not> in_page p b" "\<not> in_page f b" using b assms(3,5) by (auto simp: f_def)
    then have "mem u b = mem s b" by (rule d(6))
    moreover have "mem t b = mem u b" using t b d(3) same by (metis Suc_leD)
    ultimately show ?thesis by simp
  qed
  ultimately show ?thesis using t d(2,3) mem_only_trans [of s u t] unfolding unmapped_def by simp
qed

lemma deallocuvm_loop_run:
  assumes "uvm_ok s pd xs" "unat a = 4096 * n" "unat oldsz \<le> 2147483648"
  shows "\<exists>t ys. deallocuvm_loop pd oldsz a s = Done () t \<and> unmapped pd n (pages oldsz) s xs t ys"
  using assms
proof (induction "524288 - n" arbitrary: a n s xs rule: less_induct)
  case less
  show ?case
  proof (cases "a < oldsz")
    case False
    then have "deallocuvm_loop pd oldsz a s = Done () s" by (subst deallocuvm_loop.simps) simp
    moreover have "\<not> n < pages oldsz" using False less.prems(2) by (simp add: less_pages word_less_nat_alt)
    ultimately show ?thesis using unmapped_none [OF less.prems(1)] by (meson not_less)
  next
    case True
    have n: "n < 524288" "vpn a = n" "n < pages oldsz" "pages oldsz \<le> 524288" "n div 1024 < 1024"
      using True less.prems(2,3) by (simp_all add: word_less_nat_alt vpn_aligned less_pages pages_def less_mult_imp_div_less)
    have next1: "unat (a + PGSIZE) = 4096 * Suc n" "a < a + PGSIZE" "524288 - Suc n < 524288 - n"
      using less.prems(2) n by (simp_all add: PGSIZE_def word_less_nat_alt unat_word_ariths)
    show ?thesis
    proof (cases "tbl (mem s) pd (n div 1024)")
      case None
      define n' where "n' = 1024 * (n div 1024 + 1)"
      have n': "n < n'" "unat (PGADDR (PDX a + 1) 0 0) = 4096 * n'" using next_table [of a] n by (simp_all add: n'_def)
      have "a < PGADDR (PDX a + 1) 0 0" using n' less.prems(2) by (simp add: word_less_nat_alt)
      then have eq: "deallocuvm_loop pd oldsz a s = deallocuvm_loop pd oldsz (PGADDR (PDX a + 1) 0 0) s"
        using True walkpgdir_none [of s pd a] None n(2) by (subst deallocuvm_loop.simps) simp
      have "\<not> present (pte (mem s) pd k)" if "n \<le> k" "k < n'" for k
      proof -
        have "1024 * (n div 1024) \<le> n" by simp
        then have "k div 1024 = n div 1024" using that unfolding n'_def by (intro div_nat_eqI) simp_all
        then show ?thesis using None by (simp add: pte_def)
      qed
      note skip = unmapped_skip [OF _ less_imp_le [OF n'(1)] this]
      have "524288 - n' < 524288 - n" using n(1) n'(1) by simp
      from less.hyps [OF this less.prems(1) n'(2) less.prems(3)] show ?thesis unfolding eq using skip by blast
    next
      case (Some p)
      have w: "walkpgdir pd a False s = Done (p + 4 * of_nat (n mod 1024)) s" using walkpgdir_found [of s pd a p] Some n(2) by simp
      have ok: "pgdir_ok s pd xs" "KERNBASE < kend s" using less.prems(1) by (simp_all add: uvm_ok_def)
      have nz: "p + 4 * of_nat (n mod 1024) \<noteq> 0" using cell_eq [of p 0 "n mod 1024" 0] tableD [OF ok(1) Some n(5)] by simp
      have e: "load32 (mem s) (p + 4 * of_nat (n mod 1024)) = pte (mem s) pd n" using Some by (simp add: pte_def)
      show ?thesis
      proof (cases "present (pte (mem s) pd n)")
        case False
        then have eq: "deallocuvm_loop pd oldsz a s = deallocuvm_loop pd oldsz (a + PGSIZE) s"
          using True w nz e next1 by (subst deallocuvm_loop.simps) (simp add: present_def)
        have "\<not> present (pte (mem s) pd k)" if "n \<le> k" "k < Suc n" for k using False that by (simp add: le_less_Suc_eq)
        note skip = unmapped_skip [OF _ le_SucI [OF order_refl] this]
        from less.hyps [OF next1(3) less.prems(1) next1(1) less.prems(3)] show ?thesis unfolding eq using skip by blast
      next
        case pr: True
        let ?f = "frame (pte (mem s) pd n)"
        let ?u = "(freed ?f s)\<lparr>mem := store32 (p + 4 * of_nat (n mod 1024)) 0 (mem (freed ?f s))\<rparr>"
        note d = drop_page [OF less.prems(1) n(1) pr Some]
        have "PTE_ADDR (pte (mem s) pd n) \<noteq> 0" using ok(2) uvm_okD(1) [OF less.prems(1) n(1) pr] by (auto simp: PTE_ADDR_0 kpage_def)
        then have eq: "deallocuvm_loop pd oldsz a s = deallocuvm_loop pd oldsz (a + PGSIZE) ?u"
          using True w nz e pr next1 d(1) by (subst deallocuvm_loop.simps) (simp add: present_def frame_def)
        note step = unmapped_step [OF less.prems(1) n(1) pr Some n(3,4)]
        from less.hyps [OF next1(3) d(5) next1(1) less.prems(3)] show ?thesis unfolding eq using step by blast
      qed
    qed
  qed
qed

lemma deallocuvm_run:
  assumes "uvm_ok s pd xs" "newsz < oldsz" "unat oldsz \<le> 2147483648"
  shows "\<exists>t ys. deallocuvm pd oldsz newsz s = Done newsz t \<and> unmapped pd (pages newsz) (pages oldsz) s xs t ys"
proof -
  have "unat (PGROUNDUP newsz) = 4096 * pages newsz"
    using unat_PGROUNDUP [of newsz] assms(2,3) by (simp add: pages_def word_less_nat_alt)
  then show ?thesis using deallocuvm_loop_run [OF assms(1) _ assms(3)] assms(2) by (fastforce simp: deallocuvm_def)
qed

section \<open>What a user process sees\<close>

text \<open>The byte at a virtual address together with the flags of its page.\<close>

definition uview :: "memory \<Rightarrow> u32 \<Rightarrow> u32 \<Rightarrow> (u8 \<times> u32) option" where
  "uview m pd va =
     (let e = pte m pd (vpn va) in if present e then Some (m (frame e + (va AND 0xFFF)), PTE_FLAGS e) else None)"

lemma in_page_offset: "v mod PGSIZE = 0 \<Longrightarrow> in_page v (v + (va AND 0xFFF))"
  by (simp add: in_page_def PGSIZE_def word_less_nat_alt unat_and_mask12)

lemma uview_cong:
  assumes "pte m pd (vpn va) = pte m' pd' (vpn va)"
    "\<And>a. present (pte m pd (vpn va)) \<Longrightarrow> in_page (frame (pte m pd (vpn va))) a \<Longrightarrow> m a = m' a"
    "present (pte m pd (vpn va)) \<Longrightarrow> frame (pte m pd (vpn va)) mod PGSIZE = 0"
  shows "uview m pd va = uview m' pd' va"
  using assms in_page_offset [of "frame (pte m pd (vpn va))" va] by (simp add: uview_def Let_def)

lemma vpn_user: "va < KERNBASE \<longleftrightarrow> vpn va < 524288"
  by (auto simp: vpn_def KERNBASE_def word_less_nat_alt less_mult_imp_div_less div_less_iff_less_mult)

text \<open>A change elsewhere: an address space is untouched as long as no page it owns is written or becomes free.\<close>

lemma ownedD:
  assumes "p \<in> owned (mem s) pd" "uvm_ok s pd xs"
  shows "kpage (kend s) p" "p mod PGSIZE = 0" "p \<notin> set xs"
proof -
  have ok: "pgdir_ok s pd xs" using assms(2) by (simp add: uvm_ok_def)
  consider "p = pd" | i where "i < 1024" "tbl (mem s) pd i = Some p" | n where "n < 524288" "present (pte (mem s) pd n)" "p = frame (pte (mem s) pd n)"
    using assms(1) by (auto simp: owned_def tables_def uframes_def)
  then have "kpage (kend s) p \<and> p \<notin> set xs"
  proof cases
    case 1
    then show ?thesis using ok by (simp add: pgdir_ok_def)
  next
    case 2
    then show ?thesis using tableD [OF ok] by blast
  next
    case 3
    then show ?thesis using uvm_okD [OF assms(2)] by blast
  qed
  then show "kpage (kend s) p" "p mod PGSIZE = 0" "p \<notin> set xs" by (simp_all add: kpage_def)
qed

lemma uvm_other:
  assumes "uvm_ok s pd xs" "kfrees t ys" "kend t = kend s" "set ys \<inter> owned (mem s) pd = {}"
    "\<And>p a. p \<in> owned (mem s) pd \<Longrightarrow> in_page p a \<Longrightarrow> mem t a = mem s a"
  shows "uvm_ok t pd ys" "\<And>k. k < 1048576 \<Longrightarrow> pte (mem t) pd k = pte (mem s) pd k" "owned (mem t) pd = owned (mem s) pd"
    "\<And>va. va < KERNBASE \<Longrightarrow> uview (mem t) pd va = uview (mem s) pd va"
proof -
  have ok: "pgdir_ok s pd xs" using assms(1) by (simp add: uvm_ok_def)
  have pd: "pd mod PGSIZE = 0" using ok by (auto simp: pgdir_ok_def kpage_def)
  have tb: "tbl (mem t) pd i = tbl (mem s) pd i" if "i < 1024" for i
    using assms(5) [of pd] by (intro tbl_cong pde_cong pd that) (simp add: owned_def)
  show p: "pte (mem t) pd k = pte (mem s) pd k" if k: "k < 1048576" for k
  proof -
    have d: "k div 1024 < 1024" using k by (simp add: less_mult_imp_div_less)
    show ?thesis
    proof (rule pte_cong)
      show "tbl (mem t) pd (k div 1024) = tbl (mem s) pd (k div 1024)" by (rule tb [OF d])
      fix q assume "tbl (mem t) pd (k div 1024) = Some q"
      then have q: "tbl (mem s) pd (k div 1024) = Some q" using tb [OF d] by simp
      then show "q mod PGSIZE = 0 \<and> (\<forall>a. in_page q a \<longrightarrow> mem t a = mem s a)"
        using tableD(2) [OF ok q d] assms(5) [of q] tbl_tables [OF q d] by (simp add: owned_def)
    qed
  qed
  have tabs: "tables (mem t) pd = tables (mem s) pd" using tb by (auto simp: tables_def)
  have uf: "uframes (mem t) pd = uframes (mem s) pd" unfolding uframes_def using p by (intro Collect_cong ex_cong1) auto
  show "owned (mem t) pd = owned (mem s) pd" by (simp add: owned_def tabs uf)
  have o: "pd \<in> owned (mem s) pd" "tables (mem s) pd \<subseteq> owned (mem s) pd"
    "\<And>n. n < 524288 \<Longrightarrow> present (pte (mem s) pd n) \<Longrightarrow> frame (pte (mem s) pd n) \<in> owned (mem s) pd"
    by (auto simp: owned_def uframes_def)
  have free: "q \<notin> set ys" if "q \<in> owned (mem s) pd" for q using assms(4) that by blast
  have "pgdir_ok t pd ys" unfolding pgdir_ok_def
  proof (intro conjI allI impI)
    show "kfrees t ys" by (rule assms(2))
    show "kpage (kend t) pd" "pd \<notin> set ys" using ok assms(3) free o(1) by (auto simp: pgdir_ok_def)
    fix i q assume "i < 1024" "tbl (mem t) pd i = Some q"
    then show "kpage (kend t) q" "q \<notin> set ys" "q \<noteq> pd"
      using tableD [OF ok, of i q] tb free o(2) tbl_tables [of "mem s" pd i q] assms(3) by auto
  qed (use ok tb in \<open>auto simp: pgdir_ok_def\<close>)
  moreover have "KERNBASE < kend t" using assms(1,3) by (simp add: uvm_ok_def)
  ultimately show "uvm_ok t pd ys" unfolding uvm_ok_def using uvm_okD [OF assms(1)] free o(3) p assms(3) tabs by auto
  show "uview (mem t) pd va = uview (mem s) pd va" if "va < KERNBASE" for va
  proof (rule uview_cong [symmetric])
    have n: "vpn va < 524288" using that by (simp add: vpn_user)
    then show "pte (mem s) pd (vpn va) = pte (mem t) pd (vpn va)" using p by simp
    assume pr: "present (pte (mem s) pd (vpn va))"
    then show "frame (pte (mem s) pd (vpn va)) mod PGSIZE = 0" using ownedD(2) [OF o(3) assms(1)] n by simp
    show "mem s a = mem t a" if "in_page (frame (pte (mem s) pd (vpn va))) a" for a using assms(5) [OF o(3) that] n pr by simp
  qed
qed

section \<open>Adding a user page\<close>

lemma extends_keeps:
  assumes "extends pd s xs t ys" "pgdir_ok s pd xs" "g mod PGSIZE = 0" "g \<notin> insert pd (set xs \<union> tables (mem s) pd)" "in_page g a"
  shows "mem t a = mem s a"
proof -
  have al: "x mod PGSIZE = 0" if "x \<in> insert pd (set xs \<union> tables (mem s) pd)" for x
    using that assms(2) by (intro kpage_aligned [of "kend s"]) (auto simp: pgdir_ok_def kfrees_def kmem_inv_def tables_def)
  have "\<not> in_page x a" if x: "x \<in> insert pd (set xs \<union> tables (mem s) pd)" for x
  proof -
    have "g \<noteq> x" using assms(4) x by auto
    then show ?thesis using pages_apart [OF assms(3) al [OF x]] assms(5) by blast
  qed
  then show ?thesis using assms(1) by (simp add: extends_def)
qed

lemma PTE_FLAGS_or:
  assumes "a mod PGSIZE = 0" "f AND NOT 0xFFF = 0"
  shows "PTE_FLAGS (a OR f) = f"
proof -
  have "take_bit 12 a = 0" using assms(1) by (simp add: take_bit_eq_mod PGSIZE_def)
  then have "12 \<le> n" if "bit a n" for n using that bit_take_bit_iff [of 12 a n] by (simp add: not_less)
  moreover have "n < 12" if "bit f n" "n < 32" for n
  proof -
    have "\<not> bit (f AND NOT (mask 12)) n" using assms(2) unfolding mask12 by simp
    then show ?thesis using that by (auto simp: bit_simps)
  qed
  ultimately show ?thesis
    unfolding PTE_FLAGS_def mask12 by (intro bit_word_eqI) (auto simp: bit_simps not_less dest: leD)
qed

lemma flags_or_P: "fl AND NOT 0xFFF = 0 \<Longrightarrow> (fl OR PTE_P) AND NOT 0xFFF = 0"
  by (simp add: bit.conj_disj_distrib2 PTE_P_def)

lemma user_entry:
  assumes "f mod PGSIZE = 0" "fl AND NOT 0xFFF = 0"
  shows "frame (V2P f OR fl OR PTE_P) = f" "PTE_FLAGS (V2P f OR fl OR PTE_P) = fl OR PTE_P"
  using PTE_ADDR_or [OF V2P_aligned [OF assms(1)] flags_or_P [OF assms(2)]]
    PTE_FLAGS_or [OF V2P_aligned [OF assms(1)] flags_or_P [OF assms(2)]]
  by (simp_all add: frame_def)

text \<open>What mapping the page \<open>f\<close> at page number \<open>n\<close> makes of the entries.\<close>

lemma map_user_page:
  assumes "uvm_ok s pd xs" "unat a = 4096 * n" "n < 524288" "\<not> present (pte (mem s) pd n)"
    "kpage (kend s) f" "f \<notin> set xs \<union> owned (mem s) pd" "fl AND NOT 0xFFF = 0"
  shows "\<exists>r t ys. mappages pd a PGSIZE (V2P f) fl s = Done r t \<and> extends pd s xs t ys \<and> uvm_ok t pd ys \<and>
    (r = 0 \<or> r = -1 \<and> ys = []) \<and>
    (\<forall>k<1048576. pte (mem t) pd k = (if r = 0 \<and> k = n then V2P f OR fl OR PTE_P else pte (mem s) pd k))"
proof -
  have ok: "pgdir_ok s pd xs" using assms(1) by (simp add: uvm_ok_def)
  have v: "vpn a = n" using assms(2) by (rule vpn_aligned)
  have "unat (a + 4095) = 4096 * n + 4095" using assms(2,3) by (simp add: unat_word_ariths)
  then have v': "vpn (a + PGSIZE - 1) = n" by (simp add: vpn_def PGSIZE_def add_diff_eq [symmetric])
  have "0 < PGSIZE" "unat a + unat PGSIZE \<le> 2 ^ 32" using assms(2,3) by (simp_all add: PGSIZE_def)
  moreover have "\<forall>k. n \<le> k \<and> k \<le> n \<longrightarrow> \<not> present (pte (mem s) pd k)" using assms(4) by (metis le_antisym)
  ultimately obtain r t ys c where m: "mappages pd a PGSIZE (V2P f) fl s = Done r t" "extends pd s xs t ys"
    "r = 0 \<and> c = 1 \<or> r = -1 \<and> c = 0 \<and> ys = []" "\<forall>k<1048576. pte (mem t) pd k = mapped (pte (mem s) pd) n c (V2P f) fl k"
    using mappages_run [OF ok, of PGSIZE a "V2P f" fl] by (auto simp: v v')
  have p: "pte (mem t) pd k = (if r = 0 \<and> k = n then V2P f OR fl OR PTE_P else pte (mem s) pd k)" if "k < 1048576" for k
    using m(3,4) that by (auto simp: mapped_def)
  have e: "frame (V2P f OR fl OR PTE_P) = f" using user_entry(1) [OF kpage_aligned [OF assms(5)] assms(7)] .
  have x: "extends pd s xs t ys" "kend t = kend s" using m(2) by (simp_all add: extends_def mem_only_kend)
  have own: "set ys \<union> tables (mem t) pd = set xs \<union> tables (mem s) pd" using m(2) by (simp add: extends_def)
  have f: "f \<notin> set ys \<union> insert pd (tables (mem t) pd)" "\<And>k. k < 524288 \<Longrightarrow> present (pte (mem s) pd k) \<Longrightarrow> frame (pte (mem s) pd k) \<noteq> f"
    using assms(6) own by (auto simp: owned_def uframes_def)
  have old: "kpage (kend t) (frame (pte (mem s) pd k)) \<and> frame (pte (mem s) pd k) \<notin> set ys \<union> insert pd (tables (mem t) pd)"
    if "k < 524288" "present (pte (mem s) pd k)" for k
    using uvm_okD [OF assms(1) that] own x(2) by auto
  have "pgdir_ok t pd ys" "KERNBASE < kend t" using m(2) assms(1) x(2) by (simp_all add: extends_def uvm_ok_def)
  then have "uvm_ok t pd ys" unfolding uvm_ok_def using p e f old assms(5) x(2) uvm_okD(5) [OF assms(1)] by (auto split: if_splits)
  then show ?thesis using m p by (intro exI [of _ r] exI [of _ t] exI [of _ ys]) auto
qed

lemma map_user_view:
  assumes "uvm_ok s pd xs" "unat a = 4096 * n" "n < 524288" "\<not> present (pte (mem s) pd n)"
    "kpage (kend s) f" "f \<notin> set xs \<union> owned (mem s) pd" "fl AND NOT 0xFFF = 0"
  shows "\<exists>r t ys. mappages pd a PGSIZE (V2P f) fl s = Done r t \<and> extends pd s xs t ys \<and> uvm_ok t pd ys \<and> (r = 0 \<or> r = -1 \<and> ys = []) \<and>
    (\<forall>k<1048576. pte (mem t) pd k = (if r = 0 \<and> k = n then V2P f OR fl OR PTE_P else pte (mem s) pd k)) \<and>
    (\<forall>va. va < KERNBASE \<longrightarrow> uview (mem t) pd va =
      (if r = 0 \<and> vpn va = n then Some (mem s (f + (va AND 0xFFF)), fl OR PTE_P) else uview (mem s) pd va)) \<and>
    set ys \<union> owned (mem t) pd = set xs \<union> owned (mem s) pd \<union> (if r = 0 then {f} else {})"
proof -
  obtain r t ys where m: "mappages pd a PGSIZE (V2P f) fl s = Done r t" "extends pd s xs t ys" "uvm_ok t pd ys" "r = 0 \<or> r = -1 \<and> ys = []"
    "\<forall>k<1048576. pte (mem t) pd k = (if r = 0 \<and> k = n then V2P f OR fl OR PTE_P else pte (mem s) pd k)"
    using map_user_page [OF assms] by blast
  have ok: "pgdir_ok s pd xs" using assms(1) by (simp add: uvm_ok_def)
  have al: "f mod PGSIZE = 0" using assms(5) by (rule kpage_aligned)
  note e = user_entry [OF al assms(7)]
  have keep: "mem t b = mem s b" if "in_page g b" "g = f \<or> g \<in> uframes (mem s) pd" for g b
  proof (rule extends_keeps [OF m(2) ok _ _ that(1)])
    have "kpage (kend s) g" using that(2) assms(5) ownedD(1) [OF _ assms(1), of g] by (auto simp: owned_def)
    then show "g mod PGSIZE = 0" by (rule kpage_aligned)
    show "g \<notin> insert pd (set xs \<union> tables (mem s) pd)"
      using that(2) assms(6) uvm_okD [OF assms(1)] by (auto simp: owned_def uframes_def)
  qed
  have "uview (mem t) pd va = (if r = 0 \<and> vpn va = n then Some (mem s (f + (va AND 0xFFF)), fl OR PTE_P) else uview (mem s) pd va)"
    if va: "va < KERNBASE" for va
  proof -
    have n: "vpn va < 524288" "vpn va < 1048576" using va by (simp_all add: vpn_user)
    show ?thesis
    proof (cases "r = 0 \<and> vpn va = n")
      case True
      then have "pte (mem t) pd (vpn va) = V2P f OR fl OR PTE_P" using m(5) n by simp
      moreover have "mem t (f + (va AND 0xFFF)) = mem s (f + (va AND 0xFFF))" using keep [OF in_page_offset [OF al]] by simp
      ultimately show ?thesis using True e by (simp add: uview_def)
    next
      case False
      then have p: "pte (mem t) pd (vpn va) = pte (mem s) pd (vpn va)" using m(5) n by auto
      have "uview (mem s) pd va = uview (mem t) pd va"
      proof (rule uview_cong)
        assume pr: "present (pte (mem s) pd (vpn va))"
        then show "frame (pte (mem s) pd (vpn va)) mod PGSIZE = 0" using uvm_okD(1) [OF assms(1) n(1)] by (simp add: kpage_def)
        show "mem s b = mem t b" if "in_page (frame (pte (mem s) pd (vpn va))) b" for b
          using keep [OF that] pr n(1) unfolding uframes_def by (metis (mono_tags, lifting) mem_Collect_eq)
      qed (simp add: p)
      then show ?thesis using False by auto
    qed
  qed
  moreover have "uframes (mem t) pd = uframes (mem s) pd \<union> (if r = 0 then {f} else {})"
  proof -
    have p: "pte (mem t) pd k = (if r = 0 \<and> k = n then V2P f OR fl OR PTE_P else pte (mem s) pd k)" if "k < 524288" for k using m(5) that by simp
    show ?thesis
    proof (intro subset_antisym subsetI)
      fix g assume "g \<in> uframes (mem t) pd"
      then obtain k where k: "k < 524288" "present (pte (mem t) pd k)" "g = frame (pte (mem t) pd k)" by (auto simp: uframes_def)
      show "g \<in> uframes (mem s) pd \<union> (if r = 0 then {f} else {})"
        using p [OF k(1)] k e(1) by (cases "r = 0 \<and> k = n") (auto simp: uframes_def)
    next
      fix g assume "g \<in> uframes (mem s) pd \<union> (if r = 0 then {f} else {})"
      then consider k where "k < 524288" "present (pte (mem s) pd k)" "g = frame (pte (mem s) pd k)" | "r = 0" "g = f"
        by (auto simp: uframes_def split: if_splits)
      then show "g \<in> uframes (mem t) pd"
      proof cases
        case (1 k)
        then have "pte (mem t) pd k = pte (mem s) pd k" using p assms(4) by auto
        then show ?thesis using 1 unfolding uframes_def by (intro CollectI exI [of _ k]) simp
      next
        case 2
        then show ?thesis unfolding uframes_def using p [OF assms(3)] e(1) assms(3) by (intro CollectI exI [of _ n]) simp
      qed
    qed
  qed
  moreover have "set ys \<union> tables (mem t) pd = set xs \<union> tables (mem s) pd" using m(2) by (simp add: extends_def)
  ultimately show ?thesis using m unfolding owned_def
    by (intro exI [of _ r] exI [of _ t] exI [of _ ys]) auto
qed

section \<open>Properties\<close>

lemma vpn_parts: "of_nat (vpn va) * PGSIZE + (va AND 0xFFF) = va" "of_nat (vpn va) * PGSIZE = PGROUNDDOWN va"
proof -
  have "unat (PGROUNDDOWN va) = 4096 * vpn va" by (simp add: unat_PGROUNDDOWN vpn_def minus_mod_eq_mult_div)
  then have "of_nat (unat (PGROUNDDOWN va)) = (of_nat (4096 * vpn va) :: u32)" by (rule arg_cong)
  then show "of_nat (vpn va) * PGSIZE = PGROUNDDOWN va" by (simp add: PGSIZE_def mult.commute)
  then show "of_nat (vpn va) * PGSIZE + (va AND 0xFFF) = va" using page_offset [of va] by (simp add: algebra_simps)
qed

lemma aligned_add: "a mod PGSIZE = 0 \<Longrightarrow> (a + k * PGSIZE) mod PGSIZE = 0"
proof -
  assume "a mod PGSIZE = 0"
  then have "4096 dvd unat a" by (simp add: aligned_unat mod_eq_0_iff_dvd)
  moreover have "unat (a + k * PGSIZE) = (unat a + unat k * 4096) mod 4294967296" by (simp add: PGSIZE_def unat_word_ariths mod_simps)
  ultimately have "4096 dvd unat (a + k * PGSIZE)"
    using dvd_mod_iff [of 4096 4294967296 "unat a + unat k * 4096"] by simp
  then show ?thesis by (simp add: aligned_unat mod_eq_0_iff_dvd)
qed

text \<open>C38. \<^verbatim>\<open>mappages\<close> implements the mapping it is asked for. When no page of the range is mapped, it ends with the tables
  still well formed, and either returns 0 and the MMU translates every address of the range to the physical address at
  the same offset, or returns -1 because the allocator has no page left; the translation of every address in other pages
  is unchanged in both cases.\<close>

theorem mappages_correct:
  assumes "pgdir_ok s pd xs" "0 < n" "unat va + unat n \<le> 2 ^ 32" "pa mod PGSIZE = 0" "fl AND NOT 0xFFF = 0"
    "\<forall>v. vpn va \<le> vpn v \<and> vpn v \<le> vpn (va + n - 1) \<longrightarrow> translate (mem s) pd v = None"
  shows "\<exists>r t ys. mappages pd va n pa fl s = Done r t \<and> pgdir_ok t pd ys \<and> (r = 0 \<or> r = -1 \<and> ys = []) \<and>
    (\<forall>v. r = 0 \<and> vpn va \<le> vpn v \<and> vpn v \<le> vpn (va + n - 1) \<longrightarrow> translate (mem t) pd v = Some (P2V (pa + (v - PGROUNDDOWN va)))) \<and>
    (\<forall>v. vpn v < vpn va \<or> vpn (va + n - 1) < vpn v \<longrightarrow> translate (mem t) pd v = translate (mem s) pd v)"
proof -
  have "\<not> present (pte (mem s) pd k)" if k: "vpn va \<le> k" "k \<le> vpn (va + n - 1)" for k
  proof -
    have "unat (of_nat (4096 * k) :: u32) = 4096 * k" using k(2) vpn_less [of "va + n - 1"] unat_offset [of 0 "4096 * k"] by simp
    then have "vpn (of_nat (4096 * k)) = k" by (rule vpn_aligned)
    then show ?thesis using assms(6) k translate_pte [of "mem s" pd "of_nat (4096 * k)"] by (auto split: if_splits)
  qed
  then obtain r t ys c where m: "mappages pd va n pa fl s = Done r t" "extends pd s xs t ys"
    "r = 0 \<and> c = Suc (vpn (va + n - 1)) - vpn va \<or> r = -1 \<and> c < Suc (vpn (va + n - 1)) - vpn va \<and> ys = []"
    "\<forall>k<1048576. pte (mem t) pd k = mapped (pte (mem s) pd) (vpn va) c pa fl k"
    using mappages_run [OF assms(1-3)] by blast
  have "translate (mem t) pd v = Some (P2V (pa + (v - PGROUNDDOWN va)))"
    if "r = 0" "vpn va \<le> vpn v" "vpn v \<le> vpn (va + n - 1)" for v
  proof -
    define a where "a = pa + (of_nat (vpn v) - of_nat (vpn va)) * PGSIZE"
    have "PTE_ADDR (a OR fl OR PTE_P) = a"
      unfolding a_def by (rule PTE_ADDR_or [OF aligned_add [OF assms(4)] flags_or_P [OF assms(5)]])
    moreover have "a + (v AND 0xFFF) = pa + (v - PGROUNDDOWN va)"
      using vpn_parts(1) [of v] vpn_parts(2) [of va] by (simp add: a_def algebra_simps)
    ultimately have "frame (a OR fl OR PTE_P) + (v AND 0xFFF) = P2V (pa + (v - PGROUNDDOWN va))"
      by (simp add: frame_def P2V_def add.assoc add.commute [of KERNBASE])
    moreover have "pte (mem t) pd (vpn v) = a OR fl OR PTE_P" using m(3,4) that vpn_less [of v] by (auto simp: mapped_def a_def)
    ultimately show ?thesis by (simp add: translate_pte)
  qed
  moreover have "translate (mem t) pd v = translate (mem s) pd v" if "vpn v < vpn va \<or> vpn (va + n - 1) < vpn v" for v
  proof -
    have f: "pte (mem t) pd (vpn v) = pte (mem s) pd (vpn v)" using m(3,4) that vpn_less [of v] by (auto simp: mapped_def)
    then show ?thesis by (simp add: translate_pte)
  qed
  ultimately show ?thesis using m(1,2,3) by (intro exI [of _ r] exI [of _ t] exI [of _ ys]) (auto simp: extends_def)
qed

lemma load32_zero [simp]: "load32 (\<lambda>_. 0) a = 0"
  by (simp add: load32_def word_of_bytes_def)

lemma empty_space [simp]: "tbl (\<lambda>_. 0) pd i = None" "pte (\<lambda>_. 0) pd n = 0"
  by (simp_all add: tbl_def pde_def pte_def)

lemma pgdir_kmem0: "pgdir_ok kmem0 0x80201000 [0x80200000]"
  using kmem0_kfrees by (simp add: pgdir_ok_def) (simp add: kmem0_def kpage_def PGSIZE_def PHYSTOP_def V2P_def KERNBASE_def)

theorem mappages_correct_witness:
  "\<exists>r t. mappages 0x80201000 0x1000 0x2000 0x300000 PTE_W kmem0 = Done r t \<and>
     (r = 0 \<longrightarrow> translate (mem t) 0x80201000 0x2345 = Some 0x80301345)"
proof -
  have v: "vpn 0x1000 = 1" "vpn 0x2345 = 2" "vpn (0x1000 + 0x2000 - 1) = 2" "PGROUNDDOWN 0x1000 = 0x1000"
    by (simp_all add: vpn_def PGROUNDDOWN_def PGSIZE_def)
  have t: "\<forall>v. vpn 0x1000 \<le> vpn v \<and> vpn v \<le> vpn (0x1000 + 0x2000 - 1) \<longrightarrow> translate (mem kmem0) 0x80201000 v = None"
    by (simp add: translate_pte kmem0_def)
  have a: "(0x300000 :: u32) mod PGSIZE = 0" "PTE_W AND NOT 0xFFF = 0" "(0 :: u32) < 0x2000" "unat (0x1000 :: u32) + unat (0x2000 :: u32) \<le> 2 ^ 32"
    by (simp_all add: PGSIZE_def PTE_W_def)
  obtain r u where u: "mappages 0x80201000 0x1000 0x2000 0x300000 PTE_W kmem0 = Done r u"
    "\<forall>v. r = 0 \<and> 1 \<le> vpn v \<and> vpn v \<le> 2 \<longrightarrow> translate (mem u) 0x80201000 v = Some (P2V (0x300000 + (v - 0x1000)))"
    using mappages_correct [OF pgdir_kmem0 a(3,4,1,2) t] unfolding v by blast
  have "P2V (0x300000 + (0x2345 - 0x1000)) = 0x80301345" by (simp add: P2V_def KERNBASE_def)
  then show ?thesis using u(1) spec [OF u(2), of "0x2345"] v(2) by auto
qed

end
