(* ===== verification/Xv6_Uvm.thy ===== *)
theory Xv6_Uvm
  imports Xv6_Pagetable
begin

text \<open>
  Whole address spaces: \<^verbatim>\<open>freevm\<close>, \<^verbatim>\<open>setupkvm\<close> and \<^verbatim>\<open>copyuvm\<close> of \<^verbatim>\<open>vm.c\<close>. The pages of an address space and the free pages are
  accounted for exactly, and the copy that \<^verbatim>\<open>fork\<close> makes is a private one.
\<close>

section \<open>Freeing an address space\<close>

lemma free_tables_run:
  assumes "kfrees s xs" "kpage (kend s) pd" "i \<le> 1024"
    "\<forall>j p. i \<le> j \<and> j < 1024 \<and> tbl (mem s) pd j = Some p \<longrightarrow> kpage (kend s) p \<and> p \<notin> set xs \<and> p \<noteq> pd"
    "\<forall>j k p. i \<le> j \<and> j < 1024 \<and> i \<le> k \<and> k < 1024 \<and> tbl (mem s) pd j = Some p \<and> tbl (mem s) pd k = Some p \<longrightarrow> j = k"
  shows "\<exists>t ys. forK [i..<1024] (\<lambda>i. bindK (peek32 (pd + 4 * of_nat i)) (\<lambda>e. whenK (e AND PTE_P \<noteq> 0) (kfree (P2V (PTE_ADDR e))))) s = Done () t \<and>
    kfrees t ys \<and> mem_only s t \<and> set ys = set xs \<union> {p. \<exists>j. i \<le> j \<and> j < 1024 \<and> tbl (mem s) pd j = Some p} \<and>
    (\<forall>b. (\<forall>j p. i \<le> j \<and> j < 1024 \<and> tbl (mem s) pd j = Some p \<longrightarrow> \<not> in_page p b) \<longrightarrow> mem t b = mem s b)"
  using assms
proof (induction "1024 - i" arbitrary: i s xs)
  case 0
  then show ?case by (intro exI [of _ s] exI [of _ xs]) auto
next
  case (Suc n)
  let ?f = "\<lambda>i. bindK (peek32 (pd + 4 * of_nat i)) (\<lambda>e. whenK (e AND PTE_P \<noteq> 0) (kfree (P2V (PTE_ADDR e))))"
  have i: "i < 1024" "n = 1024 - Suc i" "Suc i \<le> 1024" "[i..<1024] = i # [Suc i..<1024]" using Suc.hyps(2) by (simp_all add: upt_conv_Cons)
  show ?case
  proof (cases "tbl (mem s) pd i")
    case None
    then have step: "forK [i..<1024] ?f s = forK [Suc i..<1024] ?f s"
      using i(4) by (auto simp: tbl_def pde_def split: if_splits)
    have iff: "i \<le> j \<and> j < 1024 \<and> tbl (mem s) pd j = Some p \<longleftrightarrow> Suc i \<le> j \<and> j < 1024 \<and> tbl (mem s) pd j = Some p" for j p
      using None by (cases "j = i") auto
    have "\<forall>j p. Suc i \<le> j \<and> j < 1024 \<and> tbl (mem s) pd j = Some p \<longrightarrow> kpage (kend s) p \<and> p \<notin> set xs \<and> p \<noteq> pd"
      using Suc.prems(4) Suc_leD by blast
    moreover have "\<forall>j k p. Suc i \<le> j \<and> j < 1024 \<and> Suc i \<le> k \<and> k < 1024 \<and> tbl (mem s) pd j = Some p \<and> tbl (mem s) pd k = Some p \<longrightarrow> j = k"
      using Suc.prems(5) Suc_leD by blast
    ultimately show ?thesis unfolding step iff by (rule Suc.hyps(1) [OF i(2) Suc.prems(1,2) i(3)])
  next
    case (Some p)
    have p: "kpage (kend s) p" "p \<notin> set xs" "p \<noteq> pd" using Suc.prems(4) Some i(1) by auto
    have al: "pd mod PGSIZE = 0" "p mod PGSIZE = 0" using Suc.prems(2) p(1) by (simp_all add: kpage_def)
    let ?t = "freed p s"
    have "P2V (PTE_ADDR (pde (mem s) pd i)) = p" "pde (mem s) pd i AND PTE_P \<noteq> 0" using Some by (auto simp: tbl_def split: if_splits)
    then have step: "forK [i..<1024] ?f s = forK [Suc i..<1024] ?f ?t"
      using i(4) kfree_run [of s p] p(1) Suc.prems(1) by (simp add: pde_def kfrees_def)
    have tb: "tbl (mem ?t) pd j = tbl (mem s) pd j" if "j < 1024" for j
      using freed_frame [OF al(2)] pages_apart [OF al p(3) [symmetric]] by (intro tbl_cong pde_cong al(1) that) blast
    have k: "kfrees ?t (p # xs)" using Suc.prems(1) kmem_inv_freed [OF _ p(1,2)] by (simp add: kfrees_def)
    have h4: "\<forall>j q. Suc i \<le> j \<and> j < 1024 \<and> tbl (mem ?t) pd j = Some q \<longrightarrow> kpage (kend ?t) q \<and> q \<notin> set (p # xs) \<and> q \<noteq> pd"
    proof (intro allI impI)
      fix j q assume j: "Suc i \<le> j \<and> j < 1024 \<and> tbl (mem ?t) pd j = Some q"
      then have q: "i \<le> j" "j < 1024" "tbl (mem s) pd j = Some q" "j \<noteq> i" using tb by auto
      then have "q \<noteq> p" using Suc.prems(5) Some i(1) by blast
      then show "kpage (kend ?t) q \<and> q \<notin> set (p # xs) \<and> q \<noteq> pd" using Suc.prems(4) q by simp
    qed
    have h5: "\<forall>j k q. Suc i \<le> j \<and> j < 1024 \<and> Suc i \<le> k \<and> k < 1024 \<and> tbl (mem ?t) pd j = Some q \<and> tbl (mem ?t) pd k = Some q \<longrightarrow> j = k"
      using Suc.prems(5) tb Suc_leD by metis
    have h2: "kpage (kend ?t) pd" using Suc.prems(2) by simp
    obtain u ys where u: "forK [Suc i..<1024] ?f ?t = Done () u" "kfrees u ys" "mem_only ?t u"
      "set ys = set (p # xs) \<union> {p. \<exists>j. Suc i \<le> j \<and> j < 1024 \<and> tbl (mem ?t) pd j = Some p}"
      "\<forall>b. (\<forall>j p. Suc i \<le> j \<and> j < 1024 \<and> tbl (mem ?t) pd j = Some p \<longrightarrow> \<not> in_page p b) \<longrightarrow> mem u b = mem ?t b"
      using Suc.hyps(1) [OF i(2) k h2 i(3) h4 h5] by blast
    have "i \<le> j \<and> j < 1024 \<and> tbl (mem s) pd j = Some q \<longleftrightarrow> j = i \<and> q = p \<or> Suc i \<le> j \<and> j < 1024 \<and> tbl (mem ?t) pd j = Some q" for j q
      using tb [of j] Some i(1) by (cases "j = i") auto
    note iff = this
    have "set ys = set xs \<union> {p. \<exists>j. i \<le> j \<and> j < 1024 \<and> tbl (mem s) pd j = Some p}" unfolding iff u(4) by auto
    moreover have "mem u b = mem s b" if b: "\<forall>j p. i \<le> j \<and> j < 1024 \<and> tbl (mem s) pd j = Some p \<longrightarrow> \<not> in_page p b" for b
    proof -
      have "\<not> in_page p b" using b Some i(1) by blast
      then have "mem ?t b = mem s b" by (rule freed_frame [OF al(2)])
      moreover have "mem u b = mem ?t b" using u(5) b unfolding iff by blast
      ultimately show ?thesis by simp
    qed
    ultimately show ?thesis using u(1,2) mem_only_trans [OF mem_only_freed u(3)] unfolding step by blast
  qed
qed

lemma unmapped_uframes:
  assumes "unmapped pd 0 524288 s xs t ys"
  shows "set ys = set xs \<union> uframes (mem s) pd" "uframes (mem t) pd = {}"
proof -
  have "{frame (pte (mem s) pd k) | k. 0 \<le> k \<and> k < 524288 \<and> present (pte (mem s) pd k)} = uframes (mem s) pd"
    by (simp add: uframes_def)
  then show "set ys = set xs \<union> uframes (mem s) pd" using assms by (simp add: unmapped_def)
  have "\<not> present (pte (mem t) pd k)" if "k < 524288" for k using assms that by (auto simp: unmapped_def)
  then show "uframes (mem t) pd = {}" by (auto simp: uframes_def)
qed

lemma freevm_run:
  assumes "uvm_ok s pd xs"
  shows "\<exists>t ys. freevm pd s = Done () t \<and> kfrees t ys \<and> mem_only s t \<and> set ys = set xs \<union> owned (mem s) pd \<and>
    (\<forall>b. (\<forall>p\<in>owned (mem s) pd. \<not> in_page p b) \<longrightarrow> mem t b = mem s b)"
proof -
  have pages: "pages 0 = 0" "pages KERNBASE = 524288" "(0 :: u32) < KERNBASE" "unat KERNBASE \<le> 2147483648"
    by (simp_all add: pages_def KERNBASE_def)
  obtain t ys where t: "deallocuvm pd KERNBASE 0 s = Done 0 t" "unmapped pd 0 524288 s xs t ys"
    using deallocuvm_run [OF assms pages(3,4)] pages by auto
  have ok: "pgdir_ok t pd ys" and same: "tables (mem t) pd = tables (mem s) pd" and mo: "mem_only s t"
    using t(2) by (simp_all add: unmapped_def uvm_ok_def)
  note uf = unmapped_uframes [OF t(2)]
  let ?f = "\<lambda>i. bindK (peek32 (pd + 4 * of_nat i)) (\<lambda>e. whenK (e AND PTE_P \<noteq> 0) (kfree (P2V (PTE_ADDR e))))"
  have pd: "kpage (kend t) pd" "pd \<notin> set ys" and kt: "kfrees t ys" using ok by (simp_all add: pgdir_ok_def)
  have h: "\<forall>j p. 0 \<le> j \<and> j < 1024 \<and> tbl (mem t) pd j = Some p \<longrightarrow> kpage (kend t) p \<and> p \<notin> set ys \<and> p \<noteq> pd"
    "\<forall>j k p. 0 \<le> j \<and> j < 1024 \<and> 0 \<le> k \<and> k < 1024 \<and> tbl (mem t) pd j = Some p \<and> tbl (mem t) pd k = Some p \<longrightarrow> j = k"
    using ok unfolding pgdir_ok_def by blast+
  have tabs: "{p. \<exists>j. 0 \<le> j \<and> j < 1024 \<and> tbl (mem t) pd j = Some p} = tables (mem s) pd" using same by (simp add: tables_def)
  obtain u zs where u: "forK [0..<1024] ?f t = Done () u" "kfrees u zs" "mem_only t u" "set zs = set ys \<union> tables (mem s) pd"
    "\<forall>b. (\<forall>j p. 0 \<le> j \<and> j < 1024 \<and> tbl (mem t) pd j = Some p \<longrightarrow> \<not> in_page p b) \<longrightarrow> mem u b = mem t b"
    using free_tables_run [OF kt pd(1) _ h] tabs by fastforce
  have "pd \<notin> tables (mem s) pd" using ok same by (auto simp: pgdir_ok_def tables_def)
  then have v: "pd \<notin> set zs" "kpage (kend u) pd" using pd u(4) mem_only_kend [OF u(3)] by auto
  have run: "freevm pd s = Done () (freed pd u)"
    using t(1) u(1,2) kfree_run [of u pd] v(2) pd(1) by (simp add: freevm_def NPDENTRIES_def kpage_def kfrees_def)
  have "kfrees (freed pd u) (pd # zs)" using u(2) v kmem_inv_freed [of u zs pd] by (simp add: kfrees_def)
  moreover have "mem_only s (freed pd u)" by (rule mem_only_trans [OF mo mem_only_trans [OF u(3) mem_only_freed]])
  moreover have "set (pd # zs) = set xs \<union> owned (mem s) pd" using u(4) uf(1) by (auto simp: owned_def)
  moreover have "mem (freed pd u) b = mem s b" if b: "\<forall>p\<in>owned (mem s) pd. \<not> in_page p b" for b
  proof -
    have "mem (freed pd u) b = mem u b" using b kpage_aligned [OF v(2)] by (intro freed_frame) (simp_all add: owned_def)
    also have "\<dots> = mem t b"
    proof -
      have "tbl (mem t) pd j = Some p \<Longrightarrow> j < 1024 \<Longrightarrow> p \<in> owned (mem s) pd" for j p using same by (auto simp: owned_def tables_def)
      then show ?thesis using u(5) b by blast
    qed
    also have "\<dots> = mem s b"
    proof -
      have "frame (pte (mem s) pd k) \<in> owned (mem s) pd" if "k < 524288" "present (pte (mem s) pd k)" for k
        using that by (auto simp: owned_def uframes_def)
      then have "\<forall>k. 0 \<le> k \<and> k < 524288 \<and> present (pte (mem s) pd k) \<longrightarrow> \<not> in_page (frame (pte (mem s) pd k)) b" using b by blast
      moreover have "\<forall>p\<in>tables (mem s) pd. \<not> in_page p b" using b by (simp add: owned_def)
      ultimately show ?thesis using t(2) unfolding unmapped_def by blast
    qed
    finally show ?thesis .
  qed
  ultimately show ?thesis using run by blast
qed

section \<open>The kernel's half\<close>

text \<open>The entries that a list of mappings gives, and when each of them finds its range unmapped.\<close>

definition last_va :: "kmap_entry \<Rightarrow> u32" where
  "last_va k = virt k + (phys_end k - phys_start k) - 1"

definition kmap_fun :: "kmap_entry \<Rightarrow> (nat \<Rightarrow> u32) \<Rightarrow> nat \<Rightarrow> u32" where
  "kmap_fun k f = mapped f (vpn (virt k)) (Suc (vpn (last_va k)) - vpn (virt k)) (phys_start k) (perm k)"

primrec kmaps :: "kmap_entry list \<Rightarrow> (nat \<Rightarrow> u32) \<Rightarrow> nat \<Rightarrow> u32" where
  "kmaps [] f = f"
| "kmaps (k # ks) f = kmaps ks (kmap_fun k f)"

primrec kmaps_ok :: "kmap_entry list \<Rightarrow> (nat \<Rightarrow> u32) \<Rightarrow> bool" where
  "kmaps_ok [] f = True"
| "kmaps_ok (k # ks) f = (0 < phys_end k - phys_start k \<and> unat (virt k) + unat (phys_end k - phys_start k) \<le> 2 ^ 32 \<and>
     524288 \<le> vpn (virt k) \<and> (\<forall>n. vpn (virt k) \<le> n \<and> n \<le> vpn (last_va k) \<longrightarrow> \<not> present (f n)) \<and> kmaps_ok ks (kmap_fun k f))"

abbreviation map_kernel :: "u32 \<Rightarrow> kmap_entry list \<Rightarrow> ('z kmemst_scheme, u32 option) kmon" where
  "map_kernel pd ks \<equiv> searchK ks (\<lambda>k.
     bindK (mappages pd (virt k) (phys_end k - phys_start k) (phys_start k) (perm k)) (\<lambda>r.
     if r < 0 then thenK (freevm pd) (returnK (Some 0)) else returnK None))"

lemma kernel_only:
  assumes "pgdir_ok s pd xs" "KERNBASE < kend s" "\<forall>n<524288. \<not> present (pte (mem s) pd n)"
  shows "uvm_ok s pd xs" "owned (mem s) pd = insert pd (tables (mem s) pd)"
  using assms by (auto simp: uvm_ok_def owned_def uframes_def)

lemma kmaps_ok_cong: "(\<forall>n<1048576. f n = g n) \<Longrightarrow> kmaps_ok ks f = kmaps_ok ks g \<and> (\<forall>n<1048576. kmaps ks f n = kmaps ks g n)"
proof (induction ks arbitrary: f g)
  case (Cons k ks)
  then have "\<forall>n<1048576. kmap_fun k f n = kmap_fun k g n" by (simp add: kmap_fun_def mapped_def)
  from Cons.IH [OF this] show ?case using Cons.prems vpn_less [of "last_va k"] by (auto simp: le_less_trans)
qed simp

lemma map_kernel_run:
  assumes "pgdir_ok s pd xs" "KERNBASE < kend s" "\<forall>n<524288. \<not> present (pte (mem s) pd n)" "kmaps_ok ks (pte (mem s) pd)"
  shows "\<exists>r t ys. map_kernel pd ks s = Done r t \<and> mem_only s t \<and>
    (\<forall>b. \<not> in_page pd b \<and> (\<forall>x\<in>set xs \<union> tables (mem s) pd. \<not> in_page x b) \<longrightarrow> mem t b = mem s b) \<and>
    (r = None \<and> extends pd s xs t ys \<and> (\<forall>n<1048576. pte (mem t) pd n = kmaps ks (pte (mem s) pd) n) \<and> (\<forall>n<524288. \<not> present (pte (mem t) pd n)) \<or>
     r = Some 0 \<and> kfrees t ys \<and> set ys = insert pd (set xs \<union> tables (mem s) pd))"
  using assms
proof (induction ks arbitrary: s xs)
  case Nil
  then show ?case by (intro exI [of _ None] exI [of _ s] exI [of _ xs]) (simp add: extends_refl)
next
  case (Cons k ks)
  obtain r t ys c where m: "mappages pd (virt k) (phys_end k - phys_start k) (phys_start k) (perm k) s = Done r t" "extends pd s xs t ys"
    "r = 0 \<and> c = Suc (vpn (last_va k)) - vpn (virt k) \<or> r = -1 \<and> c < Suc (vpn (last_va k)) - vpn (virt k) \<and> ys = []"
    "\<forall>n<1048576. pte (mem t) pd n = mapped (pte (mem s) pd) (vpn (virt k)) c (phys_start k) (perm k) n"
    using mappages_run [OF Cons.prems(1), of "phys_end k - phys_start k" "virt k" "phys_start k" "perm k"] Cons.prems(4)
    by (auto simp: last_va_def)
  have ok: "pgdir_ok t pd ys" "KERNBASE < kend t" "mem_only s t" "set ys \<union> tables (mem t) pd = set xs \<union> tables (mem s) pd"
    "\<forall>b. \<not> in_page pd b \<and> (\<forall>x\<in>set xs \<union> tables (mem s) pd. \<not> in_page x b) \<longrightarrow> mem t b = mem s b"
    using m(2) Cons.prems(2) mem_only_kend [of s t] by (simp_all add: extends_def)
  have low: "\<forall>n<524288. \<not> present (pte (mem t) pd n)" using m(4) Cons.prems(3,4) by (auto simp: mapped_def)
  show ?case
  proof (cases "r = 0")
    case True
    then have p: "\<forall>n<1048576. pte (mem t) pd n = kmap_fun k (pte (mem s) pd) n" using m(3,4) by (simp add: kmap_fun_def)
    have step: "map_kernel pd (k # ks) s = map_kernel pd ks t" using m(1) True by simp
    have "kmaps_ok ks (pte (mem t) pd)" using Cons.prems(4) kmaps_ok_cong [OF p] by simp
    from Cons.IH [OF ok(1,2) low this] obtain r' u zs where u: "map_kernel pd ks t = Done r' u" "mem_only t u"
      "\<forall>b. \<not> in_page pd b \<and> (\<forall>x\<in>set ys \<union> tables (mem t) pd. \<not> in_page x b) \<longrightarrow> mem u b = mem t b"
      "r' = None \<and> extends pd t ys u zs \<and> (\<forall>n<1048576. pte (mem u) pd n = kmaps ks (pte (mem t) pd) n) \<and> (\<forall>n<524288. \<not> present (pte (mem u) pd n)) \<or>
       r' = Some 0 \<and> kfrees u zs \<and> set zs = insert pd (set ys \<union> tables (mem t) pd)" by blast
    have "mem u b = mem s b" if "\<not> in_page pd b" "\<forall>x\<in>set xs \<union> tables (mem s) pd. \<not> in_page x b" for b
      using that u(3) ok(4,5) by simp
    moreover have "\<forall>n<1048576. kmaps ks (pte (mem t) pd) n = kmaps (k # ks) (pte (mem s) pd) n" using kmaps_ok_cong [OF p] by simp
    ultimately show ?thesis unfolding step
      using u(1,4) mem_only_trans [OF ok(3) u(2)] extends_trans [OF m(2)] ok(4)
      by (intro exI [of _ r'] exI [of _ u] exI [of _ zs]) auto
  next
    case False
    then have "r = -1" using m(3) by auto
    note ko = kernel_only [OF ok(1,2) low]
    obtain u zs where u: "freevm pd t = Done () u" "kfrees u zs" "mem_only t u" "set zs = set ys \<union> owned (mem t) pd"
      "\<forall>b. (\<forall>p\<in>owned (mem t) pd. \<not> in_page p b) \<longrightarrow> mem u b = mem t b"
      using freevm_run [OF ko(1)] by blast
    have "map_kernel pd (k # ks) s = Done (Some 0) u" using m(1) u(1) \<open>r = -1\<close> by simp
    moreover have "set zs = insert pd (set xs \<union> tables (mem s) pd)" using u(4) ko(2) ok(4) by auto
    moreover have "mem u b = mem s b" if b: "\<not> in_page pd b" "\<forall>x\<in>set xs \<union> tables (mem s) pd. \<not> in_page x b" for b
    proof -
      have "tables (mem t) pd \<subseteq> set xs \<union> tables (mem s) pd" using ok(4) by auto
      then have "\<forall>p\<in>owned (mem t) pd. \<not> in_page p b" unfolding ko(2) using b by blast
      then show ?thesis using u(5) ok(5) b by simp
    qed
    ultimately show ?thesis using u(2) mem_only_trans [OF ok(3) u(3)] by blast
  qed
qed

text \<open>The layout of the kernel: its data starts on a page boundary above the text, its end lies below the top of memory.\<close>

definition layout_ok :: "'z kmemst_scheme \<Rightarrow> bool" where
  "layout_ok s \<longleftrightarrow> KERNBASE < kend s \<and> kdata s mod PGSIZE = 0 \<and> KERNLINK < kdata s \<and> kdata s < P2V PHYSTOP"

lemma kdata_range:
  assumes "layout_ok s"
  shows "2148532224 + 4096 \<le> unat (kdata s)" "unat (kdata s) + 4096 \<le> 2382364672" "unat (kdata s) = 4096 * vpn (kdata s)"
proof -
  have "unat (kdata s) mod 4096 = 0" using assms by (simp add: layout_ok_def aligned_unat)
  then show q: "unat (kdata s) = 4096 * vpn (kdata s)" by (auto simp: vpn_def)
  have "2148532224 < unat (kdata s)" "unat (kdata s) < 2382364672"
    using assms by (simp_all add: layout_ok_def layout_defs P2V_def word_less_nat_alt)
  then show "2148532224 + 4096 \<le> unat (kdata s)" "unat (kdata s) + 4096 \<le> 2382364672" using q by simp_all
qed

abbreviation "k_io \<equiv> \<lparr>virt = 0x80000000, phys_start = 0, phys_end = 0x100000, perm = PTE_W\<rparr> :: kmap_entry"
abbreviation "k_text d \<equiv> \<lparr>virt = 0x80100000, phys_start = 0x100000, phys_end = V2P d, perm = 0\<rparr> :: kmap_entry"
abbreviation "k_data d \<equiv> \<lparr>virt = d, phys_start = V2P d, phys_end = 0xE000000, perm = PTE_W\<rparr> :: kmap_entry"
abbreviation "k_dev \<equiv> \<lparr>virt = 0xFE000000, phys_start = 0xFE000000, phys_end = 0, perm = PTE_W\<rparr> :: kmap_entry"

lemma kmap_list: "kmap d = [k_io, k_text d, k_data d, k_dev]"
  by (simp add: kmap_def layout_defs) (simp add: V2P_def KERNBASE_def)

lemma kmap_ranges:
  assumes "layout_ok s"
  defines "d \<equiv> vpn (kdata s)"
  shows "vpn (last_va k_io) = 0x800FF" "vpn (last_va (k_text (kdata s))) = d - 1" "vpn (last_va (k_data (kdata s))) = 0x8E000 - 1" "vpn (last_va k_dev) = 0xFFFFF"
    "vpn 0x80000000 = 0x80000" "vpn 0x80100000 = 0x80100" "vpn 0xFE000000 = 0xFE000" "0x80101 \<le> d" "d < 0x8E000"
    "unat (V2P (kdata s) - 0x100000) = unat (kdata s) - 0x80100000" "unat (0xE000000 - V2P (kdata s)) = 0x8E000000 - unat (kdata s)"
proof -
  note r = kdata_range [OF assms(1)]
  show "unat (V2P (kdata s) - 0x100000) = unat (kdata s) - 0x80100000" "unat (0xE000000 - V2P (kdata s)) = 0x8E000000 - unat (kdata s)"
    using r by (simp_all add: V2P_def KERNBASE_def unat_sub_if_size word_size)
  show "vpn (last_va k_io) = 0x800FF" "vpn (last_va k_dev) = 0xFFFFF" by (simp_all add: last_va_def vpn_def)
  show "vpn 0x80000000 = 0x80000" "vpn 0x80100000 = 0x80100" "vpn 0xFE000000 = 0xFE000" by (simp_all add: vpn_def)
  show "0x80101 \<le> d" "d < 0x8E000" using r by (simp_all add: d_def)
  have "last_va (k_text (kdata s)) = kdata s - 1" "last_va (k_data (kdata s)) = 0x8DFFFFFF" by (simp_all add: last_va_def V2P_def KERNBASE_def)
  moreover have "unat (kdata s - 1) = 4096 * d - 1" using r by (simp add: d_def unat_sub_if_size word_size)
  moreover have "(4096 * d - 1) div 4096 = d - 1" by (cases d) simp_all
  ultimately show "vpn (last_va (k_text (kdata s))) = d - 1" "vpn (last_va (k_data (kdata s))) = 0x8E000 - 1" by (simp_all only: vpn_def) simp
qed

lemma kmap_funs:
  assumes "layout_ok s"
  defines "d \<equiv> vpn (kdata s)"
  shows "kmap_fun k_io f = mapped f 0x80000 0x100 0 PTE_W" "kmap_fun (k_text (kdata s)) f = mapped f 0x80100 (d - 0x80100) 0x100000 0"
    "kmap_fun (k_data (kdata s)) f = mapped f d (0x8E000 - d) (V2P (kdata s)) PTE_W" "kmap_fun k_dev f = mapped f 0xFE000 0x2000 0xFE000000 PTE_W"
proof -
  note k = kmap_ranges [OF assms(1), folded d_def]
  show "kmap_fun k_io f = mapped f 0x80000 0x100 0 PTE_W" "kmap_fun k_dev f = mapped f 0xFE000 0x2000 0xFE000000 PTE_W"
    by (simp_all add: kmap_fun_def k(1,4,5,7))
  have "Suc (d - 1) = d" using k(8) by simp
  then show "kmap_fun (k_text (kdata s)) f = mapped f 0x80100 (d - 0x80100) 0x100000 0" by (simp add: kmap_fun_def k(2,6))
  show "kmap_fun (k_data (kdata s)) f = mapped f d (0x8E000 - d) (V2P (kdata s)) PTE_W" by (simp add: kmap_fun_def k(3) d_def)
qed

lemma kmap_ok:
  assumes "layout_ok s"
  shows "kmaps_ok (kmap (kdata s)) (\<lambda>_. 0)"
proof -
  note r = kdata_range [OF assms] and k = kmap_ranges [OF assms] and f = kmap_funs [OF assms]
  have pos: "0 < V2P (kdata s) - 0x100000" "0 < 0xE000000 - V2P (kdata s)" using k(10,11) r by (simp_all add: word_less_nat_alt)
  show ?thesis unfolding kmap_list kmaps_ok.simps f k(1-7) kmap_entry.select_convs
    by (intro conjI allI impI) (use r k(8-11) pos in \<open>auto simp: mapped_def word_less_nat_alt\<close>)
qed

text \<open>Every address from the kernel's base to the top of memory is mapped to itself in the direct map.\<close>

lemma kmap_direct:
  assumes "layout_ok s" "0x80000 \<le> n" "n < 0x8E000"
  shows "present (kmaps (kmap (kdata s)) (\<lambda>_. 0) n)" "frame (kmaps (kmap (kdata s)) (\<lambda>_. 0) n) = of_nat n * PGSIZE"
proof -
  note r = kdata_range [OF assms(1)] and k = kmap_ranges [OF assms(1)]
  have "kdata s = of_nat (unat (kdata s))" by simp
  then have data: "V2P (kdata s) = of_nat (vpn (kdata s)) * 4096 - 0x80000000" unfolding r(3) by (simp add: V2P_def KERNBASE_def mult.commute)
  have "\<exists>fl. kmaps (kmap (kdata s)) (\<lambda>_. 0) n = ((of_nat n - 0x80000) * 4096) OR fl OR PTE_P \<and> fl AND NOT 0xFFF = 0"
  proof -
    consider "n < 0x80100" | "0x80100 \<le> n" "n < vpn (kdata s)" | "vpn (kdata s) \<le> n" by linarith
    then show ?thesis
    proof cases
      case 1
      then show ?thesis unfolding kmap_list kmaps.simps kmap_funs [OF assms(1)] using assms(2) k(8)
        by (intro exI [of _ PTE_W]) (simp add: mapped_def PTE_W_def PGSIZE_def)
    next
      case 2
      then have "kmaps (kmap (kdata s)) (\<lambda>_. 0) n = (0x100000 + (of_nat n - of_nat 0x80100) * PGSIZE) OR 0 OR PTE_P"
        unfolding kmap_list kmaps.simps kmap_funs [OF assms(1)] using k(8,9) by (simp add: mapped_def)
      moreover have "0x100000 + (of_nat n - of_nat 0x80100) * PGSIZE = (of_nat n - 0x80000) * 4096" by (simp add: PGSIZE_def algebra_simps)
      ultimately have "kmaps (kmap (kdata s)) (\<lambda>_. 0) n = ((of_nat n - 0x80000) * 4096) OR 0 OR PTE_P" by (simp only:)
      then show ?thesis by (intro exI [of _ 0] conjI) simp_all
    next
      case 3
      then have "kmaps (kmap (kdata s)) (\<lambda>_. 0) n = (V2P (kdata s) + (of_nat n - of_nat (vpn (kdata s))) * PGSIZE) OR PTE_W OR PTE_P"
        unfolding kmap_list kmaps.simps kmap_funs [OF assms(1)] using assms(3) k(8,9) by (simp add: mapped_def)
      moreover have "V2P (kdata s) + (of_nat n - of_nat (vpn (kdata s))) * PGSIZE = (of_nat n - 0x80000) * 4096" by (simp add: data PGSIZE_def algebra_simps)
      ultimately have "kmaps (kmap (kdata s)) (\<lambda>_. 0) n = ((of_nat n - 0x80000) * 4096) OR PTE_W OR PTE_P" by (simp only:)
      then show ?thesis by (intro exI [of _ PTE_W] conjI) (simp_all add: PTE_W_def)
    qed
  qed
  then obtain fl where fl: "kmaps (kmap (kdata s)) (\<lambda>_. 0) n = ((of_nat n - 0x80000) * 4096) OR fl OR PTE_P" "fl AND NOT 0xFFF = 0" by blast
  show "present (kmaps (kmap (kdata s)) (\<lambda>_. 0) n)" using fl(1) by simp
  have "PTE_ADDR (((of_nat n - 0x80000) * 4096) OR fl OR PTE_P) = (of_nat n - 0x80000) * 4096"
    using PTE_ADDR_or [OF _ flags_or_P [OF fl(2)]] aligned_add [of 0 "of_nat n - 0x80000"] by (simp add: PGSIZE_def)
  then have "frame (kmaps (kmap (kdata s)) (\<lambda>_. 0) n) = (of_nat n - 0x80000) * 4096 + 0x80000000"
    unfolding fl(1) frame_def by (simp only: P2V_def KERNBASE_def)
  then show "frame (kmaps (kmap (kdata s)) (\<lambda>_. 0) n) = of_nat n * PGSIZE" by (simp add: PGSIZE_def algebra_simps)
qed

section \<open>A new address space\<close>

lemma zeroed_pgdir:
  assumes "kfrees s (x # xs)"
  shows "\<exists>t. kalloc s = Done x t \<and> mem_only s t \<and> pgdir_ok (t\<lparr>mem := memset x 0 PGSIZE (mem t)\<rparr>) x xs \<and> mem t = mem s \<and>
    tables (memset x 0 PGSIZE (mem t)) x = {} \<and> (\<forall>n<1048576. pte (memset x 0 PGSIZE (mem t)) x n = 0)"
proof -
  obtain t where t: "kalloc s = Done x t" "kfrees t xs" "mem_only s t" "mem t = mem s" using kalloc_mem_only [OF assms] by blast
  have x: "kpage (kend s) x" "x \<notin> set xs" "\<forall>y\<in>set xs. kpage (kend s) y" using assms by (auto simp: kfrees_def kmem_inv_def)
  let ?m = "memset x 0 PGSIZE (mem t)"
  have "kfrees (t\<lparr>mem := ?m\<rparr>) xs"
  proof (rule kfrees_mem [OF t(2)])
    fix a y assume "y \<in> set xs" "in_page y a"
    then show "?m a = mem t a" using x pages_apart [of y x a] by (auto simp: memset_spec in_page_def [symmetric] kpage_def)
  qed
  moreover have tb: "tbl ?m x i = None" if "i < 1024" for i
    using load_zeroed [OF kpage_aligned [OF x(1)] that, of "mem t"] by (simp add: tbl_def pde_def)
  ultimately have "pgdir_ok (t\<lparr>mem := ?m\<rparr>) x xs" using x mem_only_kend [OF t(3)] by (simp add: pgdir_ok_def)
  moreover have "tables ?m x = {}" using tb by (auto simp: tables_def)
  moreover have "pte ?m x n = 0" if "n < 1048576" for n using tb [of "n div 1024"] that by (simp add: pte_def less_mult_imp_div_less)
  ultimately show ?thesis using t by blast
qed

lemma setupkvm_run:
  assumes "kfrees s xs" "layout_ok s"
  shows "\<exists>d t ys. setupkvm s = Done d t \<and> mem_only s t \<and> (\<forall>b. (\<forall>x\<in>set xs. \<not> in_page x b) \<longrightarrow> mem t b = mem s b) \<and>
    (d = 0 \<and> kfrees t ys \<and> set ys = set xs \<or>
     d \<noteq> 0 \<and> uvm_ok t d ys \<and> set ys \<union> owned (mem t) d = set xs \<and> (\<forall>n<524288. \<not> present (pte (mem t) d n)) \<and>
     (\<forall>va. KERNBASE \<le> va \<and> va < P2V PHYSTOP \<longrightarrow> translate (mem t) d va = Some va))"
proof (cases xs)
  case Nil
  then show ?thesis using kalloc_empty [of s] assms(1) by (fastforce simp: setupkvm_def)
next
  case (Cons x ys)
  obtain t where t: "kalloc s = Done x t" "mem_only s t" "pgdir_ok (t\<lparr>mem := memset x 0 PGSIZE (mem t)\<rparr>) x ys" "mem t = mem s"
    "tables (memset x 0 PGSIZE (mem t)) x = {}" "\<forall>n<1048576. pte (memset x 0 PGSIZE (mem t)) x n = 0"
    using zeroed_pgdir [of s x ys] assms(1) Cons by auto
  let ?t = "t\<lparr>mem := memset x 0 PGSIZE (mem t)\<rparr>"
  have x: "x \<noteq> 0" using assms(1) Cons by (auto simp: kfrees_def kmem_inv_def kpage_def)
  have c: "kend t = kend s" "kdata t = kdata s" using t(2) by (auto simp: mem_only_def)
  have zero: "\<forall>n<1048576. pte (mem ?t) x n = (\<lambda>_. 0) n" using t(6) by simp
  note kc = kmaps_ok_cong [OF zero]
  have kok: "kmaps_ok (kmap (kdata s)) (pte (mem ?t) x)" using kmap_ok [OF assms(2)] kc by blast
  have up: "KERNBASE < kend ?t" "\<forall>n<524288. \<not> present (pte (mem ?t) x n)" using assms(2) c zero by (simp_all add: layout_ok_def)
  obtain r u zs where u: "map_kernel x (kmap (kdata s)) ?t = Done r u" "mem_only ?t u"
    "\<forall>b. \<not> in_page x b \<and> (\<forall>y\<in>set ys \<union> tables (mem ?t) x. \<not> in_page y b) \<longrightarrow> mem u b = mem ?t b"
    "r = None \<and> extends x ?t ys u zs \<and> (\<forall>n<1048576. pte (mem u) x n = kmaps (kmap (kdata s)) (pte (mem ?t) x) n) \<and> (\<forall>n<524288. \<not> present (pte (mem u) x n)) \<or>
     r = Some 0 \<and> kfrees u zs \<and> set zs = insert x (set ys \<union> tables (mem ?t) x)"
    using map_kernel_run [OF t(3) up kok] by blast
  have high: "\<not> P2V PHYSTOP > DEVSPACE" by (simp add: P2V_def layout_defs)
  have run: "setupkvm s = Done (case r of Some e \<Rightarrow> e | None \<Rightarrow> x) u"
    using t(1) x high u(1) c(2) by (simp add: setupkvm_def)
  have mo: "mem_only s u" by (rule mem_only_trans [OF mem_only_trans [OF t(2) mem_only_mem] u(2)])
  have fr: "mem u b = mem s b" if "\<forall>y\<in>set xs. \<not> in_page y b" for b
    using u(3) that Cons t(4,5) by (simp add: memset_spec in_page_def)
  show ?thesis
  proof (cases r)
    case None
    then have e: "extends x ?t ys u zs" "\<forall>n<524288. \<not> present (pte (mem u) x n)"
      "\<forall>n<1048576. pte (mem u) x n = kmaps (kmap (kdata s)) (\<lambda>_. 0) n" using u(4) kc by auto
    have "pgdir_ok u x zs" "KERNBASE < kend u" using e(1) up(1) mem_only_kend [OF u(2)] by (simp_all add: extends_def)
    note ko = kernel_only [OF this e(2)]
    have "set zs \<union> owned (mem u) x = set xs" using e(1) Cons t(5) ko(2) by (auto simp: extends_def)
    moreover have "translate (mem u) x va = Some va" if "KERNBASE \<le> va" "va < P2V PHYSTOP" for va
    proof -
      have n: "0x80000 \<le> vpn va" "vpn va < 0x8E000"
        using that by (simp_all add: vpn_def P2V_def layout_defs word_le_nat_alt word_less_nat_alt less_mult_imp_div_less)
      show ?thesis using kmap_direct [OF assms(2) n] e(3) vpn_less [of va] vpn_parts(1) [of va] by (simp add: translate_pte)
    qed
    ultimately show ?thesis using run None mo fr ko(1) e(2) x by (intro exI [of _ x] exI [of _ u] exI [of _ zs]) simp
  next
    case (Some e)
    then show ?thesis using run mo fr u(4) Cons t(5) by (intro exI [of _ 0] exI [of _ u] exI [of _ zs]) auto
  qed
qed

section \<open>Copying an address space\<close>

text \<open>Changes confined to a set of pages, and two address spaces of which the second is built from the pages of \<open>X\<close>.\<close>

definition confined :: "u32 set \<Rightarrow> 'z kmemst_scheme \<Rightarrow> 'z kmemst_scheme \<Rightarrow> bool" where
  "confined X s t \<longleftrightarrow> mem_only s t \<and> (\<forall>b. (\<forall>x\<in>X. \<not> in_page x b) \<longrightarrow> mem t b = mem s b)"

definition two_ok :: "'z kmemst_scheme \<Rightarrow> u32 \<Rightarrow> u32 \<Rightarrow> u32 set \<Rightarrow> u32 list \<Rightarrow> bool" where
  "two_ok s pd d X xs \<longleftrightarrow> uvm_ok s pd xs \<and> uvm_ok s d xs \<and> set xs \<union> owned (mem s) d = X \<and> X \<inter> owned (mem s) pd = {}"

lemma confined_trans: "confined X s t \<Longrightarrow> confined X t u \<Longrightarrow> confined X s u"
  unfolding confined_def using mem_only_trans by (metis (no_types, lifting))

lemma two_ok_pages:
  assumes "two_ok s pd d X xs" "x \<in> X"
  shows "kpage (kend s) x"
proof (cases "x \<in> set xs")
  case True
  then show ?thesis using assms(1) by (auto simp: two_ok_def uvm_ok_def pgdir_ok_def kfrees_def kmem_inv_def)
next
  case False
  then show ?thesis using assms ownedD(1) [of x s d xs] by (auto simp: two_ok_def)
qed

lemma outside_confined:
  assumes "uvm_ok s pd xs" "confined X s t" "\<forall>x\<in>X. kpage (kend s) x" "X \<inter> owned (mem s) pd = {}" "kfrees t ys" "set ys \<inter> owned (mem s) pd = {}"
  shows "uvm_ok t pd ys" "\<And>k. k < 1048576 \<Longrightarrow> pte (mem t) pd k = pte (mem s) pd k" "owned (mem t) pd = owned (mem s) pd"
    "\<And>va. va < KERNBASE \<Longrightarrow> uview (mem t) pd va = uview (mem s) pd va"
proof -
  have keep: "mem t a = mem s a" if "p \<in> owned (mem s) pd" "in_page p a" for p a
  proof -
    have "\<not> in_page x a" if x: "x \<in> X" for x
    proof -
      have "p \<noteq> x" using assms(4) x \<open>p \<in> owned (mem s) pd\<close> by auto
      then show ?thesis using pages_apart [OF ownedD(2) [OF \<open>p \<in> owned (mem s) pd\<close> assms(1)] kpage_aligned] assms(3) x \<open>in_page p a\<close> by blast
    qed
    then show ?thesis using assms(2) by (simp add: confined_def)
  qed
  have k: "kend t = kend s" using assms(2) by (simp add: confined_def mem_only_kend)
  note o = uvm_other [OF assms(1,5) k assms(6) keep]
  show "uvm_ok t pd ys" by (rule o(1))
  show "pte (mem t) pd k = pte (mem s) pd k" if "k < 1048576" for k by (rule o(2) [OF _ _ that])
  show "owned (mem t) pd = owned (mem s) pd" by (rule o(3))
  show "uview (mem t) pd va = uview (mem s) pd va" if "va < KERNBASE" for va by (rule o(4) [OF _ _ that])
qed

lemma present_table: "present (pte m pd n) \<Longrightarrow> \<exists>p. tbl m pd (n div 1024) = Some p \<and> load32 m (p + 4 * of_nat (n mod 1024)) = pte m pd n"
  by (auto simp: pte_def split: option.splits)

lemma flags_present: "present e \<Longrightarrow> PTE_FLAGS e OR PTE_P = PTE_FLAGS e"
proof -
  assume "present e"
  have "odd e"
  proof (rule ccontr)
    assume "\<not> odd e"
    then have "e AND 1 = 0" by (simp add: and_one_eq even_iff_mod_2_eq_zero)
    then show False using \<open>present e\<close> by (simp add: present_def PTE_P_def)
  qed
  then show ?thesis
    by (intro bit_word_eqI) (auto simp: PTE_FLAGS_def PTE_P_def mask12 bit_simps bit_0)
qed

lemma flags_small: "PTE_FLAGS e AND NOT 0xFFF = 0"
  unfolding PTE_FLAGS_def mask12 by (intro bit_word_eqI) (auto simp: bit_simps)

text \<open>Taking a page off the free list and filling it.\<close>

lemma alloc_fill:
  assumes "uvm_ok s pd (m # xs)" "\<forall>b. \<not> in_page m b \<longrightarrow> mm b = mem s b" "kalloc s = Done m t"
  shows "mem t = mem s" "confined {m} s (t\<lparr>mem := mm\<rparr>)" "kpage (kend s) m" "uvm_ok (t\<lparr>mem := mm\<rparr>) pd xs"
    "m \<notin> set xs \<union> owned (mm) pd" "owned (mm) pd = owned (mem s) pd"
    "\<And>k. k < 1048576 \<Longrightarrow> pte (mm) pd k = pte (mem s) pd k" "\<And>va. va < KERNBASE \<Longrightarrow> uview (mm) pd va = uview (mem s) pd va"
proof -
  have free: "kfrees s (m # xs)" using assms(1) by (simp add: uvm_ok_def pgdir_ok_def)
  have t: "kfrees t xs" "mem_only s t" "mem t = mem s" using kalloc_mem_only [OF free] assms(3) by auto
  have m: "kpage (kend s) m" "m \<notin> set xs" "\<forall>x\<in>set xs. kpage (kend s) x" using free by (auto simp: kfrees_def kmem_inv_def)
  let ?t = "t\<lparr>mem := mm\<rparr>"
  have c: "confined {m} s ?t" using mem_only_trans [OF t(2) mem_only_mem] assms(2) by (auto simp: confined_def)
  have kf: "kfrees ?t xs"
  proof (rule kfrees_mem [OF t(1)])
    fix a x assume "x \<in> set xs" "in_page x a"
    then have "\<not> in_page m a" using m pages_apart [of x m a] by (auto simp: kpage_def)
    then show "mm a = mem t a" using assms(2) t(3) by simp
  qed
  have dj: "\<forall>x\<in>{m}. kpage (kend s) x" "{m} \<inter> owned (mem s) pd = {}" "set xs \<inter> owned (mem s) pd = {}"
    using m(1) ownedD(3) [OF _ assms(1)] by auto
  note o = outside_confined [OF assms(1) c dj(1,2) kf dj(3)]
  show "mem t = mem s" "confined {m} s ?t" "kpage (kend s) m" "uvm_ok ?t pd xs" using t c m(1) o(1) by simp_all
  show "owned (mm) pd = owned (mem s) pd" using o(3) by simp
  then show "m \<notin> set xs \<union> owned (mm) pd" using m(2) dj(2) by simp
  show "pte (mm) pd k = pte (mem s) pd k" if "k < 1048576" for k using o(2) [OF that] by simp
  show "uview (mm) pd va = uview (mem s) pd va" if "va < KERNBASE" for va using o(4) [OF that] by simp
qed

lemma kfree_page_room: "kpage e v \<Longrightarrow> unat v + unat PGSIZE < 2 ^ 32"
  using V2P_range [of v] by (simp add: kpage_def PGSIZE_def)

lemma extends_confined:
  assumes "extends d s xs t ys" "insert d (set xs \<union> tables (mem s) d) \<subseteq> X"
  shows "confined X s t"
  using assms unfolding extends_def confined_def by blast

text \<open>Giving a page of \<open>X\<close> back that the second address space has not taken.\<close>

lemma free_two:
  assumes "uvm_ok s pd xs" "uvm_ok s d xs" "set xs \<union> owned (mem s) d \<union> {m} = X" "X \<inter> owned (mem s) pd = {}"
    "kpage (kend s) m" "m \<notin> set xs \<union> owned (mem s) d"
  shows "kfree m s = Done () (freed m s)" "two_ok (freed m s) pd d X (m # xs)" "confined X s (freed m s)"
proof -
  have free: "kfrees s xs" using assms(1) by (simp add: uvm_ok_def pgdir_ok_def)
  show "kfree m s = Done () (freed m s)" using free assms(5) by (intro kfree_run) (simp_all add: kfrees_def)
  have kf: "kfrees (freed m s) (m # xs)" using free assms(5,6) kmem_inv_freed [of s xs m] by (simp add: kfrees_def)
  have c: "confined {m} s (freed m s)"
    using freed_frame [OF kpage_aligned [OF assms(5)]] mem_only_freed by (auto simp: confined_def)
  then show "confined X s (freed m s)" using assms(3) by (auto simp: confined_def)
  have k: "\<forall>x\<in>{m}. kpage (kend s) x" using assms(5) by simp
  have dj: "{m} \<inter> owned (mem s) d = {}" "set (m # xs) \<inter> owned (mem s) d = {}" "{m} \<inter> owned (mem s) pd = {}" "set (m # xs) \<inter> owned (mem s) pd = {}"
    using assms(3,4,6) ownedD(3) [OF _ assms(2)] by auto
  note od = outside_confined [OF assms(2) c k dj(1) kf dj(2)] and op = outside_confined [OF assms(1) c k dj(3) kf dj(4)]
  show "two_ok (freed m s) pd d X (m # xs)" using od(1,3) op(1,3) assms(3,4) by (auto simp: two_ok_def)
qed

lemma copy_page_run:
  assumes "two_ok s pd d X xs" "unat a = 4096 * n" "n < 524288" "present (pte (mem s) pd n)" "\<not> present (pte (mem s) d n)"
  shows "\<exists>r t ys. copy_page pd d a s = Done r t \<and> confined X s t \<and> two_ok t pd d X ys \<and>
    (r = None \<longrightarrow> (\<forall>va. va < KERNBASE \<longrightarrow> uview (mem t) d va = (if vpn va = n then uview (mem s) pd va else uview (mem s) d va)) \<and>
      (\<forall>k<1048576. k \<noteq> n \<longrightarrow> pte (mem t) d k = pte (mem s) d k))"
proof -
  have two: "uvm_ok s pd xs" "uvm_ok s d xs" "set xs \<union> owned (mem s) d = X" "X \<inter> owned (mem s) pd = {}"
    using assms(1) by (simp_all add: two_ok_def)
  define e where "e = pte (mem s) pd n"
  have okpd: "pgdir_ok s pd xs" using two(1) by (simp add: uvm_ok_def)
  obtain p where p: "tbl (mem s) pd (n div 1024) = Some p" "load32 (mem s) (p + 4 * of_nat (n mod 1024)) = e"
    using present_table [OF assms(4)] by (auto simp: e_def)
  have n: "n div 1024 < 1024" "vpn a = n" using assms(2,3) by (simp_all add: less_mult_imp_div_less vpn_aligned)
  have w: "walkpgdir pd a False s = Done (p + 4 * of_nat (n mod 1024)) s" using walkpgdir_found [of s pd a p] p(1) n(2) by simp
  have nz: "p + 4 * of_nat (n mod 1024) \<noteq> 0" using cell_eq [of p 0 "n mod 1024" 0] tableD [OF okpd p(1) n(1)] by simp
  have pr: "e AND PTE_P \<noteq> 0" using assms(4) by (simp add: e_def present_def)
  show ?thesis
  proof (cases xs)
    case Nil
    obtain t where t: "kalloc s = Done 0 t" "kfrees t []" "mem_only s t" "mem t = mem s"
      using kalloc_empty [of s] okpd Nil by (auto simp: pgdir_ok_def)
    have "copy_page pd d a s = Done (Some ()) t" using w nz p(2) pr t(1) by (simp add: copy_page_def)
    moreover have c: "confined {} s t" using t(3,4) by (simp add: confined_def)
    moreover have "two_ok t pd d X []"
      using outside_confined(1,3) [OF two(1) c _ _ t(2)] outside_confined(1,3) [OF two(2) c _ _ t(2)] two(3,4) Nil by (simp add: two_ok_def)
    ultimately show ?thesis using t(3,4) by (intro exI [of _ "Some ()"] exI [of _ t] exI [of _ "[]"]) (simp add: confined_def)
  next
    case (Cons m ys)
    define f where "f = memmove m (frame e) PGSIZE"
    have kf: "kpage (kend s) (frame e)" using uvm_okD(1) [OF two(1) assms(3,4)] by (simp add: e_def)
    have km: "kpage (kend s) m" by (rule two_ok_pages [OF assms(1)]) (use two(3) Cons in auto)
    have f: "f mm b = (if in_page m b then mm (frame e + (b - m)) else mm b)" for mm b
      using memmove_spec [of "frame e" PGSIZE m mm b] kfree_page_room [OF kf] kfree_page_room [OF km] by (simp add: f_def in_page_def)
    have ud: "uvm_ok s d (m # ys)" and up: "uvm_ok s pd (m # ys)" using two Cons by simp_all
    obtain t where t: "kalloc s = Done m t" using kalloc_mem_only [of s m ys] up by (auto simp: uvm_ok_def pgdir_ok_def)
    have fm: "\<forall>b. \<not> in_page m b \<longrightarrow> f (mem s) b = mem s b" using f by simp
    note ad = alloc_fill [where mm = "f (mem s)", OF ud fm t] and ap = alloc_fill [where mm = "f (mem s)", OF up fm t]
    define t' where "t' = t\<lparr>mem := f (mem s)\<rparr>"
    have "m \<in> X" using two(3) Cons by auto
    then have t': "mem t' = f (mem s)" "kend t' = kend s" "confined X s t'" "uvm_ok t' pd ys" "uvm_ok t' d ys"
      using ad(2,4) ap(4) mem_only_kend [of s t'] by (auto simp: t'_def confined_def)
    obtain r u zs where u: "mappages d a PGSIZE (V2P m) (PTE_FLAGS e) t' = Done r u" "extends d t' ys u zs" "uvm_ok u d zs" "r = 0 \<or> r = -1 \<and> zs = []"
      "\<forall>k<1048576. pte (mem u) d k = (if r = 0 \<and> k = n then V2P m OR PTE_FLAGS e OR PTE_P else pte (mem t') d k)"
      "\<forall>va. va < KERNBASE \<longrightarrow> uview (mem u) d va = (if r = 0 \<and> vpn va = n then Some (mem t' (m + (va AND 0xFFF)), PTE_FLAGS e OR PTE_P) else uview (mem t') d va)"
      "set zs \<union> owned (mem u) d = set ys \<union> owned (mem t') d \<union> (if r = 0 then {m} else {})"
      using map_user_view [OF t'(5) assms(2,3), of m "PTE_FLAGS e"] assms(3,5) ad(5,7) t'(1,2) km flags_small by auto
    have X: "set ys \<union> owned (mem t') d \<union> {m} = X" using two(3) Cons ad(6) t'(1) by auto
    have cu: "confined X t' u" using X by (intro extends_confined [OF u(2)]) (auto simp: owned_def)
    have ku: "kend u = kend s" using cu t'(2) mem_only_kend [of t' u] by (simp add: confined_def)
    have pX: "\<forall>x\<in>X. kpage (kend t') x" using two_ok_pages [OF assms(1)] t'(2) by simp
    have dX: "X \<inter> owned (mem t') pd = {}" "set zs \<inter> owned (mem t') pd = {}" using two(4) ap(6) t'(1) u(7) X by (auto split: if_splits)
    have "kfrees u zs" using u(3) by (simp add: uvm_ok_def pgdir_ok_def)
    note op = outside_confined [OF t'(4) cu pX dX(1) this dX(2)]
    have cp: "confined X s u" using t'(3) cu by (rule confined_trans)
    have teq: "t\<lparr>mem := f (mem s)\<rparr> = t'" by (simp add: t'_def)
    have step: "copy_page pd d a s = (if r < 0 then thenK (kfree m) (returnK (Some ())) else returnK None) u"
      using w nz p(2) pr t ad(1) km u(1) by (simp add: copy_page_def f_def [symmetric] frame_def [symmetric] teq kpage_def)
    show ?thesis
    proof (cases "r = 0")
      case True
      have "uview (mem u) d va = (if vpn va = n then uview (mem s) pd va else uview (mem s) d va)" if "va < KERNBASE" for va
      proof (cases "vpn va = n")
        case eq: True
        have "mem t' (m + (va AND 0xFFF)) = mem s (frame e + (va AND 0xFFF))"
          using f in_page_offset [OF kpage_aligned [OF km]] t'(1) by simp
        moreover have "PTE_FLAGS e OR PTE_P = PTE_FLAGS e" using flags_present assms(4) by (simp add: e_def)
        moreover have "uview (mem u) d va = Some (mem t' (m + (va AND 0xFFF)), PTE_FLAGS e OR PTE_P)" using u(6) that True eq by simp
        moreover have "uview (mem s) pd va = Some (mem s (frame e + (va AND 0xFFF)), PTE_FLAGS e)"
          using eq assms(4) by (simp add: uview_def Let_def e_def)
        ultimately show ?thesis using eq by simp
      qed (use u(6) that True ad(8) t'(1) in auto)
      moreover have "\<forall>k<1048576. k \<noteq> n \<longrightarrow> pte (mem u) d k = pte (mem s) d k" using u(5) ad(7) t'(1) by simp
      moreover have "two_ok u pd d X zs" using op(1,3) u(3,7) True X dX(1) by (simp add: two_ok_def Un_commute)
      ultimately show ?thesis using step True cp by (intro exI [of _ None] exI [of _ u] exI [of _ zs]) auto
    next
      case False
      then have r: "r = -1" "zs = []" using u(4) by simp_all
      have own: "set zs \<union> owned (mem u) d \<union> {m} = X" "X \<inter> owned (mem u) pd = {}" "m \<notin> set zs \<union> owned (mem u) d" "kpage (kend u) m"
        using u(7) r X dX(1) op(3) ad(5) t'(1) km ku by auto
      note fr = free_two [OF op(1) u(3) own(1,2,4,3)]
      have "copy_page pd d a s = Done (Some ()) (freed m u)" using step r(1) fr(1) by simp
      then show ?thesis using fr(2) confined_trans [OF cp fr(3)]
        by (intro exI [of _ "Some ()"] exI [of _ "freed m u"] exI [of _ "m # zs"]) simp
    qed
  qed
qed

lemma two_ok_parent:
  assumes "two_ok s pd d X xs" "confined X s t" "two_ok t pd d X ys"
  shows "\<And>k. k < 1048576 \<Longrightarrow> pte (mem t) pd k = pte (mem s) pd k" "owned (mem t) pd = owned (mem s) pd"
    "\<And>va. va < KERNBASE \<Longrightarrow> uview (mem t) pd va = uview (mem s) pd va"
proof -
  have two: "uvm_ok s pd xs" "X \<inter> owned (mem s) pd = {}" "kfrees t ys" "set ys \<subseteq> X"
    using assms(1,3) by (auto simp: two_ok_def uvm_ok_def pgdir_ok_def)
  have k: "\<forall>x\<in>X. kpage (kend s) x" using two_ok_pages [OF assms(1)] by blast
  have dj: "set ys \<inter> owned (mem s) pd = {}" using two(2,4) by blast
  note o = outside_confined [OF two(1) assms(2) k two(2,3) dj]
  show "pte (mem t) pd k = pte (mem s) pd k" if "k < 1048576" for k by (rule o(2) [OF that])
  show "owned (mem t) pd = owned (mem s) pd" by (rule o(3))
  show "uview (mem t) pd va = uview (mem s) pd va" if "va < KERNBASE" for va by (rule o(4) [OF that])
qed

lemma copy_loop_run:
  assumes "two_ok s pd d X xs" "j \<le> c" "c \<le> 524288" "\<forall>k. j \<le> k \<and> k < c \<longrightarrow> present (pte (mem s) pd k) \<and> \<not> present (pte (mem s) d k)"
  shows "\<exists>r t ys. searchK [j..<c] (\<lambda>k. copy_page pd d (of_nat k * PGSIZE)) s = Done r t \<and> confined X s t \<and> two_ok t pd d X ys \<and>
    (r = None \<longrightarrow> (\<forall>va. va < KERNBASE \<longrightarrow> uview (mem t) d va = (if j \<le> vpn va \<and> vpn va < c then uview (mem s) pd va else uview (mem s) d va)))"
  using assms
proof (induction "c - j" arbitrary: j s xs)
  case 0
  then show ?case by (intro exI [of _ None] exI [of _ s] exI [of _ xs]) (auto simp: confined_def)
next
  case (Suc i)
  let ?f = "\<lambda>k. copy_page pd d (of_nat k * PGSIZE)"
  have j: "j < c" "i = c - Suc j" "Suc j \<le> c" "[j..<c] = j # [Suc j..<c]" "j < 524288" using Suc.hyps(2) Suc.prems(3) by (simp_all add: upt_conv_Cons)
  have "unat (of_nat j * PGSIZE :: u32) = 4096 * j" using j(5) unat_offset [of 0 "4096 * j"] by (simp add: PGSIZE_def mult.commute)
  then obtain r t ys where t: "?f j s = Done r t" "confined X s t" "two_ok t pd d X ys"
    "r = None \<longrightarrow> (\<forall>va. va < KERNBASE \<longrightarrow> uview (mem t) d va = (if vpn va = j then uview (mem s) pd va else uview (mem s) d va)) \<and>
      (\<forall>k<1048576. k \<noteq> j \<longrightarrow> pte (mem t) d k = pte (mem s) d k)"
    using copy_page_run [OF Suc.prems(1) _ j(5), of "of_nat j * PGSIZE"] Suc.prems(4) j(1) by auto
  note par = two_ok_parent [OF Suc.prems(1) t(2,3)]
  show ?case
  proof (cases r)
    case (Some x)
    then have "searchK [j..<c] ?f s = Done (Some x) t" using t(1) j(4) by simp
    then show ?thesis using t(2,3) by (intro exI [of _ "Some x"] exI [of _ t] exI [of _ ys]) simp
  next
    case None
    have step: "searchK [j..<c] ?f s = searchK [Suc j..<c] ?f t" using t(1) j(4) None by simp
    have "\<forall>k. Suc j \<le> k \<and> k < c \<longrightarrow> present (pte (mem t) pd k) \<and> \<not> present (pte (mem t) d k)"
    proof (intro allI impI)
      fix k assume k: "Suc j \<le> k \<and> k < c"
      then have "k < 1048576" "k \<noteq> j" "j \<le> k" using Suc.prems(3) by simp_all
      then show "present (pte (mem t) pd k) \<and> \<not> present (pte (mem t) d k)" using par(1) t(4) None Suc.prems(4) k by simp
    qed
    from Suc.hyps(1) [OF j(2) t(3) j(3) Suc.prems(3) this] obtain r' u zs where u: "searchK [Suc j..<c] ?f t = Done r' u" "confined X t u" "two_ok u pd d X zs"
      "r' = None \<longrightarrow> (\<forall>va. va < KERNBASE \<longrightarrow> uview (mem u) d va = (if Suc j \<le> vpn va \<and> vpn va < c then uview (mem t) pd va else uview (mem t) d va))"
      by blast
    have "uview (mem u) d va = (if j \<le> vpn va \<and> vpn va < c then uview (mem s) pd va else uview (mem s) d va)" if "r' = None" "va < KERNBASE" for va
      using u(4) t(4) None that par(3) j(1) by auto
    then show ?thesis using step u confined_trans [OF t(2) u(2)] by (intro exI [of _ r'] exI [of _ u] exI [of _ zs]) auto
  qed
qed

lemma copyuvm_run:
  assumes "uvm_ok s pd xs" "layout_ok s" "unat n \<le> 2147483648" "\<forall>k<pages n. present (pte (mem s) pd k)"
  shows "\<exists>d t ys. copyuvm pd n s = Done d t \<and> mem_only s t \<and> uvm_ok t pd ys \<and> owned (mem t) pd = owned (mem s) pd \<and>
    (\<forall>va. va < KERNBASE \<longrightarrow> uview (mem t) pd va = uview (mem s) pd va) \<and>
    (d = 0 \<and> set ys = set xs \<or>
     d \<noteq> 0 \<and> uvm_ok t d ys \<and> set ys \<union> owned (mem t) d = set xs \<and> owned (mem t) d \<inter> owned (mem t) pd = {} \<and>
     (\<forall>va. va < KERNBASE \<longrightarrow> uview (mem t) d va = (if vpn va < pages n then uview (mem s) pd va else None)))"
proof -
  have free: "kfrees s xs" using assms(1) by (simp add: uvm_ok_def pgdir_ok_def)
  have pX: "\<forall>x\<in>set xs. kpage (kend s) x" using free by (auto simp: kfrees_def kmem_inv_def)
  have dX: "set xs \<inter> owned (mem s) pd = {}" using ownedD(3) [OF _ assms(1)] by auto
  obtain d t ys where t: "setupkvm s = Done d t" "confined (set xs) s t"
    "d = 0 \<and> kfrees t ys \<and> set ys = set xs \<or> d \<noteq> 0 \<and> uvm_ok t d ys \<and> set ys \<union> owned (mem t) d = set xs \<and> (\<forall>n<524288. \<not> present (pte (mem t) d n))"
    using setupkvm_run [OF free assms(2)] unfolding confined_def by blast
  have kt: "kfrees t ys" "set ys \<subseteq> set xs" using t(3) by (auto simp: uvm_ok_def pgdir_ok_def)
  have dy: "set ys \<inter> owned (mem s) pd = {}" using kt(2) dX by blast
  note par = outside_confined [OF assms(1) t(2) pX dX kt(1) dy]
  show ?thesis
  proof (cases "d = 0")
    case True
    then have "copyuvm pd n s = Done 0 t" using t(1) by (simp add: copyuvm_def)
    then show ?thesis using par t(2,3) True by (intro exI [of _ 0] exI [of _ t] exI [of _ ys]) (simp add: confined_def)
  next
    case False
    then have d: "uvm_ok t d ys" "set ys \<union> owned (mem t) d = set xs" "\<forall>n<524288. \<not> present (pte (mem t) d n)" using t(3) by auto
    have two: "two_ok t pd d (set xs) ys" using par(1,3) d dX by (simp add: two_ok_def)
    have c: "pages n \<le> 524288" using assms(3) by (simp add: pages_def)
    have all: "\<forall>k. 0 \<le> k \<and> k < pages n \<longrightarrow> present (pte (mem t) pd k) \<and> \<not> present (pte (mem t) d k)"
    proof (intro allI impI)
      fix k assume k: "0 \<le> k \<and> k < pages n"
      then have "k < 524288" "k < 1048576" using c by simp_all
      then show "present (pte (mem t) pd k) \<and> \<not> present (pte (mem t) d k)" using par(2) [of k] assms(4) d(3) k by simp
    qed
    have none: "uview (mem t) d va = None" if "va < KERNBASE" for va
    proof -
      have "vpn va < 524288" using that by (simp add: vpn_user)
      then have "\<not> present (pte (mem t) d (vpn va))" using d(3) by blast
      then show ?thesis by (simp add: uview_def)
    qed
    obtain r u zs where u: "searchK [0..<pages n] (\<lambda>k. copy_page pd d (of_nat k * PGSIZE)) t = Done r u" "confined (set xs) t u" "two_ok u pd d (set xs) zs"
      "r = None \<longrightarrow> (\<forall>va. va < KERNBASE \<longrightarrow> uview (mem u) d va = (if 0 \<le> vpn va \<and> vpn va < pages n then uview (mem t) pd va else uview (mem t) d va))"
      using copy_loop_run [OF two _ c all] by blast
    have cs: "confined (set xs) s u" using t(2) u(2) by (rule confined_trans)
    have uu: "uvm_ok u pd zs" "uvm_ok u d zs" "set zs \<union> owned (mem u) d = set xs" using u(3) by (simp_all add: two_ok_def)
    have p2: "owned (mem u) pd = owned (mem s) pd" "\<And>va. va < KERNBASE \<Longrightarrow> uview (mem u) pd va = uview (mem s) pd va"
      using two_ok_parent(2,3) [OF two u(2,3)] par(3,4) by simp_all
    have run: "copyuvm pd n s = (case r of None \<Rightarrow> returnK d | Some _ \<Rightarrow> thenK (freevm d) (returnK 0)) u"
      using t(1) False u(1) by (simp add: copyuvm_def pages_def)
    show ?thesis
    proof (cases r)
      case None
      have "uview (mem u) d va = (if vpn va < pages n then uview (mem s) pd va else None)" if "va < KERNBASE" for va
        using u(4) None that none par(4) by simp
      moreover have "owned (mem u) d \<inter> owned (mem u) pd = {}" using uu(3) dX p2(1) by auto
      ultimately show ?thesis using run None uu p2 cs False by (intro exI [of _ d] exI [of _ u] exI [of _ zs]) (simp add: confined_def)
    next
      case (Some x)
      obtain v ws where v: "freevm d u = Done () v" "kfrees v ws" "mem_only u v" "set ws = set zs \<union> owned (mem u) d"
        "\<forall>b. (\<forall>p\<in>owned (mem u) d. \<not> in_page p b) \<longrightarrow> mem v b = mem u b" using freevm_run [OF uu(2)] by blast
      have cv: "confined (set xs) s v"
      proof (rule confined_trans [OF cs])
        show "confined (set xs) u v" unfolding confined_def using v(3,5) uu(3) by blast
      qed
      have ws: "set ws = set xs" "set ws \<inter> owned (mem s) pd = {}" using v(4) uu(3) dX by simp_all
      note pv = outside_confined [OF assms(1) cv pX dX v(2) ws(2)]
      have "copyuvm pd n s = Done 0 v" using run Some v(1) by simp
      then show ?thesis using pv cv ws(1) by (intro exI [of _ 0] exI [of _ v] exI [of _ ws]) (simp add: confined_def)
    qed
  qed
qed

section \<open>Properties\<close>

text \<open>A concrete state: three free pages, and an address space whose directory is all that it has.\<close>

definition kmem3 :: kmemst where
  "kmem3 = kmem0\<lparr>mem := store32 0x80200000 0x80202000 (store32 0x80202000 0x80203000 (\<lambda>_. 0))\<rparr>"

lemma kmem3_frees: "kfrees kmem3 [0x80200000, 0x80202000, 0x80203000]"
proof -
  have "load32 (mem kmem3) 0x80200000 = 0x80202000" "load32 (mem kmem3) 0x80202000 = 0x80203000" "load32 (mem kmem3) 0x80203000 = 0"
    by (simp_all add: kmem3_def kmem0_def load32_store32_other)
  moreover have "kfrees kmem0 [0x80200000]" by (rule kmem0_kfrees)
  ultimately show ?thesis
    by (simp add: kfrees_def kmem_inv_def kmem_ready_def) (simp add: kmem3_def kmem0_def kpage_def PGSIZE_def PHYSTOP_def V2P_def KERNBASE_def)
qed

lemma kmem3_uvm: "uvm_ok kmem3 0x80201000 [0x80200000, 0x80202000, 0x80203000]" "layout_ok kmem3" "tables (mem kmem3) 0x80201000 = {}"
proof -
  have al: "(0x80201000 :: u32) mod PGSIZE = 0" "(0x80200000 :: u32) mod PGSIZE = 0" "(0x80202000 :: u32) mod PGSIZE = 0"
    by (simp_all add: PGSIZE_def)
  have "load32 (mem kmem3) (0x80201000 + 4 * of_nat i) = 0" if "i < 1024" for i
    using load_store_cell [OF al(2,1) _ that, of 0] load_store_cell [OF al(3,1) _ that, of 0] by (simp add: kmem3_def)
  then have tb: "tbl (mem kmem3) 0x80201000 i = None" if "i < 1024" for i using that by (simp add: tbl_def pde_def)
  then show "tables (mem kmem3) 0x80201000 = {}" by (simp add: tables_def)
  have "kpage (kend kmem3) 0x80201000" "KERNBASE < kend kmem3"
    by (simp_all add: kmem3_def kmem0_def kpage_def PGSIZE_def PHYSTOP_def V2P_def KERNBASE_def)
  then show "uvm_ok kmem3 0x80201000 [0x80200000, 0x80202000, 0x80203000]"
    using tb kmem3_frees by (simp add: uvm_ok_def pgdir_ok_def pte_def less_mult_imp_div_less)
  show "layout_ok kmem3" by (simp add: layout_ok_def kmem3_def kmem0_def layout_defs P2V_def PGSIZE_def)
qed

text \<open>The same with one user page: entry 0 of the directory points to a table whose entry 0 points to the page.\<close>

definition kmem4 :: kmemst where
  "kmem4 = kmem3\<lparr>mem := store32 0x80201000 0x204007 (store32 0x80204000 0x205007 (mem kmem3))\<rparr>"

lemma load_store_first:
  assumes "v mod PGSIZE = 0" "w mod PGSIZE = 0" "j < 1024"
  shows "load32 (store32 v x m) (w + 4 * of_nat j) = (if v = w \<and> j = 0 then x else load32 m (w + 4 * of_nat j))"
  using load_store_cell [OF assms(1,2) _ assms(3), of 0] by simp

lemma kmem4_entries:
  assumes "i < 1024"
  shows "tbl (mem kmem4) 0x80201000 i = (if i = 0 then Some 0x80204000 else None)"
    "load32 (mem kmem4) (0x80204000 + 4 * of_nat i) = (if i = 0 then 0x205007 else 0)"
  using assms by (simp_all add: tbl_def pde_def kmem4_def kmem3_def load_store_first PGSIZE_def kmem0_def)
    (simp add: PTE_P_def P2V_def PTE_ADDR_def KERNBASE_def)

lemma kmem4_pte: "n < 1048576 \<Longrightarrow> pte (mem kmem4) 0x80201000 n = (if n = 0 then 0x205007 else 0)"
proof -
  assume "n < 1048576"
  then have d: "n div 1024 < 1024" "n mod 1024 < 1024" by (simp_all add: less_mult_imp_div_less)
  have "n = 0 \<longleftrightarrow> n div 1024 = 0 \<and> n mod 1024 = 0" by (metis div_0 div_mod_decomp mod_0 mult_0 add_0)
  note z = this
  have "pte (mem kmem4) 0x80201000 n = (if n div 1024 = 0 \<and> n mod 1024 = 0 then 0x205007 else 0)"
    unfolding pte_def kmem4_entries(1) [OF d(1)] using kmem4_entries(2) [OF d(2)] by (cases "n div 1024 = 0") simp_all
  then show ?thesis unfolding z [symmetric] .
qed

lemma kmem4_uvm: "uvm_ok kmem4 0x80201000 [0x80200000, 0x80202000, 0x80203000]" "layout_ok kmem4"
proof -
  have "kfrees (kmem3\<lparr>mem := mem kmem4\<rparr>) [0x80200000, 0x80202000, 0x80203000]"
  proof (rule kfrees_mem [OF kmem3_frees])
    fix a x assume x: "x \<in> set [0x80200000, 0x80202000, 0x80203000 :: u32]" "in_page x a"
    have "x mod PGSIZE = 0" using x(1) by (auto simp: PGSIZE_def)
    then have "\<not> in_page 0x80201000 a" "\<not> in_page 0x80204000 a"
      using x pages_apart [of x "0x80201000" a] pages_apart [of x "0x80204000" a] by (auto simp: PGSIZE_def)
    then show "mem kmem4 a = mem kmem3 a"
      using store_cell_frame [of "0x80201000" 0 a] store_cell_frame [of "0x80204000" 0 a] by (simp add: kmem4_def PGSIZE_def)
  qed
  moreover have "kmem3\<lparr>mem := mem kmem4\<rparr> = kmem4" by (simp add: kmem4_def)
  ultimately have f: "kfrees kmem4 [0x80200000, 0x80202000, 0x80203000]" by simp
  have e: "kend kmem4 = 0x80120000" by (simp add: kmem4_def kmem3_def kmem0_def)
  have k: "kpage 0x80120000 0x80201000" "kpage 0x80120000 0x80204000" "kpage 0x80120000 0x80205000" "KERNBASE < 0x80120000"
    by (simp_all add: kpage_def PGSIZE_def PHYSTOP_def V2P_def KERNBASE_def)
  have "tables (mem kmem4) 0x80201000 = {0x80204000}" 
  proof -
    have "t \<in> tables (mem kmem4) 0x80201000 \<longleftrightarrow> t = 0x80204000" for t
      unfolding tables_def using kmem4_entries(1) by (auto split: if_splits) (metis option.inject zero_less_numeral)
    then show ?thesis by blast
  qed
  moreover have "frame 0x205007 = 0x80205000" by (simp add: frame_def PTE_ADDR_def P2V_def KERNBASE_def)
  ultimately show "uvm_ok kmem4 0x80201000 [0x80200000, 0x80202000, 0x80203000]"
    using f k by (auto simp: uvm_ok_def pgdir_ok_def e kmem4_pte kmem4_entries split: if_splits)
  show "layout_ok kmem4" using kmem3_uvm(2) by (simp add: layout_ok_def kmem4_def)
qed

text \<open>C39. \<^verbatim>\<open>setupkvm\<close> ends for every well-formed allocator. Either it returns 0 and every page it had taken is free again, or
  it returns a directory with nothing mapped in the user half and every address from the kernel's base to the top of
  physical memory mapped to its place in the direct map, its pages and the free pages being together exactly the pages that were free.\<close>

theorem setupkvm_correct:
  assumes "kfrees s xs" "layout_ok s"
  shows "\<exists>d t ys. setupkvm s = Done d t \<and>
    (d = 0 \<and> kfrees t ys \<and> set ys = set xs \<or>
     d \<noteq> 0 \<and> uvm_ok t d ys \<and> set ys \<union> owned (mem t) d = set xs \<and> (\<forall>va. va < KERNBASE \<longrightarrow> translate (mem t) d va = None) \<and>
     (\<forall>va. KERNBASE \<le> va \<and> va < P2V PHYSTOP \<longrightarrow> translate (mem t) d va = Some va))"
proof -
  have "translate (mem t) d va = None" if "\<forall>n<524288. \<not> present (pte (mem t) d n)" "va < KERNBASE" for t :: "'a kmemst_scheme" and d va
    using that by (simp add: translate_pte vpn_user)
  then show ?thesis using setupkvm_run [OF assms] by blast
qed

theorem setupkvm_correct_witness: "\<exists>d t ys. setupkvm kmem3 = Done d t \<and> (d = 0 \<or> uvm_ok t d ys)"
  using setupkvm_correct [OF kmem3_frees kmem3_uvm(2)] by blast

text \<open>C40. \<^verbatim>\<open>freevm\<close> gives back every page of an address space, each of them once: afterwards the free pages are those that were
  free before and the directory, the tables and the user pages, and no byte outside those pages has changed.\<close>

theorem freevm_correct:
  assumes "uvm_ok s pd xs"
  shows "\<exists>t ys. freevm pd s = Done () t \<and> kfrees t ys \<and> distinct ys \<and> set ys = set xs \<union> owned (mem s) pd \<and>
    (\<forall>b. (\<exists>p\<in>owned (mem s) pd. in_page p b) \<or> mem t b = mem s b)"
proof -
  obtain t ys where "freevm pd s = Done () t" "kfrees t ys" "set ys = set xs \<union> owned (mem s) pd"
    "\<forall>b. (\<forall>p\<in>owned (mem s) pd. \<not> in_page p b) \<longrightarrow> mem t b = mem s b" using freevm_run [OF assms] by blast
  moreover from this(2) have "distinct ys" by (simp add: kfrees_def kmem_inv_def)
  ultimately show ?thesis by blast
qed

theorem freevm_correct_witness: "\<exists>t ys. freevm 0x80201000 kmem4 = Done () t \<and> kfrees t ys \<and> {0x80201000, 0x80204000, 0x80205000} \<subseteq> set ys"
proof -
  have "0x80204000 \<in> tables (mem kmem4) 0x80201000" by (simp add: tables_def) (rule exI [of _ 0], simp add: kmem4_entries)
  moreover have "0x80205000 \<in> uframes (mem kmem4) 0x80201000"
    unfolding uframes_def by (intro CollectI exI [of _ 0]) (simp add: kmem4_pte present_def PTE_P_def frame_def PTE_ADDR_def P2V_def KERNBASE_def)
  ultimately have "{0x80201000, 0x80204000, 0x80205000} \<subseteq> owned (mem kmem4) 0x80201000" by (simp add: owned_def)
  then show ?thesis using freevm_correct [OF kmem4_uvm(1)] by blast
qed

text \<open>C3. The copy of an address space that \<^verbatim>\<open>fork\<close> makes is private. If all pages below the size are mapped, \<^verbatim>\<open>copyuvm\<close> ends;
  the parent sees what it saw, and either the result is 0 and all pages taken are free again, or the new space shows the
  parent's bytes and page flags below the size and nothing above it, and has no page in common with the parent's.\<close>

theorem copyuvm_correct:
  assumes "uvm_ok s pd xs" "layout_ok s" "unat n \<le> 2147483648" "\<forall>k<pages n. present (pte (mem s) pd k)"
  shows "\<exists>d t ys. copyuvm pd n s = Done d t \<and> uvm_ok t pd ys \<and> (\<forall>va. va < KERNBASE \<longrightarrow> uview (mem t) pd va = uview (mem s) pd va) \<and>
    (d = 0 \<and> set ys = set xs \<or>
     d \<noteq> 0 \<and> uvm_ok t d ys \<and> set ys \<union> owned (mem t) d = set xs \<and> owned (mem t) d \<inter> owned (mem t) pd = {} \<and>
     (\<forall>va. va < KERNBASE \<longrightarrow> uview (mem t) d va = (if vpn va < pages n then uview (mem s) pd va else None)))"
  using copyuvm_run [OF assms] by blast

theorem copyuvm_correct_witness:
  "\<exists>d t ys. copyuvm 0x80201000 0x1000 kmem4 = Done d t \<and> uvm_ok t 0x80201000 ys \<and>
     (d = 0 \<or> uview (mem t) d 0x234 = Some (0, 7) \<and> uview (mem t) d 0x1234 = None)"
proof -
  have "pages 0x1000 = 1" by (simp add: pages_def)
  then have p: "\<forall>k<pages 0x1000. present (pte (mem kmem4) 0x80201000 k)" by (simp add: kmem4_pte present_def PTE_P_def)
  have v: "vpn 0x234 = 0" "vpn 0x1234 = 1" "(0x234 :: u32) < KERNBASE" "(0x1234 :: u32) < KERNBASE" by (simp_all add: vpn_def KERNBASE_def)
  have "mem kmem4 0x80205234 = 0" by (simp add: kmem4_def kmem3_def kmem0_def store32_spec)
  then have u: "uview (mem kmem4) 0x80201000 0x234 = Some (0, 7)"
    by (simp add: uview_def v kmem4_pte present_def PTE_P_def frame_def PTE_ADDR_def P2V_def KERNBASE_def PTE_FLAGS_def)
  have "unat (0x1000 :: u32) \<le> 2147483648" by simp
  from copyuvm_correct [OF kmem4_uvm this p] obtain d t ys where c: "copyuvm 0x80201000 0x1000 kmem4 = Done d t" "uvm_ok t 0x80201000 ys"
    "d = 0 \<or> (\<forall>va. va < KERNBASE \<longrightarrow> uview (mem t) d va = (if vpn va < pages 0x1000 then uview (mem kmem4) 0x80201000 va else None))" by blast
  then have "d = 0 \<or> uview (mem t) d 0x234 = Some (0, 7) \<and> uview (mem t) d 0x1234 = None" using u v \<open>pages 0x1000 = 1\<close> by auto
  then show ?thesis using c(1,2) by blast
qed

end
