(* ===== verification/Xv6_Grow.thy ===== *)
theory Xv6_Grow
  imports Xv6_Line Xv6_Vm Xv6_Uvm
begin

text \<open>
  Growing and shrinking user memory: \<^verbatim>\<open>allocuvm\<close> and \<^verbatim>\<open>deallocuvm\<close> of \<^verbatim>\<open>vm.c\<close>, the diagnostics that \<^verbatim>\<open>allocuvm\<close> prints
  included.
\<close>

section \<open>Shrinking\<close>

lemma unmapped_view:
  assumes "uvm_ok s pd xs" "unmapped pd n c s xs t ys" "c \<le> 524288"
  shows "\<And>va. va < KERNBASE \<Longrightarrow> uview (mem t) pd va = (if n \<le> vpn va \<and> vpn va < c then None else uview (mem s) pd va)"
    "set ys \<union> owned (mem t) pd = set xs \<union> owned (mem s) pd" "uvm_ok t pd ys"
proof -
  note u = assms(2) [unfolded unmapped_def]
  have p: "pte (mem t) pd k = (if n \<le> k \<and> k < c \<and> present (pte (mem s) pd k) then 0 else pte (mem s) pd k)" if "k < 524288" for k
    using u that by simp
  show "uvm_ok t pd ys" using u by blast
  show "uview (mem t) pd va = (if n \<le> vpn va \<and> vpn va < c then None else uview (mem s) pd va)" if "va < KERNBASE" for va
  proof -
    have v: "vpn va < 524288" using that by (simp add: vpn_user)
    show ?thesis
    proof (cases "n \<le> vpn va \<and> vpn va < c")
      case True
      then have "\<not> present (pte (mem t) pd (vpn va))" using p [OF v] by auto
      then show ?thesis using True by (simp add: uview_def)
    next
      case False
      then have e: "pte (mem t) pd (vpn va) = pte (mem s) pd (vpn va)" using p [OF v] by auto
      have "uview (mem s) pd va = uview (mem t) pd va"
      proof (rule uview_cong)
        assume pr: "present (pte (mem s) pd (vpn va))"
        note f = uvm_okD [OF assms(1) v pr]
        show al: "frame (pte (mem s) pd (vpn va)) mod PGSIZE = 0" by (rule kpage_aligned [OF f(1)])
        fix b assume b: "in_page (frame (pte (mem s) pd (vpn va))) b"
        have "\<not> in_page q b" if "kpage (kend s) q" "frame (pte (mem s) pd (vpn va)) \<noteq> q" for q
          using pages_apart [OF al kpage_aligned [OF that(1)] that(2) b] .
        moreover have "kpage (kend s) q" if "q \<in> tables (mem s) pd" for q
          using ownedD(1) [OF _ assms(1), of q] that by (simp add: owned_def)
        ultimately have "\<forall>q\<in>tables (mem s) pd. \<not> in_page q b"
          "\<forall>k. n \<le> k \<and> k < c \<and> present (pte (mem s) pd k) \<longrightarrow> \<not> in_page (frame (pte (mem s) pd k)) b"
          using f(4,5) uvm_okD(1) [OF assms(1)] False assms(3) by (metis, metis less_le_trans)
        then show "mem s b = mem t b" using u by simp
      qed (simp add: e)
      then show ?thesis using False by auto
    qed
  qed
  have "set ys \<union> uframes (mem t) pd = set xs \<union> uframes (mem s) pd"
  proof (intro subset_antisym subsetI)
    fix q assume "q \<in> set ys \<union> uframes (mem t) pd"
    then show "q \<in> set xs \<union> uframes (mem s) pd" using u p assms(3) unfolding uframes_def by (fastforce split: if_splits)
  next
    fix q assume "q \<in> set xs \<union> uframes (mem s) pd"
    then consider "q \<in> set xs" | k where "k < 524288" "present (pte (mem s) pd k)" "q = frame (pte (mem s) pd k)" by (auto simp: uframes_def)
    then show "q \<in> set ys \<union> uframes (mem t) pd"
    proof cases
      case (2 k)
      show ?thesis
      proof (cases "n \<le> k \<and> k < c")
        case False
        then have "pte (mem t) pd k = pte (mem s) pd k" using p [OF 2(1)] by auto
        then have "q \<in> uframes (mem t) pd" using 2 unfolding uframes_def by (intro CollectI exI [of _ k]) simp
        then show ?thesis by simp
      qed (use u 2 in auto)
    qed (use u in auto)
  qed
  then show "set ys \<union> owned (mem t) pd = set xs \<union> owned (mem s) pd" using u by (auto simp: owned_def)
qed

section \<open>Printing\<close>

lemma consputs_run:
  assumes "cons_ok (cons s)"
  shows "\<exists>c. consputs cs s = Done () (s\<lparr>cons := c\<rparr>) \<and> cons_ok c \<and> same_input (cons s) c"
  using assms
proof (induction cs arbitrary: s)
  case Nil
  then show ?case by (intro exI [of _ "cons s"]) (simp add: consputs_def same_input_def)
next
  case (Cons x cs)
  obtain c where c: "consputc (int (of_char x)) s = Done () (s\<lparr>cons := c\<rparr>)" "cons_ok c" "same_input (cons s) c"
    using consputc_with [OF Cons.prems] by blast
  obtain c' where "consputs cs (s\<lparr>cons := c\<rparr>) = Done () (s\<lparr>cons := c\<rparr>\<lparr>cons := c'\<rparr>)" "cons_ok c'" "same_input c c'"
    using Cons.IH [of "s\<lparr>cons := c\<rparr>"] c(2) by auto
  then show ?case using c by (intro exI [of _ c']) (simp add: consputs_def same_input_def)
qed

definition cons_ready :: "'z kcons_scheme \<Rightarrow> bool" where
  "cons_ready s \<longleftrightarrow> cons_ok (cons s) \<and> (locking (cons s) \<longrightarrow> cpu_ok (hw s) \<and> lock_free ConsLock (hw s))"

text \<open>What the operations of this theory may change.\<close>

definition vm_only :: "'z kcons_scheme \<Rightarrow> 'z kcons_scheme \<Rightarrow> bool" where
  "vm_only s t \<longleftrightarrow> (\<exists>h m k c. t = s\<lparr>hw := h, mem := m, kmem := k, cons := c\<rparr> \<and> h \<in> {hw s, settle (hw s)} \<and> same_input (cons s) c)"

lemma mem_only_vm: "mem_only s t \<Longrightarrow> vm_only s t"
proof -
  assume "mem_only s t"
  then obtain h m k where "t = s\<lparr>hw := h, mem := m, kmem := k\<rparr>" "h \<in> {hw s, settle (hw s)}" by (auto simp: mem_only_def)
  moreover from this(1) have "t = s\<lparr>hw := h, mem := m, kmem := k, cons := cons s\<rparr>" by simp
  ultimately show ?thesis unfolding vm_only_def
    by (intro exI [of _ h] exI [of _ m] exI [of _ k] exI [of _ "cons s"]) (simp add: same_input_def)
qed

lemma vm_only_trans:
  assumes "vm_only s t" "vm_only t u"
  shows "vm_only s u"
proof -
  obtain h m k c where t: "t = s\<lparr>hw := h, mem := m, kmem := k, cons := c\<rparr>" "h \<in> {hw s, settle (hw s)}" "same_input (cons s) c"
    using assms(1) by (auto simp: vm_only_def)
  obtain h' m' k' c' where u: "u = t\<lparr>hw := h', mem := m', kmem := k', cons := c'\<rparr>" "h' \<in> {h, settle h}" "same_input c c'"
    using assms(2) t(1) by (auto simp: vm_only_def)
  have "u = s\<lparr>hw := h', mem := m', kmem := k', cons := c'\<rparr>" using t(1) u(1) by simp
  moreover have "h' \<in> {hw s, settle (hw s)}" "same_input (cons s) c'" using t(2,3) u(2,3) by (auto simp: same_input_def)
  ultimately show ?thesis unfolding vm_only_def by blast
qed

lemma cprintf_run:
  assumes "cons_ready s" "cformat fmt as = Some out"
  shows "\<exists>c. cprintf fmt as s = Done () (s\<lparr>hw := (if locking (cons s) then settle (hw s) else hw s), cons := c\<rparr>) \<and> cons_ok c \<and> same_input (cons s) c"
proof (cases "locking (cons s)")
  case True
  then have h: "cpu_ok (hw s)" "lock_free ConsLock (hw s)" "cons_ok (cons s)" using assms(1) by (simp_all add: cons_ready_def)
  obtain c where "consputs out (s\<lparr>hw := enter ConsLock (hw s)\<rparr>) = Done () (s\<lparr>hw := enter ConsLock (hw s)\<rparr>\<lparr>cons := c\<rparr>)" "cons_ok c" "same_input (cons s) c"
    using consputs_run [of "s\<lparr>hw := enter ConsLock (hw s)\<rparr>" out] h(3) by auto
  then show ?thesis using True h assms(2) cpu_okD(3) [of "hw s"] by (intro exI [of _ c]) (simp add: cprintf_def run_simps)
next
  case False
  then show ?thesis using consputs_run [of s out] assms by (auto simp: cprintf_def cons_ready_def)
qed

lemma cprintf_keeps:
  assumes "cons_ready s" "cformat fmt as = Some out" "uvm_ok s pd xs"
  shows "\<exists>t. cprintf fmt as s = Done () t \<and> vm_only s t \<and> cons_ready t \<and> uvm_ok t pd xs \<and> mem t = mem s"
proof -
  let ?h = "if locking (cons s) then settle (hw s) else hw s"
  obtain c where c: "cprintf fmt as s = Done () (s\<lparr>hw := ?h, cons := c\<rparr>)" "cons_ok c" "same_input (cons s) c" using cprintf_run [OF assms(1,2)] by blast
  let ?t = "s\<lparr>hw := ?h, cons := c\<rparr>"
  have "vm_only s ?t" unfolding vm_only_def using c(3)
    by (intro exI [of _ ?h] exI [of _ "mem s"] exI [of _ "kmem s"] exI [of _ c]) simp
  moreover have "cons_ready ?t" using assms(1) c(2,3) by (auto simp: cons_ready_def same_input_def)
  moreover have "uvm_ok ?t pd xs"
  proof (rule uvm_other(1) [OF assms(3)])
    have "kfrees s xs" using assms(3) by (simp add: uvm_ok_def pgdir_ok_def)
    then show "kfrees ?t xs" using assms(1) by (auto simp: kfrees_def kmem_ready_def kmem_inv_def cons_ready_def)
    show "set xs \<inter> owned (mem s) pd = {}" using ownedD(3) [OF _ assms(3)] by auto
  qed simp_all
  ultimately show ?thesis using c(1) by (intro exI [of _ ?t]) simp
qed

lemma mem_only_ready: "mem_only s t \<Longrightarrow> cons_ready s \<Longrightarrow> cons_ready t"
  by (auto simp: mem_only_def cons_ready_def)

section \<open>Growing\<close>

lemma free_one:
  assumes "uvm_ok s pd xs" "kpage (kend s) m" "m \<notin> set xs \<union> owned (mem s) pd"
  shows "kfree m s = Done () (freed m s)" "uvm_ok (freed m s) pd (m # xs)" "owned (mem (freed m s)) pd = owned (mem s) pd"
    "\<And>va. va < KERNBASE \<Longrightarrow> uview (mem (freed m s)) pd va = uview (mem s) pd va"
proof -
  have free: "kfrees s xs" using assms(1) by (simp add: uvm_ok_def pgdir_ok_def)
  show "kfree m s = Done () (freed m s)" using free assms(2) by (intro kfree_run) (simp_all add: kfrees_def)
  have kf: "kfrees (freed m s) (m # xs)" using free assms(2,3) kmem_inv_freed [of s xs m] by (simp add: kfrees_def)
  have c: "confined {m} s (freed m s)"
    using freed_frame [OF kpage_aligned [OF assms(2)]] mem_only_freed by (auto simp: confined_def)
  have k: "\<forall>x\<in>{m}. kpage (kend s) x" "{m} \<inter> owned (mem s) pd = {}" "set (m # xs) \<inter> owned (mem s) pd = {}"
    using assms(2,3) ownedD(3) [OF _ assms(1)] by auto
  note o = outside_confined [OF assms(1) c k(1,2) kf k(3)]
  show "uvm_ok (freed m s) pd (m # xs)" "owned (mem (freed m s)) pd = owned (mem s) pd" by (rule o(1), rule o(3))
  show "uview (mem (freed m s)) pd va = uview (mem s) pd va" if "va < KERNBASE" for va by (rule o(4) [OF that])
qed

text \<open>What both failures of \<^verbatim>\<open>allocuvm\<close> do: a message, and the pages between the sizes are given up.\<close>

definition shrunk :: "u32 \<Rightarrow> nat \<Rightarrow> nat \<Rightarrow> 'z kcons_scheme \<Rightarrow> u32 list \<Rightarrow> 'z kcons_scheme \<Rightarrow> u32 list \<Rightarrow> bool" where
  "shrunk pd n c s xs t ys \<longleftrightarrow> uvm_ok t pd ys \<and> vm_only s t \<and> cons_ready t \<and> set ys \<union> owned (mem t) pd = set xs \<union> owned (mem s) pd \<and>
     (\<forall>va. va < KERNBASE \<longrightarrow> uview (mem t) pd va = (if n \<le> vpn va \<and> vpn va < c then None else uview (mem s) pd va))"

lemma give_up_run:
  assumes "uvm_ok s pd xs" "cons_ready s" "oldsz < newsz" "newsz < KERNBASE" "cformat msg [] = Some out"
  shows "\<exists>t ys. thenK (cprintf msg []) (thenK (deallocuvm pd newsz oldsz) f) s = f t \<and> shrunk pd (pages oldsz) (pages newsz) s xs t ys"
proof -
  obtain t where t: "cprintf msg [] s = Done () t" "vm_only s t" "cons_ready t" "uvm_ok t pd xs" "mem t = mem s"
    using cprintf_keeps [OF assms(2,5,1)] by blast
  have n: "unat newsz \<le> 2147483648" using assms(4) by (simp add: KERNBASE_def word_less_nat_alt)
  obtain u ys where u: "deallocuvm pd newsz oldsz t = Done oldsz u" "unmapped pd (pages oldsz) (pages newsz) t xs u ys"
    using deallocuvm_run [OF t(4) assms(3) n] by blast
  have c: "pages newsz \<le> 524288" using n by (simp add: pages_def)
  note v = unmapped_view [OF t(4) u(2) c]
  have mo: "mem_only t u" using u(2) by (simp add: unmapped_def)
  have "shrunk pd (pages oldsz) (pages newsz) s xs u ys"
    unfolding shrunk_def using v t(5) vm_only_trans [OF t(2) mem_only_vm [OF mo]] mem_only_ready [OF mo t(3)] by simp
  then show ?thesis using t(1) u(1) by (intro exI [of _ u] exI [of _ ys]) simp
qed

lemma messages:
  "cformat (''allocuvm out of memory'' @ [newline]) [] = Some (''allocuvm out of memory'' @ [newline])"
  "cformat (''allocuvm out of memory (2)'' @ [newline]) [] = Some (''allocuvm out of memory (2)'' @ [newline])"
  by (simp_all add: newline_def)

lemma zeroed_byte: "in_page m b \<Longrightarrow> memset m 0 PGSIZE mm b = 0" "\<not> in_page m b \<Longrightarrow> memset m 0 PGSIZE mm b = mm b"
  by (simp_all add: memset_spec in_page_def)

lemma alloc_page_run:
  assumes "uvm_ok s pd xs" "cons_ready s" "oldsz < newsz" "newsz < KERNBASE" "unat a = 4096 * n" "n < 524288" "\<not> present (pte (mem s) pd n)"
    "pages oldsz \<le> n" "n < pages newsz"
  shows "\<exists>r t ys. alloc_page pd oldsz newsz a s = Done r t \<and>
    (r = Some 0 \<and> shrunk pd (pages oldsz) (pages newsz) s xs t ys \<or>
     r = None \<and> uvm_ok t pd ys \<and> vm_only s t \<and> cons_ready t \<and> set ys \<union> owned (mem t) pd = set xs \<union> owned (mem s) pd \<and>
     (\<forall>va. va < KERNBASE \<longrightarrow> uview (mem t) pd va = (if vpn va = n then Some (0, PTE_W OR PTE_U OR PTE_P) else uview (mem s) pd va)) \<and>
     (\<forall>k<1048576. k \<noteq> n \<longrightarrow> pte (mem t) pd k = pte (mem s) pd k))"
proof (cases xs)
  case Nil
  obtain t where t: "kalloc s = Done 0 t" "kfrees t []" "mem_only s t" "mem t = mem s"
    using kalloc_empty [of s] assms(1) Nil by (auto simp: uvm_ok_def pgdir_ok_def)
  have c: "confined {} s t" using t(3,4) by (simp add: confined_def)
  have ok: "uvm_ok t pd []" using outside_confined(1) [OF assms(1) c _ _ t(2)] by simp
  obtain u ys where u: "thenK (cprintf (''allocuvm out of memory'' @ [newline]) []) (thenK (deallocuvm pd newsz oldsz) (returnK (Some (0 :: u32)))) t = returnK (Some 0) u"
    "shrunk pd (pages oldsz) (pages newsz) t [] u ys"
    using give_up_run [OF ok mem_only_ready [OF t(3) assms(2)] assms(3,4) messages(1), of "returnK (Some 0)"] by blast
  have "shrunk pd (pages oldsz) (pages newsz) s xs u ys"
    using u(2) Nil t(4) vm_only_trans [OF mem_only_vm [OF t(3)]] by (simp add: shrunk_def)
  moreover have "alloc_page pd oldsz newsz a s =
      thenK (cprintf (''allocuvm out of memory'' @ [newline]) []) (thenK (deallocuvm pd newsz oldsz) (returnK (Some 0))) t"
    using t(1) by (simp add: alloc_page_def)
  then have "alloc_page pd oldsz newsz a s = Done (Some 0) u" unfolding u(1) by simp
  ultimately show ?thesis by blast
next
  case (Cons m ys)
  have ok: "uvm_ok s pd (m # ys)" using assms(1) Cons by simp
  obtain t where t: "kalloc s = Done m t" using kalloc_mem_only [of s m ys] ok by (auto simp: uvm_ok_def pgdir_ok_def)
  have fm: "\<forall>b. \<not> in_page m b \<longrightarrow> memset m 0 PGSIZE (mem s) b = mem s b" using zeroed_byte(2) by blast
  note al = alloc_fill [where mm = "memset m 0 PGSIZE (mem s)", OF ok fm t]
  define t' where "t' = t\<lparr>mem := memset m 0 PGSIZE (mem s)\<rparr>"
  have t': "mem t' = memset m 0 PGSIZE (mem s)" "mem_only s t'" "uvm_ok t' pd ys" "kend t' = kend s"
    using al(2,4) mem_only_kend [of s t'] by (simp_all add: t'_def confined_def)
  have fl: "(PTE_W OR PTE_U) AND NOT 0xFFF = 0" by (simp add: PTE_W_def PTE_U_def)
  have np: "\<not> present (pte (mem t') pd n)" using al(7) [of n] assms(6,7) t'(1) by simp
  obtain r u zs where u: "mappages pd a PGSIZE (V2P m) (PTE_W OR PTE_U) t' = Done r u" "extends pd t' ys u zs" "uvm_ok u pd zs" "r = 0 \<or> r = -1 \<and> zs = []"
    "\<forall>k<1048576. pte (mem u) pd k = (if r = 0 \<and> k = n then V2P m OR (PTE_W OR PTE_U) OR PTE_P else pte (mem t') pd k)"
    "\<forall>va. va < KERNBASE \<longrightarrow> uview (mem u) pd va = (if r = 0 \<and> vpn va = n then Some (mem t' (m + (va AND 0xFFF)), (PTE_W OR PTE_U) OR PTE_P) else uview (mem t') pd va)"
    "set zs \<union> owned (mem u) pd = set ys \<union> owned (mem t') pd \<union> (if r = 0 then {m} else {})"
    using map_user_view [OF t'(3) assms(5,6) np, of m "PTE_W OR PTE_U"] al(3,5) t'(1,4) fl by auto
  have mo: "mem_only s u" using mem_only_trans [OF t'(2)] u(2) by (simp add: extends_def)
  have cr: "cons_ready u" by (rule mem_only_ready [OF mo assms(2)])
  have teq: "t\<lparr>mem := memset m 0 PGSIZE (mem s)\<rparr> = t'" by (simp add: t'_def)
  have m0: "m \<noteq> 0" using al(3) by (simp add: kpage_def)
  show ?thesis
  proof (cases "r = 0")
    case True
    have "uview (mem u) pd va = (if vpn va = n then Some (0, PTE_W OR PTE_U OR PTE_P) else uview (mem s) pd va)" if "va < KERNBASE" for va
      using u(6) that True al(8) [OF that] t'(1) zeroed_byte(1) [OF in_page_offset [OF kpage_aligned [OF al(3)]]] by (simp add: or.assoc)
    moreover have "set zs \<union> owned (mem u) pd = set xs \<union> owned (mem s) pd" using u(7) True al(6) t'(1) Cons by auto
    moreover have "\<forall>k<1048576. k \<noteq> n \<longrightarrow> pte (mem u) pd k = pte (mem s) pd k" using u(5) al(7) t'(1) by simp
    moreover have "alloc_page pd oldsz newsz a s = Done None u" using t m0 al(1) u(1) True teq by (simp add: alloc_page_def)
    ultimately show ?thesis using u(3) mem_only_vm [OF mo] cr by (intro exI [of _ None] exI [of _ u] exI [of _ zs]) simp
  next
    case False
    then have r: "r = -1" using u(4) by simp
    obtain v ws where v: "thenK (cprintf (''allocuvm out of memory (2)'' @ [newline]) []) (thenK (deallocuvm pd newsz oldsz) (thenK (kfree m) (returnK (Some (0 :: u32))))) u
        = thenK (kfree m) (returnK (Some 0)) v" "shrunk pd (pages oldsz) (pages newsz) u zs v ws"
      using give_up_run [OF u(3) cr assms(3,4) messages(2), of "thenK (kfree m) (returnK (Some 0))"] by blast
    note sh = v(2) [unfolded shrunk_def]
    have own: "set ws \<union> owned (mem v) pd = set ys \<union> owned (mem s) pd" using sh u(7) r al(6) t'(1) by simp
    have kv: "kpage (kend v) m" "m \<notin> set ws \<union> owned (mem v) pd"
      using sh al(3,5,6) own mem_only_kend [OF mo] by (auto simp: vm_only_def)
    note f = free_one [OF conjunct1 [OF sh] kv]
    have "uview (mem (freed m v)) pd va = (if pages oldsz \<le> vpn va \<and> vpn va < pages newsz then None else uview (mem s) pd va)" if "va < KERNBASE" for va
      using f(4) [OF that] sh that u(6) r al(8) t'(1) by simp
    moreover have "set (m # ws) \<union> owned (mem (freed m v)) pd = set xs \<union> owned (mem s) pd" using own f(3) Cons by auto
    moreover have "vm_only s (freed m v)" using vm_only_trans [OF mem_only_vm [OF mo]] vm_only_trans sh mem_only_vm [OF mem_only_freed] by blast
    moreover have "cons_ready (freed m v)" using mem_only_ready [OF mem_only_freed] sh by blast
    ultimately have "shrunk pd (pages oldsz) (pages newsz) s xs (freed m v) (m # ws)" using f(2) by (simp add: shrunk_def)
    moreover have "alloc_page pd oldsz newsz a s =
        thenK (cprintf (''allocuvm out of memory (2)'' @ [newline]) []) (thenK (deallocuvm pd newsz oldsz) (thenK (kfree m) (returnK (Some 0)))) u"
      using t m0 al(1) u(1) r teq by (simp add: alloc_page_def)
    then have "alloc_page pd oldsz newsz a s = Done (Some 0) (freed m v)" unfolding v(1) using f(1) by simp
    ultimately show ?thesis by blast
  qed
qed

text \<open>The loop of \<^verbatim>\<open>allocuvm\<close>: what it has added when it ends, or that it has taken everything back.\<close>

definition grown :: "u32 \<Rightarrow> nat \<Rightarrow> nat \<Rightarrow> 'z kcons_scheme \<Rightarrow> u32 list \<Rightarrow> 'z kcons_scheme \<Rightarrow> u32 list \<Rightarrow> bool" where
  "grown pd n c s xs t ys \<longleftrightarrow> uvm_ok t pd ys \<and> vm_only s t \<and> cons_ready t \<and> set ys \<union> owned (mem t) pd = set xs \<union> owned (mem s) pd \<and>
     (\<forall>va. va < KERNBASE \<longrightarrow> uview (mem t) pd va = (if n \<le> vpn va \<and> vpn va < c then Some (0, PTE_W OR PTE_U OR PTE_P) else uview (mem s) pd va))"

lemma alloc_loop_run:
  assumes "uvm_ok s pd xs" "cons_ready s" "oldsz < newsz" "newsz < KERNBASE" "unat a = 4096 * pages oldsz" "pages oldsz + j \<le> pages newsz"
    "\<forall>k. pages oldsz + j \<le> k \<and> k < pages newsz \<longrightarrow> \<not> present (pte (mem s) pd k)"
  shows "\<exists>r t ys. searchK [j..<pages newsz - pages oldsz] (\<lambda>k. alloc_page pd oldsz newsz (a + of_nat k * PGSIZE)) s = Done r t \<and>
    (r = Some 0 \<and> shrunk pd (pages oldsz) (pages newsz) s xs t ys \<or> r = None \<and> grown pd (pages oldsz + j) (pages newsz) s xs t ys)"
  using assms
proof (induction "pages newsz - pages oldsz - j" arbitrary: j s xs)
  case 0
  then have "\<not> (pages oldsz + j \<le> k \<and> k < pages newsz)" for k by linarith
  moreover have "vm_only s s" using mem_only_vm [OF mem_only_refl] .
  ultimately have "grown pd (pages oldsz + j) (pages newsz) s xs s xs" using 0(2,3) unfolding grown_def by auto
  moreover have "[j..<pages newsz - pages oldsz] = []" using 0(1) by simp
  ultimately show ?case by (metis returnK_run searchK.simps(1))
next
  case (Suc i)
  let ?f = "\<lambda>k. alloc_page pd oldsz newsz (a + of_nat k * PGSIZE)" and ?c = "pages newsz - pages oldsz" and ?n = "pages oldsz + j"
  have j: "j < ?c" "i = ?c - Suc j" "pages oldsz + Suc j \<le> pages newsz" "[j..<?c] = j # [Suc j..<?c]" using Suc.hyps(2) by (simp_all add: upt_conv_Cons)
  have c: "pages newsz \<le> 524288" using Suc.prems(4) by (simp add: pages_def KERNBASE_def word_less_nat_alt)
  have n: "?n < 524288" "?n < pages newsz" "pages oldsz \<le> ?n" using j(1) c by simp_all
  have "unat (a + of_nat j * PGSIZE) = 4096 * ?n"
    using unat_offset [of a "4096 * j"] Suc.prems(5) n(1) by (simp add: PGSIZE_def mult.commute)
  then obtain r t ys where t: "?f j s = Done r t"
    "r = Some 0 \<and> shrunk pd (pages oldsz) (pages newsz) s xs t ys \<or>
     r = None \<and> uvm_ok t pd ys \<and> vm_only s t \<and> cons_ready t \<and> set ys \<union> owned (mem t) pd = set xs \<union> owned (mem s) pd \<and>
     (\<forall>va. va < KERNBASE \<longrightarrow> uview (mem t) pd va = (if vpn va = ?n then Some (0, PTE_W OR PTE_U OR PTE_P) else uview (mem s) pd va)) \<and>
     (\<forall>k<1048576. k \<noteq> ?n \<longrightarrow> pte (mem t) pd k = pte (mem s) pd k)"
    using alloc_page_run [OF Suc.prems(1-4) _ n(1) _ n(3,2)] Suc.prems(7) n(2) by blast
  show ?case
  proof (cases r)
    case (Some e)
    then have "searchK [j..<?c] ?f s = Done (Some 0) t" using t j(4) by auto
    then show ?thesis using t(2) Some by blast
  next
    case None
    then have t': "uvm_ok t pd ys" "vm_only s t" "cons_ready t" "set ys \<union> owned (mem t) pd = set xs \<union> owned (mem s) pd"
      "\<forall>va. va < KERNBASE \<longrightarrow> uview (mem t) pd va = (if vpn va = ?n then Some (0, PTE_W OR PTE_U OR PTE_P) else uview (mem s) pd va)"
      "\<forall>k<1048576. k \<noteq> ?n \<longrightarrow> pte (mem t) pd k = pte (mem s) pd k" using t(2) by auto
    have "\<forall>k. pages oldsz + Suc j \<le> k \<and> k < pages newsz \<longrightarrow> \<not> present (pte (mem t) pd k)"
    proof (intro allI impI)
      fix k assume k: "pages oldsz + Suc j \<le> k \<and> k < pages newsz"
      then have "k < 1048576" "k \<noteq> ?n" "?n \<le> k" using c by simp_all
      then show "\<not> present (pte (mem t) pd k)" using t'(6) Suc.prems(7) k by simp
    qed
    moreover have "i = pages newsz - pages oldsz - Suc j" using j(2) by simp
    ultimately obtain r' u zs where u: "searchK [Suc j..<?c] ?f t = Done r' u"
      "r' = Some 0 \<and> shrunk pd (pages oldsz) (pages newsz) t ys u zs \<or> r' = None \<and> grown pd (pages oldsz + Suc j) (pages newsz) t ys u zs"
      using Suc.hyps(1) [OF _ t'(1,3) Suc.prems(3,4,5) j(3)] by blast
    have step: "searchK [j..<?c] ?f s = Done r' u" using t(1) u(1) j(4) None by simp
    have "shrunk pd (pages oldsz) (pages newsz) s xs u zs" if "shrunk pd (pages oldsz) (pages newsz) t ys u zs"
      using that t'(4,5) n vm_only_trans [OF t'(2)] unfolding shrunk_def by auto
    moreover have "grown pd ?n (pages newsz) s xs u zs" if "grown pd (pages oldsz + Suc j) (pages newsz) t ys u zs"
      using that t'(4,5) n vm_only_trans [OF t'(2)] unfolding grown_def by auto
    ultimately show ?thesis using step u(2) by blast
  qed
qed

section \<open>Properties\<close>

text \<open>C5. \<^verbatim>\<open>allocuvm\<close> is all or nothing. When the pages between the two sizes are not mapped it ends, and either returns the new
  size, with those pages present, writable by the user and filled with zeros, or returns 0 after taking back whatever
  it had added; all other user memory is unchanged, the invariant of the address space holds, and no page is lost: the free
  pages and the pages of the space are together the same as before.\<close>

theorem allocuvm_correct:
  assumes "uvm_ok s pd xs" "cons_ready s" "oldsz < newsz" "newsz < KERNBASE"
    "\<forall>k. pages oldsz \<le> k \<and> k < pages newsz \<longrightarrow> \<not> present (pte (mem s) pd k)"
  shows "\<exists>r t ys. allocuvm pd oldsz newsz s = Done r t \<and> uvm_ok t pd ys \<and> (r = newsz \<or> r = 0) \<and>
    set ys \<union> owned (mem t) pd = set xs \<union> owned (mem s) pd \<and>
    (\<forall>va. va < KERNBASE \<longrightarrow> uview (mem t) pd va =
      (if pages oldsz \<le> vpn va \<and> vpn va < pages newsz then (if r = newsz then Some (0, PTE_W OR PTE_U OR PTE_P) else None)
       else uview (mem s) pd va))"
proof -
  have old: "unat oldsz \<le> 2 ^ 32 - 4096" using assms(3,4) by (simp add: KERNBASE_def word_less_nat_alt)
  have a: "unat (PGROUNDUP oldsz) = 4096 * pages oldsz" using unat_PGROUNDUP [OF old] by (simp add: pages_def)
  have le: "pages oldsz \<le> pages newsz" using assms(3) by (simp add: pages_def word_less_nat_alt div_le_mono)
  have cnt: "(unat newsz - unat (PGROUNDUP oldsz) + 4095) div 4096 = pages newsz - pages oldsz"
  proof (cases "4096 * pages oldsz \<le> unat newsz")
    case True
    then obtain x where x: "unat newsz = x + 4096 * pages oldsz" using le_Suc_ex [of "4096 * pages oldsz" "unat newsz"] by (auto simp: add.commute)
    then have "pages newsz = (x + 4095) div 4096 + pages oldsz"
      using div_mult_self1 [of 4096 "x + 4095" "pages oldsz"] by (simp add: pages_def [of newsz] ac_simps)
    then show ?thesis using x by (simp add: a)
  next
    case False
    then have "pages newsz \<le> pages oldsz" using less_pages [of "pages oldsz" newsz] by (simp add: not_less)
    then show ?thesis using False a by simp
  qed
  obtain r t ys where t: "searchK [0..<pages newsz - pages oldsz] (\<lambda>k. alloc_page pd oldsz newsz (PGROUNDUP oldsz + of_nat k * PGSIZE)) s = Done r t"
    "r = Some 0 \<and> shrunk pd (pages oldsz) (pages newsz) s xs t ys \<or> r = None \<and> grown pd (pages oldsz) (pages newsz) s xs t ys"
    using alloc_loop_run [OF assms(1-4) a, of 0] le assms(5) by auto
  have run: "allocuvm pd oldsz newsz s = Done (case r of Some e \<Rightarrow> e | None \<Rightarrow> newsz) t"
  proof -
    have "\<not> KERNBASE \<le> newsz" "\<not> newsz < oldsz" using assms(3,4) by simp_all
    then show ?thesis using t(1) cnt by (simp add: allocuvm_def Let_def)
  qed
  have nz: "newsz \<noteq> 0" using assms(3) by auto
  show ?thesis
  proof (cases r)
    case None
    then have "grown pd (pages oldsz) (pages newsz) s xs t ys" using t(2) by simp
    then show ?thesis using run None by (intro exI [of _ newsz] exI [of _ t] exI [of _ ys]) (simp add: grown_def)
  next
    case (Some e)
    then have "shrunk pd (pages oldsz) (pages newsz) s xs t ys" "e = 0" using t(2) by simp_all
    then show ?thesis using run Some nz by (intro exI [of _ 0] exI [of _ t] exI [of _ ys]) (simp add: shrunk_def)
  qed
qed

text \<open>A concrete state of the whole kernel around the memory of \<open>kmem4\<close>.\<close>

lemma uvm_ok_cong:
  assumes "hw s = hw t" "mem s = mem t" "kend s = kend t" "kmem s = kmem t"
  shows "uvm_ok s pd xs = uvm_ok t pd xs"
  using assms by (simp add: uvm_ok_def pgdir_ok_def kfrees_def kmem_ready_def kmem_inv_def)

definition kvm4 :: kvm where
  "kvm4 = \<lparr>hw = hw kmem4, ptable = ptable kmem4, initproc = initproc kmem4, nextpid = nextpid kmem4, slocks = slocks kmem4,
     mem = mem kmem4, kend = kend kmem4, kdata = kdata kmem4, kmem = kmem kmem4, bio = bio0, lg = lg0, fs = fs0, cons = cons0,
     pipes = (\<lambda>_. pipe0), ftable = [], vm = \<lparr>kpgdir = 0, cr3 = 0, ts_addr = (\<lambda>_. 0)\<rparr>\<rparr>"

lemma kvm4_ok: "uvm_ok kvm4 0x80201000 [0x80200000, 0x80202000, 0x80203000]" "cons_ready kvm4" "mem kvm4 = mem kmem4"
proof -
  show "uvm_ok kvm4 0x80201000 [0x80200000, 0x80202000, 0x80203000]"
    using kmem4_uvm(1) uvm_ok_cong [of kvm4 kmem4] by (simp add: kvm4_def)
  have "hw kmem4 = hart0" by (simp add: kmem4_def kmem3_def kmem0_def)
  then show "cons_ready kvm4" using hcalm_hart0 by (simp add: cons_ready_def kvm4_def cons0_def cons_ok_def hcalm_def lock_free_def hart0_def)
qed (simp add: kvm4_def)

theorem allocuvm_correct_witness:
  "\<exists>r t ys. allocuvm 0x80201000 0x1000 0x2800 kvm4 = Done r t \<and> uvm_ok t 0x80201000 ys \<and>
     uview (mem t) 0x80201000 0x234 = Some (0, 7) \<and> uview (mem t) 0x80201000 0x2FFF = (if r = 0x2800 then Some (0, 7) else None)"
proof -
  have n: "pages 0x1000 = 1" "pages 0x2800 = 3" "vpn 0x234 = 0" "vpn 0x2FFF = 2" "(0x1000 :: u32) < 0x2800" "(0x2800 :: u32) < KERNBASE"
    "(0x234 :: u32) < KERNBASE" "(0x2FFF :: u32) < KERNBASE" "PTE_W OR PTE_U OR PTE_P = 7"
    by (simp_all add: pages_def vpn_def KERNBASE_def PTE_W_def PTE_U_def PTE_P_def)
  have np: "\<forall>k. pages 0x1000 \<le> k \<and> k < pages 0x2800 \<longrightarrow> \<not> present (pte (mem kvm4) 0x80201000 k)"
    unfolding n by (simp add: kvm4_ok(3) kmem4_pte)
  have "mem kmem4 0x80205234 = 0" by (simp add: kmem4_def kmem3_def kmem0_def store32_spec)
  then have u: "uview (mem kvm4) 0x80201000 0x234 = Some (0, 7)"
    by (simp add: uview_def n kvm4_ok(3) kmem4_pte present_def PTE_P_def frame_def PTE_ADDR_def P2V_def KERNBASE_def PTE_FLAGS_def)
  obtain r t ys where t: "allocuvm 0x80201000 0x1000 0x2800 kvm4 = Done r t" "uvm_ok t 0x80201000 ys"
    "\<forall>va. va < KERNBASE \<longrightarrow> uview (mem t) 0x80201000 va =
      (if 1 \<le> vpn va \<and> vpn va < 3 then (if r = 0x2800 then Some (0, 7) else None) else uview (mem kvm4) 0x80201000 va)"
    using allocuvm_correct [OF kvm4_ok(1,2) n(5,6) np] unfolding n by blast
  have "uview (mem t) 0x80201000 0x234 = Some (0, 7)" "uview (mem t) 0x80201000 0x2FFF = (if r = 0x2800 then Some (0, 7) else None)"
    using spec [OF t(3), of "0x234"] spec [OF t(3), of "0x2FFF"] n u by simp_all
  then show ?thesis using t(1,2) by blast
qed

text \<open>\<^verbatim>\<open>deallocuvm\<close> takes away exactly the pages above the new size: no user address there is mapped any more, the bytes
  and flags below are unchanged, and each page taken away is free.\<close>

theorem deallocuvm_correct:
  assumes "uvm_ok s pd xs" "newsz < oldsz" "unat oldsz \<le> 2147483648"
  shows "\<exists>t ys. deallocuvm pd oldsz newsz s = Done newsz t \<and> uvm_ok t pd ys \<and> set ys \<union> owned (mem t) pd = set xs \<union> owned (mem s) pd \<and>
    (\<forall>va. va < KERNBASE \<longrightarrow> uview (mem t) pd va = (if pages newsz \<le> vpn va \<and> vpn va < pages oldsz then None else uview (mem s) pd va))"
proof -
  obtain t ys where t: "deallocuvm pd oldsz newsz s = Done newsz t" "unmapped pd (pages newsz) (pages oldsz) s xs t ys"
    using deallocuvm_run [OF assms] by blast
  have "pages oldsz \<le> 524288" using assms(3) by (simp add: pages_def)
  from unmapped_view [OF assms(1) t(2) this] show ?thesis using t(1) by blast
qed

theorem deallocuvm_correct_witness: "\<exists>t ys. deallocuvm 0x80201000 0x1000 0 kmem4 = Done 0 t \<and> uvm_ok t 0x80201000 ys \<and> uview (mem t) 0x80201000 0x234 = None"
proof -
  have "(0 :: u32) < 0x1000" "unat (0x1000 :: u32) \<le> 2147483648" "pages 0x1000 = 1" "pages 0 = 0" "vpn 0x234 = 0" "(0x234 :: u32) < KERNBASE"
    by (simp_all add: pages_def vpn_def KERNBASE_def)
  then show ?thesis using deallocuvm_correct [OF kmem4_uvm(1), of 0 "0x1000"] by fastforce
qed

end
