(* ===== verification/Xv6_Process.thy ===== *)
theory Xv6_Process
  imports Xv6_Vm
begin

text \<open>
  Creation and end of processes and the scheduler (\<^verbatim>\<open>proc.c\<close>), with the additions \<^verbatim>\<open>exit2\<close> and \<^verbatim>\<open>wait2\<close>. The bytes of a
  process's kernel stack are not modelled: its trap frame and where its context resumes are fields of the process. The
  bodies of \<^verbatim>\<open>exit\<close> and \<^verbatim>\<open>exit2\<close>, and those of \<^verbatim>\<open>wait\<close> and \<^verbatim>\<open>wait2\<close>, differ only in the exit status and are each
  translated once. \<^verbatim>\<open>swtch\<close> leaves the scheduler for a process: a scan of the table ends there, and goes on when the
  process comes back. The value \<^verbatim>\<open>ticks\<close> of \<^verbatim>\<open>trap.c\<close> is part of this state.
\<close>

section \<open>State\<close>

record kps = kvm +
  first :: bool
  ticks :: u32

definition FL_IF :: u32 where "FL_IF = 0x200"

definition tf_zero :: trapframe where
  "tf_zero = \<lparr>tf_edi = 0, tf_esi = 0, tf_ebp = 0, tf_oesp = 0, tf_ebx = 0, tf_edx = 0, tf_ecx = 0, tf_eax = 0, tf_gs = 0, tf_fs = 0,
     tf_es = 0, tf_ds = 0, tf_trapno = 0, tf_err = 0, tf_eip = 0, tf_cs = 0, tf_eflags = 0, tf_esp = 0, tf_ss = 0\<rparr>"

text \<open>\<^verbatim>\<open>safestrcpy\<close> into a name array of 16 bytes.\<close>

definition name16 :: "string \<Rightarrow> string" where
  "name16 s = take 15 s"

section \<open>Creation\<close>

definition allocproc :: "('z kvm_scheme, nat option) kmon" where
  "allocproc =
     thenK (acquire PtableLock) (
     bindK (getK (\<lambda>s. find_slot (\<lambda>p. state p = UNUSED) (ptable s))) (\<lambda>r.
     case r of
       None \<Rightarrow> thenK (release PtableLock) (returnK None)
     | Some p \<Rightarrow>
         thenK (mod_proc p (state_update (\<lambda>_. EMBRYO))) (
         bindK (getK nextpid) (\<lambda>n.
         thenK (mod_proc p (pid_update (\<lambda>_. n))) (
         thenK (modK (\<lambda>s. s\<lparr>nextpid := n + 1\<rparr>)) (
         thenK (release PtableLock) (
         bindK kalloc (\<lambda>k.
         thenK (mod_proc p (kstack_update (\<lambda>_. k))) (
         if k = 0 then thenK (mod_proc p (state_update (\<lambda>_. UNUSED))) (returnK None)
         else
           thenK (mod_proc p (\<lambda>x. x\<lparr>tf := None, ctxt := Some At_forkret\<rparr>))
                 (returnK (Some p)))))))))))"

text \<open>\<^verbatim>\<open>userinit\<close>; \<open>initcode\<close> are the bytes of \<^verbatim>\<open>initcode.S\<close>. The result of \<^verbatim>\<open>allocproc\<close> is not examined; a null pointer
  would be dereferenced.\<close>

definition userinit :: "u8 list \<Rightarrow> ('z kvm_scheme, unit) kmon" where
  "userinit initcode =
     bindK allocproc (\<lambda>r.
     case r of None \<Rightarrow> panicK ''undefined: userinit dereferences a null process'' | Some p \<Rightarrow>
     thenK (modK (\<lambda>s. s\<lparr>initproc := Some p\<rparr>)) (
     bindK setupkvm (\<lambda>d.
     thenK (mod_proc p (pgdir_update (\<lambda>_. d))) (
     if d = 0 then panicK ''userinit: out of memory?'' else
     thenK (inituvm d initcode) (
     thenK (mod_proc p (sz_update (\<lambda>_. PGSIZE))) (
     thenK (mod_proc p (tf_update (\<lambda>_. Some (tf_zero\<lparr>tf_cs := push_bit 3 (of_nat SEG_UCODE) OR 3, tf_ds := push_bit 3 (of_nat SEG_UDATA) OR 3,
        tf_es := push_bit 3 (of_nat SEG_UDATA) OR 3, tf_ss := push_bit 3 (of_nat SEG_UDATA) OR 3,
        tf_eflags := FL_IF, tf_esp := PGSIZE, tf_eip := 0\<rparr>)))) (
     thenK (mod_proc p (pname_update (\<lambda>_. name16 ''initcode''))) (
     bindK (namei [slash]) (\<lambda>i.
     thenK (mod_proc p (cwd_update (\<lambda>_. i))) (
     thenK (acquire PtableLock) (
     thenK (mod_proc p (state_update (\<lambda>_. RUNNABLE)))
           (release PtableLock))))))))))))"

definition growproc :: "int \<Rightarrow> ('z kvm_scheme, int) kmon" where
  "growproc n =
     bindK curproc (\<lambda>p.
     bindK (getK (\<lambda>s. ptable s ! p)) (\<lambda>x.
     bindK (if n > 0 then allocuvm (pgdir x) (sz x) (sz x + word_of_int n)
            else if n < 0 then deallocuvm (pgdir x) (sz x) (sz x + word_of_int n)
            else returnK (sz x)) (\<lambda>w.
     if n \<noteq> 0 \<and> w = 0 then returnK (-1) else
     thenK (mod_proc p (sz_update (\<lambda>_. w))) (
     thenK (switchuvm p) (returnK 0)))))"

definition dup_ofile :: "nat \<Rightarrow> proc \<Rightarrow> nat \<Rightarrow> ('z kvm_scheme, unit) kmon" where
  "dup_ofile np x i =
     (case ofile x ! i of
        None \<Rightarrow> returnK ()
      | Some f \<Rightarrow> bindK (filedup f) (\<lambda>g. mod_proc np (ofile_update (\<lambda>o'. o'[i := Some g]))))"

definition fork :: "('z kvm_scheme, u32) kmon" where
  "fork =
     bindK curproc (\<lambda>p.
     bindK allocproc (\<lambda>r.
     case r of None \<Rightarrow> returnK (-1) | Some np \<Rightarrow>
     bindK (getK (\<lambda>s. ptable s ! p)) (\<lambda>x.
     bindK (copyuvm (pgdir x) (sz x)) (\<lambda>d.
     thenK (mod_proc np (pgdir_update (\<lambda>_. d))) (
     if d = 0 then
       bindK (getK (\<lambda>s. kstack (ptable s ! np))) (\<lambda>k.
       thenK (kfree k) (
       thenK (mod_proc np (kstack_update (\<lambda>_. 0))) (
       thenK (mod_proc np (state_update (\<lambda>_. UNUSED))) (returnK (-1)))))
     else
       thenK (mod_proc np (\<lambda>y. y\<lparr>sz := sz x, parent := Some p, tf := map_option (\<lambda>t. t\<lparr>tf_eax := 0\<rparr>) (tf x)\<rparr>)) (
       thenK (forK [0..<NOFILE] (dup_ofile np x)) (
       bindK (case cwd x of Some i \<Rightarrow> idup i | None \<Rightarrow> panicK ''trap'') (\<lambda>i.
       thenK (mod_proc np (cwd_update (\<lambda>_. Some i))) (
       thenK (mod_proc np (pname_update (\<lambda>_. name16 (pname x)))) (
       bindK (getK (\<lambda>s. pid (ptable s ! np))) (\<lambda>n.
       thenK (acquire PtableLock) (
       thenK (mod_proc np (state_update (\<lambda>_. RUNNABLE))) (
       thenK (release PtableLock) (returnK n))))))))))))))"

section \<open>End\<close>

definition close_fd :: "nat \<Rightarrow> nat \<Rightarrow> ('z kvm_scheme, unit) kmon" where
  "close_fd p fd =
     bindK (getK (\<lambda>s. ofile (ptable s ! p) ! fd)) (\<lambda>r.
     case r of
       None \<Rightarrow> returnK ()
     | Some f \<Rightarrow> thenK (fileclose f) (mod_proc p (ofile_update (\<lambda>o'. o'[fd := None]))))"

definition abandon :: "nat \<Rightarrow> nat \<Rightarrow> ('z kvm_scheme, unit) kmon" where
  "abandon p i =
     bindK (getK (\<lambda>s. ptable s ! i)) (\<lambda>x.
     whenK (parent x = Some p) (
       bindK (getK initproc) (\<lambda>ini.
       thenK (mod_proc i (parent_update (\<lambda>_. ini)))
             (whenK (state x = ZOMBIE) (wakeup1 (map_option ProcChan ini))))))"

definition exit_close :: "nat \<Rightarrow> ('z kvm_scheme, unit) kmon" where
  "exit_close p =
     thenK (forK [0..<NOFILE] (close_fd p)) (
     thenK begin_op (
     bindK (getK (\<lambda>s. cwd (ptable s ! p))) (\<lambda>d.
     thenK (case d of Some i \<Rightarrow> iput i | None \<Rightarrow> panicK ''trap'') (
     thenK end_op
           (mod_proc p (cwd_update (\<lambda>_. None)))))))"

definition exit_finish :: "nat \<Rightarrow> u32 \<Rightarrow> ('z kvm_scheme, 'a) kmon" where
  "exit_finish p status =
     thenK (acquire PtableLock) (
     bindK (getK (\<lambda>s. parent (ptable s ! p))) (\<lambda>par.
     thenK (wakeup1 (map_option ProcChan par)) (
     bindK (getK (\<lambda>s. length (ptable s))) (\<lambda>n.
     thenK (forK [0..<n] (abandon p)) (
     thenK (mod_proc p (state_update (\<lambda>_. ZOMBIE))) (
     thenK (mod_proc p (exit_status_update (\<lambda>_. status)))
           sched))))))"

definition exit_with :: "u32 \<Rightarrow> ('z kvm_scheme, 'a) kmon" where
  "exit_with status =
     bindK curproc (\<lambda>p.
     bindK (getK initproc) (\<lambda>ini.
     if ini = Some p then panicK ''init exiting'' else
     thenK (exit_close p)
           (exit_finish p status)))"

definition exit :: "('z kvm_scheme, 'a) kmon" where
  "exit = exit_with 0"

definition exit2 :: "u32 \<Rightarrow> ('z kvm_scheme, 'a) kmon" where
  "exit2 status = exit_with status"

text \<open>What follows \<^verbatim>\<open>sched\<close> in both, should the scheduler ever come back.\<close>

definition exit_resume :: "bool \<Rightarrow> ('z kvm_scheme, 'a) kmon" where
  "exit_resume i = thenK (sched_resume i) (panicK ''zombie exit'')"

text \<open>Releasing a zombie's resources, in the order of the code; \<open>after\<close> is what happens just before the lock is
  released.\<close>

definition reap :: "(proc \<Rightarrow> ('z kvm_scheme, unit) kmon) \<Rightarrow> nat \<Rightarrow> ('z kvm_scheme, u32) kmon" where
  "reap after i =
     bindK (getK (\<lambda>s. ptable s ! i)) (\<lambda>x.
     thenK (kfree (kstack x)) (
     thenK (mod_proc i (kstack_update (\<lambda>_. 0))) (
     thenK (freevm (pgdir x)) (
     thenK (mod_proc i (\<lambda>y. y\<lparr>pid := 0, parent := None, pname := '''', killed := False, state := UNUSED\<rparr>)) (
     thenK (after x) (
     thenK (release PtableLock) (returnK (pid x))))))))"

definition wait_loop :: "(proc \<Rightarrow> ('z kvm_scheme, unit) kmon) \<Rightarrow> nat \<Rightarrow> ('z kvm_scheme, u32) kmon" where
  "wait_loop after p =
     bindK (getK ptable) (\<lambda>t.
     case find_slot (\<lambda>x. parent x = Some p \<and> state x = ZOMBIE) t of
       Some i \<Rightarrow> reap after i
     | None \<Rightarrow>
         if \<not> (\<exists>x\<in>set t. parent x = Some p) \<or> killed (t ! p) then thenK (release PtableLock) (returnK (-1))
         else sleep (Some (ProcChan p)) (Some PtableLock))"

definition wait :: "('z kvm_scheme, u32) kmon" where
  "wait = bindK curproc (\<lambda>p. thenK (acquire PtableLock) (wait_loop (\<lambda>_. returnK ()) p))"

text \<open>\<open>put\<close> stores the status at the address given to \<^verbatim>\<open>wait2\<close>.\<close>

definition wait2 :: "(u32 \<Rightarrow> ('z kvm_scheme, unit) kmon) \<Rightarrow> ('z kvm_scheme, u32) kmon" where
  "wait2 put = bindK curproc (\<lambda>p. thenK (acquire PtableLock) (wait_loop (\<lambda>x. put (exit_status x)) p))"

definition wait_resume :: "(proc \<Rightarrow> ('z kvm_scheme, unit) kmon) \<Rightarrow> nat \<Rightarrow> bool \<Rightarrow> ('z kvm_scheme, u32) kmon" where
  "wait_resume after p i = thenK (sleep_resume p PtableLock i) (wait_loop after p)"

section \<open>The scheduler\<close>

text \<open>The scan of the table from index \<open>i\<close> on, with the lock held: \<open>Some p\<close> when it switches to process \<open>p\<close>, \<open>None\<close> when
  the pass over the table ends.\<close>

definition scheduler_scan :: "nat \<Rightarrow> ('z kvm_scheme, nat option) kmon" where
  "scheduler_scan i =
     bindK mycpu (\<lambda>c.
     bindK (getK (\<lambda>s. map_option ((+) i) (find_slot (\<lambda>p. state p = RUNNABLE) (drop i (ptable s))))) (\<lambda>r.
     case r of
       None \<Rightarrow> thenK (release PtableLock) (returnK None)
     | Some p \<Rightarrow>
         thenK (mod_cpu c (cproc_update (\<lambda>_. Some p))) (
         thenK (switchuvm p) (
         thenK (mod_proc p (state_update (\<lambda>_. RUNNING)))
               (returnK (Some p))))))"

definition scheduler_init :: "('z kvm_scheme, unit) kmon" where
  "scheduler_init = bindK mycpu (\<lambda>c. mod_cpu c (cproc_update (\<lambda>_. None)))"

definition scheduler_pass :: "('z kvm_scheme, nat option) kmon" where
  "scheduler_pass = thenK sti (thenK (acquire PtableLock) (scheduler_scan 0))"

text \<open>Process \<open>p\<close> has switched back.\<close>

definition scheduler_resume :: "nat \<Rightarrow> ('z kvm_scheme, nat option) kmon" where
  "scheduler_resume p =
     thenK switchkvm (
     bindK mycpu (\<lambda>c.
     thenK (mod_cpu c (cproc_update (\<lambda>_. None)))
           (scheduler_scan (p + 1))))"

definition forkret :: "('z kps_scheme, unit) kmon" where
  "forkret =
     thenK (release PtableLock) (
     bindK (getK first) (\<lambda>f.
     whenK f (
       thenK (modK (\<lambda>s. s\<lparr>first := False\<rparr>)) (
       thenK (iinit ROOTDEV)
             (initlog ROOTDEV)))))"

end
