(* ===== verification/Xv6_Lifecycle.thy ===== *)
theory Xv6_Lifecycle
  imports Xv6_Process Xv6_Grow
begin

text \<open>
  The life of a process: how it ends (\<^verbatim>\<open>exit\<close>, \<^verbatim>\<open>exit2\<close>), how its parent learns of it (\<^verbatim>\<open>wait\<close>, \<^verbatim>\<open>wait2\<close>), and who runs
  next (\<^verbatim>\<open>scheduler\<close>). The theorem on \<^verbatim>\<open>wait2\<close> follows the pages of the child and the user memory of the parent through
  \<^verbatim>\<open>kfree\<close>, \<^verbatim>\<open>freevm\<close> and the store of the status.
\<close>

section \<open>Operations on memory alone\<close>

text \<open>With the process table locked, freeing memory changes memory and the free list only.\<close>

definition locked_ok :: "'z kcpu_scheme \<Rightarrow> bool" where
  "locked_ok s \<longleftrightarrow> cpu_ok (hw s) \<and> 0 < depth (hw s) \<and> lock_free KmemLock (hw s)"

definition only_mem :: "('z kmemst_scheme, 'a) kmon \<Rightarrow> bool" where
  "only_mem f \<longleftrightarrow> (\<forall>s x t. locked_ok s \<longrightarrow> f s = Done x t \<longrightarrow> (\<exists>m k. t = s\<lparr>mem := m, kmem := k\<rparr>))"

lemma only_memD: "only_mem f \<Longrightarrow> locked_ok s \<Longrightarrow> f s = Done x t \<Longrightarrow> \<exists>m k. t = s\<lparr>mem := m, kmem := k\<rparr>"
  unfolding only_mem_def by blast

lemma only_memI: "(\<And>s x t. locked_ok s \<Longrightarrow> f s = Done x t \<Longrightarrow> \<exists>m k. t = s\<lparr>mem := m, kmem := k\<rparr>) \<Longrightarrow> only_mem f"
  unfolding only_mem_def by blast

lemma mem_eta: "s = s\<lparr>mem := mem s, kmem := kmem (s :: 'z kmemst_scheme)\<rparr>"
  by simp

lemma locked_ok_mem [simp]: "locked_ok (s\<lparr>mem := m, kmem := k\<rparr>) = locked_ok s"
  by (simp add: locked_ok_def)

lemma only_mem_return: "only_mem (returnK x)"
  by (rule only_memI) (metis mem_eta outcome.inject(1) returnK_run)

lemma only_mem_panic: "only_mem (panicK e)"
  by (simp add: only_mem_def)

lemma only_mem_spins: "only_mem (\<lambda>s. Spins s)"
  by (simp add: only_mem_def)

lemma only_mem_get: "only_mem (getK f)"
  by (rule only_memI) (metis mem_eta outcome.inject(1) getK_run)

lemma only_mem_setmem: "only_mem (setmem f)"
proof (rule only_memI)
  fix s x t assume "setmem f s = Done x t"
  then have "t = s\<lparr>mem := f (mem s)\<rparr>" by simp
  also have "\<dots> = s\<lparr>mem := f (mem s), kmem := kmem s\<rparr>" by simp
  finally show "\<exists>m k. t = s\<lparr>mem := m, kmem := k\<rparr>" by blast
qed

lemma only_mem_bind:
  assumes "only_mem f" "\<And>x. only_mem (g x)"
  shows "only_mem (bindK f g)"
proof (rule only_memI)
  fix s x t assume s: "locked_ok s" "bindK f g s = Done x t"
  from s(2) obtain y u where u: "f s = Done y u" "g y u = Done x t" by (rule bindK_DoneE)
  obtain m k where u': "u = s\<lparr>mem := m, kmem := k\<rparr>" using only_memD [OF assms(1) s(1) u(1)] by blast
  then have "locked_ok u" using s(1) by simp
  from only_memD [OF assms(2) this u(2)] show "\<exists>m k. t = s\<lparr>mem := m, kmem := k\<rparr>" using u' by auto
qed

lemma only_mem_then: "only_mem f \<Longrightarrow> only_mem g \<Longrightarrow> only_mem (thenK f g)"
  using only_mem_bind [of f "\<lambda>_. g"] by (simp add: thenK_def)

lemma only_mem_when: "only_mem f \<Longrightarrow> only_mem (whenK b f)"
  by (cases b) (simp_all add: whenK_def only_mem_return)

lemma only_mem_forK: "(\<And>x. only_mem (f x)) \<Longrightarrow> only_mem (forK xs f)"
  by (induction xs) (simp_all add: only_mem_return only_mem_then)

lemma only_mem_peek32: "only_mem (peek32 a)"
  by (simp add: peek32_def only_mem_get)

lemma only_mem_poke32: "only_mem (poke32 a w)"
  by (simp add: poke32_def only_mem_setmem)

lemma only_mem_kfree: "only_mem (kfree v)"
proof (rule only_memI)
  fix s :: "'a kmemst_scheme" and x t assume s: "locked_ok s" "kfree v s = Done x t"
  have "\<not> (v mod PGSIZE \<noteq> 0 \<or> v < kend s \<or> PHYSTOP \<le> V2P v)" using s(2) kfree_panics [of v s] by auto
  moreover from this have "v \<noteq> 0" using V2P_range [of v] by (auto simp: not_le)
  ultimately have "kfree v s = Done () (freed v s)"
    using s(1) by (intro kfree_run) (auto simp: kmem_ready_def locked_ok_def kpage_def not_le not_less)
  moreover have "khw s = hw s" using s(1) by (simp add: khw_def locked_ok_def)
  ultimately show "\<exists>m k. t = s\<lparr>mem := m, kmem := k\<rparr>" using s(2) by (auto simp: freed_def)
qed

lemmas only_mem_intros = only_mem_return only_mem_panic only_mem_spins only_mem_get only_mem_setmem only_mem_bind only_mem_then
  only_mem_when only_mem_forK only_mem_peek32 only_mem_poke32 only_mem_kfree

lemma only_mem_walk: "only_mem (walkpgdir pd va False)"
  by (simp add: walkpgdir_def Let_def only_mem_intros)

lemma only_mem_dealloc: "only_mem (deallocuvm_loop pd n a :: ('z kmemst_scheme, unit) kmon)"
proof (induction pd n a rule: deallocuvm_loop.induct)
  case (1 pd n a)
  show ?case
  proof (cases "a < n")
    case True
    have "only_mem (if a < b + PGSIZE then deallocuvm_loop pd n (b + PGSIZE) else (\<lambda>s :: 'z kmemst_scheme. Spins s))" for b
      using 1 [OF True] by (auto simp: only_mem_spins)
    then show ?thesis
      by (subst deallocuvm_loop.simps) (auto intro!: only_mem_intros only_mem_walk)
  next
    case False
    then show ?thesis by (subst deallocuvm_loop.simps) (simp only: if_False only_mem_return)
  qed
qed

lemma only_mem_freevm: "only_mem (freevm pd)"
  by (auto simp: freevm_def deallocuvm_def intro!: only_mem_intros only_mem_dealloc)

section \<open>Ending\<close>

definition adopt :: "nat \<Rightarrow> nat option \<Rightarrow> proc \<Rightarrow> proc" where
  "adopt p ini x = (if parent x = Some p then x\<lparr>parent := ini\<rparr> else x)"

definition zombie :: "u32 \<Rightarrow> proc \<Rightarrow> proc" where
  "zombie status x = x\<lparr>state := ZOMBIE, exit_status := status, ctxt := Some In_sched\<rparr>"

text \<open>The table after \<^verbatim>\<open>exit2\<close> of process \<open>p\<close>: its parent is woken, its children belong to \<^verbatim>\<open>init\<close>, which is woken if one of them is
  a zombie, and \<open>p\<close> itself is a zombie with the status.\<close>

definition exited :: "nat \<Rightarrow> u32 \<Rightarrow> nat option \<Rightarrow> proc list \<Rightarrow> proc list" where
  "exited p status ini pt =
     (let pt1 = map (wake (map_option ProcChan (parent (pt ! p)))) pt;
          pt2 = (if \<exists>x\<in>set pt1. parent x = Some p \<and> state x = ZOMBIE then map (wake (map_option ProcChan ini)) pt1 else pt1)
      in upd_slot p (zombie status) (map (adopt p ini) pt2))"

lemma wakeup1_run [run_simps]: "wakeup1 ch s = Done () (s\<lparr>ptable := map (wake ch) (ptable s)\<rparr>)"
  by (simp add: wakeup1_def)

lemma state_zombie_wake [simp]: "state (wake ch x) = ZOMBIE \<longleftrightarrow> state x = ZOMBIE"
  by (simp add: wake_def)

lemma adopt_simps [simp]: "state (adopt p ini x) = state x" "wake ch (adopt p ini x) = adopt p ini (wake ch x)"
  by (simp_all add: adopt_def wake_def)

text \<open>The loop over the children, up to slot \<open>n\<close>.\<close>

definition adopted :: "nat \<Rightarrow> nat option \<Rightarrow> nat \<Rightarrow> proc list \<Rightarrow> proc list" where
  "adopted p ini n pt =
     (let pt2 = (if \<exists>i<n. i < length pt \<and> parent (pt ! i) = Some p \<and> state (pt ! i) = ZOMBIE then map (wake (map_option ProcChan ini)) pt else pt)
      in map (\<lambda>i. if i < n then adopt p ini (pt2 ! i) else pt2 ! i) [0..<length pt])"

lemma length_adopted [simp]: "length (adopted p ini n pt) = length pt"
  by (simp add: adopted_def Let_def)

lemma nth_adopted:
  assumes "i < length pt"
  shows "adopted p ini n pt ! i = (let x = (if \<exists>i<n. i < length pt \<and> parent (pt ! i) = Some p \<and> state (pt ! i) = ZOMBIE
      then wake (map_option ProcChan ini) (pt ! i) else pt ! i) in if i < n then adopt p ini x else x)"
  using assms by (auto simp: adopted_def Let_def)

lemma adopted_all: "adopted p ini (length pt) pt =
  map (adopt p ini) (if \<exists>x\<in>set pt. parent x = Some p \<and> state x = ZOMBIE then map (wake (map_option ProcChan ini)) pt else pt)"
proof -
  have "(\<exists>x\<in>set pt. parent x = Some p \<and> state x = ZOMBIE) \<longleftrightarrow> (\<exists>i<length pt. parent (pt ! i) = Some p \<and> state (pt ! i) = ZOMBIE)"
    by (auto simp: set_conv_nth)
  then show ?thesis by (intro nth_equalityI) (auto simp: nth_adopted Let_def)
qed

lemma abandon_step:
  assumes "i < length pt" "initproc s = ini"
  shows "abandon p i (s\<lparr>ptable := adopted p ini i pt\<rparr>) = Done () (s\<lparr>ptable := adopted p ini (Suc i) pt\<rparr>)"
proof -
  let ?z = "\<lambda>n. \<exists>j<n. j < length pt \<and> parent (pt ! j) = Some p \<and> state (pt ! j) = ZOMBIE"
  have z: "?z (Suc i) \<longleftrightarrow> ?z i \<or> parent (pt ! i) = Some p \<and> state (pt ! i) = ZOMBIE" using assms(1) less_Suc_eq by auto
  have i: "parent (adopted p ini i pt ! i) = parent (pt ! i)" "state (adopted p ini i pt ! i) = ZOMBIE \<longleftrightarrow> state (pt ! i) = ZOMBIE"
    using assms(1) by (simp_all add: nth_adopted Let_def)
  consider "parent (pt ! i) \<noteq> Some p" | "parent (pt ! i) = Some p" "state (pt ! i) \<noteq> ZOMBIE" | "parent (pt ! i) = Some p" "state (pt ! i) = ZOMBIE" by blast
  then show ?thesis
  proof cases
    case 1
    then have "adopted p ini (Suc i) pt = adopted p ini i pt"
      using z by (intro nth_equalityI) (auto simp: nth_adopted Let_def less_Suc_eq adopt_def)
    then show ?thesis using 1 i by (simp add: abandon_def whenK_def)
  next
    case 2
    then have "upd_slot i (parent_update (\<lambda>_. ini)) (adopted p ini i pt) = adopted p ini (Suc i) pt"
      using z assms(1) by (intro nth_equalityI) (auto simp: nth_upd_slot nth_adopted Let_def less_Suc_eq adopt_def)
    then show ?thesis using 2 i assms(2) by (simp add: abandon_def whenK_def mod_proc_def)
  next
    case 3
    then have "map (wake (map_option ProcChan ini)) (upd_slot i (parent_update (\<lambda>_. ini)) (adopted p ini i pt)) = adopted p ini (Suc i) pt"
      using z assms(1) by (intro nth_equalityI) (auto simp: nth_upd_slot nth_adopted Let_def less_Suc_eq adopt_def wake_def)
    then show ?thesis using 3 i assms(2) by (simp add: abandon_def whenK_def mod_proc_def wakeup1_run)
  qed
qed

lemma forK_append: "forK (xs @ ys) f = thenK (forK xs f) (forK ys f)"
  by (induction xs) (simp_all add: fun_eq_iff split: outcome.splits)

lemma abandon_run:
  assumes "initproc s = ini" "n \<le> length (ptable s)"
  shows "forK [0..<n] (abandon p) s = Done () (s\<lparr>ptable := adopted p ini n (ptable s)\<rparr>)"
  using assms(2)
proof (induction n)
  case 0
  have "adopted p ini 0 (ptable s) = ptable s" by (rule nth_equalityI) (simp_all add: nth_adopted)
  then show ?case by simp
next
  case (Suc n)
  then show ?case using abandon_step [of n "ptable s" s ini p] assms(1) by (simp add: forK_append)
qed

lemma zombie_upd:
  "upd_slot p (ctxt_update (\<lambda>_. Some In_sched)) (upd_slot p (exit_status_update (\<lambda>_. status)) (upd_slot p (state_update (\<lambda>_. ZOMBIE)) xs))
   = upd_slot p (zombie status) xs"
proof -
  have "ctxt_update (\<lambda>_. Some In_sched) \<circ> (exit_status_update (\<lambda>_. status) \<circ> state_update (\<lambda>_. ZOMBIE)) = zombie status"
    by (rule ext) (simp add: zombie_def)
  then show ?thesis by simp
qed

lemma exit_finish_run:
  assumes "calm s" "me s = p"
  shows "exit_finish p status s = Sleeps (s\<lparr>hw := enter PtableLock (hw s), ptable := exited p status (initproc s) (ptable s)\<rparr>)"
proof -
  note c = calmD [OF assms(1)]
  let ?pt1 = "map (wake (map_option ProcChan (parent (ptable s ! p)))) (ptable s)"
  let ?u = "s\<lparr>hw := enter PtableLock (hw s), ptable := ?pt1\<rparr>"
  have f: "forK [0..<length (ptable s)] (abandon p) ?u = Done () (?u\<lparr>ptable := adopted p (initproc s) (length ?pt1) ?pt1\<rparr>)"
    using abandon_run [of ?u "initproc s" "length ?pt1" p] by simp
  let ?pt2 = "map (adopt p (initproc s)) (if \<exists>x\<in>set ?pt1. parent x = Some p \<and> state x = ZOMBIE then map (wake (map_option ProcChan (initproc s))) ?pt1 else ?pt1)"
  have a: "adopted p (initproc s) (length ?pt1) ?pt1 = ?pt2" by (rule adopted_all)
  have l: "p < length ?pt2" using c(4) assms(2) by simp
  note z = zombie_upd [of p status ?pt2]
  have e: "upd_slot p (zombie status) ?pt2 = exited p status (initproc s) (ptable s)" by (simp only: exited_def Let_def)
  let ?v = "?u\<lparr>ptable := upd_slot p (exit_status_update (\<lambda>_. status)) (upd_slot p (state_update (\<lambda>_. ZOMBIE)) ?pt2)\<rparr>"
  have "sched ?v = Sleeps (?v\<lparr>ptable := upd_slot p (ctxt_update (\<lambda>_. Some In_sched)) (ptable ?v)\<rparr>)"
    by (rule sched_run) (use c l assms(2) in simp_all)
  then have "sched ?v = Sleeps (?u\<lparr>ptable := exited p status (initproc s) (ptable s)\<rparr>)" using z e by simp
  then show ?thesis using c assms(2) f a by (simp add: exit_finish_def run_simps mod_proc_def)
qed

text \<open>C28. \<^verbatim>\<open>exit2\<close>: the first process may not exit. For any other, once its files and its current directory have been let go
  (\<open>exit_close\<close>), the process becomes a zombie that keeps the exit status, its parent is woken, its children are passed
  to \<^verbatim>\<open>init\<close> (which is woken if there is a zombie among them), and the process enters the scheduler with the table lock
  held, never to return. \<^verbatim>\<open>exit\<close> does the same with status 0.\<close>

theorem exit2_correct:
  assumes "calm s" "me s = p"
  shows "exit s = exit2 0 s \<and> (initproc s = Some p \<longrightarrow> exit2 status s = Panics ''init exiting'') \<and>
    (\<forall>u. initproc s \<noteq> Some p \<and> exit_close p (s\<lparr>hw := settle (hw s)\<rparr>) = Done () u \<and> calm u \<and> me u = p \<longrightarrow>
      exit2 status s = Sleeps (u\<lparr>hw := enter PtableLock (hw u), ptable := exited p status (initproc u) (ptable u)\<rparr>))"
proof -
  have c: "curproc s = Done p (s\<lparr>hw := settle (hw s)\<rparr>)" using calmD [OF assms(1)] assms(2) by (simp add: run_simps)
  show ?thesis using c exit_finish_run [of _ p status] by (auto simp: exit2_def exit_def exit_with_def)
qed

section \<open>Waiting\<close>

definition reaped :: "proc \<Rightarrow> proc" where
  "reaped x = x\<lparr>kstack := 0, pid := 0, parent := None, pname := [], killed := False, state := UNUSED\<rparr>"

text \<open>The memory of the process in slot \<open>i\<close> can be given back: neither its kernel stack nor a page of its address space makes
  \<^verbatim>\<open>kfree\<close> panic.\<close>

definition freeable :: "nat \<Rightarrow> 'z kvm_scheme \<Rightarrow> bool" where
  "freeable i s \<longleftrightarrow> (\<exists>t. thenK (kfree (kstack (ptable s ! i))) (thenK (mod_proc i (kstack_update (\<lambda>_. 0))) (freevm (pgdir (ptable s ! i))))
     (s\<lparr>hw := enter PtableLock (hw s)\<rparr>) = Done () t)"

lemma reaped_upd:
  "upd_slot i (\<lambda>y. y\<lparr>pid := 0, parent := None, pname := [], killed := False, state := UNUSED\<rparr>) (upd_slot i (kstack_update (\<lambda>_. 0)) xs)
   = upd_slot i reaped xs"
proof -
  have "(\<lambda>y. y\<lparr>pid := 0, parent := None, pname := [], killed := False, state := UNUSED\<rparr>) \<circ> kstack_update (\<lambda>_. 0) = reaped"
    by (rule ext) (simp add: reaped_def)
  then show ?thesis by simp
qed

lemma freeableE:
  assumes "calm s" "freeable i s"
  obtains m k n l where
    "kfree (kstack (ptable s ! i)) (s\<lparr>hw := enter PtableLock (hw s)\<rparr>) = Done () (s\<lparr>hw := enter PtableLock (hw s), mem := m, kmem := k\<rparr>)"
    "freevm (pgdir (ptable s ! i)) (s\<lparr>hw := enter PtableLock (hw s), ptable := upd_slot i (kstack_update (\<lambda>_. 0)) (ptable s), mem := m, kmem := k\<rparr>)
      = Done () (s\<lparr>hw := enter PtableLock (hw s), ptable := upd_slot i (kstack_update (\<lambda>_. 0)) (ptable s), mem := n, kmem := l\<rparr>)"
proof -
  let ?s = "s\<lparr>hw := enter PtableLock (hw s)\<rparr>"
  have ok: "locked_ok ?s" using calmD [OF assms(1)] by (simp add: locked_ok_def)
  obtain t where t: "thenK (kfree (kstack (ptable s ! i))) (thenK (mod_proc i (kstack_update (\<lambda>_. 0))) (freevm (pgdir (ptable s ! i)))) ?s = Done () t"
    using assms(2) by (auto simp: freeable_def)
  from t obtain u where u: "kfree (kstack (ptable s ! i)) ?s = Done () u"
    "thenK (mod_proc i (kstack_update (\<lambda>_. 0))) (freevm (pgdir (ptable s ! i))) u = Done () t"
    by (elim thenK_DoneE) auto
  obtain m k where mk: "u = ?s\<lparr>mem := m, kmem := k\<rparr>" using only_memD [OF only_mem_kfree ok u(1)] by blast
  let ?v = "?s\<lparr>ptable := upd_slot i (kstack_update (\<lambda>_. 0)) (ptable s), mem := m, kmem := k\<rparr>"
  have "u\<lparr>ptable := upd_slot i (kstack_update (\<lambda>_. 0)) (ptable u)\<rparr> = ?v" by (rule kvm.equality) (simp_all add: mk)
  moreover have "thenK (mod_proc i (kstack_update (\<lambda>_. 0))) (freevm (pgdir (ptable s ! i))) u
      = freevm (pgdir (ptable s ! i)) (u\<lparr>ptable := upd_slot i (kstack_update (\<lambda>_. 0)) (ptable u)\<rparr>)" by (simp add: mod_proc_def)
  ultimately have v: "freevm (pgdir (ptable s ! i)) ?v = Done () t" using u(2) by (simp only:)
  have "locked_ok ?v" using ok by (simp add: locked_ok_def)
  then obtain n l where "t = ?v\<lparr>mem := n, kmem := l\<rparr>" using only_memD [OF only_mem_freevm _ v] by blast
  with u(1) mk v have "kfree (kstack (ptable s ! i)) ?s = Done () (?s\<lparr>mem := m, kmem := k\<rparr>)" "freevm (pgdir (ptable s ! i)) ?v = Done () (?v\<lparr>mem := n, kmem := l\<rparr>)"
    by simp_all
  then show thesis using that by simp
qed

lemma reap_run:
  assumes "calm s" "freeable i s" "\<And>u. after (ptable s ! i) u = Done () (u\<lparr>mem := w (mem u)\<rparr>)"
  shows "\<exists>m k. reap after i (s\<lparr>hw := enter PtableLock (hw s)\<rparr>) =
    Done (pid (ptable s ! i)) (s\<lparr>hw := settle (hw s), ptable := upd_slot i reaped (ptable s), mem := w m, kmem := k\<rparr>)"
proof -
  obtain m k n l where f:
    "kfree (kstack (ptable s ! i)) (s\<lparr>hw := enter PtableLock (hw s)\<rparr>) = Done () (s\<lparr>hw := enter PtableLock (hw s), mem := m, kmem := k\<rparr>)"
    "freevm (pgdir (ptable s ! i)) (s\<lparr>hw := enter PtableLock (hw s), ptable := upd_slot i (kstack_update (\<lambda>_. 0)) (ptable s), mem := m, kmem := k\<rparr>)
      = Done () (s\<lparr>hw := enter PtableLock (hw s), ptable := upd_slot i (kstack_update (\<lambda>_. 0)) (ptable s), mem := n, kmem := l\<rparr>)"
    by (rule freeableE [OF assms(1,2)])
  have e: "s\<lparr>hw := enter PtableLock (hw s), mem := m, kmem := k, ptable := upd_slot i (kstack_update (\<lambda>_. 0)) (ptable s)\<rparr> =
      s\<lparr>hw := enter PtableLock (hw s), ptable := upd_slot i (kstack_update (\<lambda>_. 0)) (ptable s), mem := m, kmem := k\<rparr>"
    by (rule kvm.equality) simp_all
  show ?thesis
    using f calmD [OF assms(1)] assms(3)
    by (intro exI [of _ n] exI [of _ l]) (auto simp: reap_def mod_proc_def run_simps reaped_upd e simp del: upd_slot_twice intro!: kvm.equality)
qed

definition zombie_child :: "nat \<Rightarrow> proc \<Rightarrow> bool" where
  "zombie_child p x \<longleftrightarrow> parent x = Some p \<and> state x = ZOMBIE"

lemma wait_loop_run:
  assumes "calm s" "me s = p" "\<And>i. find_slot (zombie_child p) (ptable s) = Some i \<Longrightarrow> freeable i s \<and> (\<forall>u. after (ptable s ! i) u = Done () (u\<lparr>mem := w (mem u)\<rparr>))"
  shows "case find_slot (zombie_child p) (ptable s) of
      Some i \<Rightarrow> \<exists>m k. wait_loop after p (s\<lparr>hw := enter PtableLock (hw s)\<rparr>) =
        Done (pid (ptable s ! i)) (s\<lparr>hw := settle (hw s), ptable := upd_slot i reaped (ptable s), mem := w m, kmem := k\<rparr>)
    | None \<Rightarrow> wait_loop after p (s\<lparr>hw := enter PtableLock (hw s)\<rparr>) =
        (if (\<forall>x\<in>set (ptable s). parent x \<noteq> Some p) \<or> killed (ptable s ! p) then Done (-1) (s\<lparr>hw := settle (hw s)\<rparr>)
         else Sleeps (s\<lparr>hw := enter PtableLock (hw s), ptable := upd_slot p (asleep (Some (ProcChan p))) (ptable s)\<rparr>))"
proof -
  have c: "cpu_ok (hw s)" "depth (hw s) = 0" "cur_proc (hw s) = Some p" "p < length (ptable s)" "\<And>l. lock_free l (hw s)"
    using calmD [OF assms(1)] assms(2) by simp_all
  have z: "find_slot (\<lambda>x. parent x = Some p \<and> state x = ZOMBIE) = find_slot (zombie_child p)"
    by (rule arg_cong [of _ _ find_slot]) (simp add: zombie_child_def fun_eq_iff)
  show ?thesis
  proof (cases "find_slot (zombie_child p) (ptable s)")
    case None
    then show ?thesis using c by (simp add: wait_loop_def z run_simps sleep_run_ptable)
  next
    case (Some i)
    then show ?thesis using reap_run [OF assms(1), of i after w] assms(3) [OF Some] by (simp add: wait_loop_def z)
  qed
qed

section \<open>Storing into user memory\<close>

text \<open>What the user memory of an address space is after bytes are stored at an address.\<close>

definition put_view :: "u32 \<Rightarrow> u8 list \<Rightarrow> (u32 \<Rightarrow> (u8 \<times> u32) option) \<Rightarrow> u32 \<Rightarrow> (u8 \<times> u32) option" where
  "put_view p bs w v = (if unat (v - p) < length bs then map_option (\<lambda>(_, f). (bs ! unat (v - p), f)) (w v) else w v)"

lemma vpn_offset: "vpn v = vpn w \<Longrightarrow> v AND 0xFFF = w AND 0xFFF \<Longrightarrow> v = w"
proof -
  assume "vpn v = vpn w" "v AND 0xFFF = w AND 0xFFF"
  then have "unat v div 4096 = unat w div 4096" "unat v mod 4096 = unat w mod 4096"
    by (simp_all add: vpn_def flip: unat_and_mask12)
  then show "v = w" by (metis div_mod_decomp word_unat_eq_iff)
qed

lemma uvm_ok_upd:
  fixes s t :: "'z kmemst_scheme"
  assumes "uvm_ok s pd xs" "kmem_ready t" "mem t = mem s" "kend t = kend s" "kmem t = kmem s"
  shows "uvm_ok t pd xs"
  using assms by (simp add: uvm_ok_def pgdir_ok_def kfrees_def kmem_inv_def)

text \<open>Such a store changes one page, which is neither free nor part of the page directory.\<close>

definition stored :: "u32 \<Rightarrow> u32 \<Rightarrow> u8 \<Rightarrow> 'z kmemst_scheme \<Rightarrow> 'z kmemst_scheme" where
  "stored pd va b s = s\<lparr>mem := (mem s)(frame (pte (mem s) pd (vpn va)) + (va AND 0xFFF) := b)\<rparr>"

lemma stored_frame:
  assumes "frame (pte (mem s) pd (vpn va)) mod PGSIZE = 0" "in_page x a" "x mod PGSIZE = 0" "x \<noteq> frame (pte (mem s) pd (vpn va))"
  shows "mem (stored pd va b s) a = mem s a"
  using pages_apart [OF assms(3,1,4,2)] in_page_offset [OF assms(1), of va] by (auto simp: stored_def)

lemma write_user:
  fixes b :: u8
  assumes "uvm_ok s pd xs" "va < KERNBASE" "present (pte (mem s) pd (vpn va))"
  defines "t \<equiv> stored pd va b s"
  shows "uvm_ok t pd xs" "\<And>k. k < 1048576 \<Longrightarrow> pte (mem t) pd k = pte (mem s) pd k" "owned (mem t) pd = owned (mem s) pd"
    "uframes (mem t) pd = uframes (mem s) pd"
proof -
  let ?f = "frame (pte (mem s) pd (vpn va))"
  have n: "vpn va < 524288" using assms(2) by (simp add: vpn_user)
  note f = uvm_okD [OF assms(1) n assms(3)]
  have ok: "pgdir_ok s pd xs" using assms(1) by (simp add: uvm_ok_def)
  note same = stored_frame [OF kpage_aligned [OF f(1)], where b = b, folded t_def]
  have pd: "pd mod PGSIZE = 0" "pd \<noteq> ?f" using ok f(3) by (auto simp: pgdir_ok_def kpage_def)
  have tb: "tbl (mem t) pd i = tbl (mem s) pd i" if "i < 1024" for i
    using same [OF _ pd] by (intro tbl_cong pde_cong pd(1) that)
  show p: "pte (mem t) pd k = pte (mem s) pd k" if k: "k < 1048576" for k
  proof (rule pte_cong)
    have d: "k div 1024 < 1024" using k by (simp add: less_mult_imp_div_less)
    show "tbl (mem t) pd (k div 1024) = tbl (mem s) pd (k div 1024)" by (rule tb [OF d])
    fix q assume "tbl (mem t) pd (k div 1024) = Some q"
    then have q: "tbl (mem s) pd (k div 1024) = Some q" using tb [OF d] by simp
    have "q \<noteq> ?f" using f(4) tbl_tables [OF q d] by auto
    then show "q mod PGSIZE = 0 \<and> (\<forall>a. in_page q a \<longrightarrow> mem t a = mem s a)"
      using tableD(2) [OF ok q d] same [of q] by simp
  qed
  have tabs: "tables (mem t) pd = tables (mem s) pd" using tb by (auto simp: tables_def)
  show uf: "uframes (mem t) pd = uframes (mem s) pd" unfolding uframes_def using p by (intro Collect_cong ex_cong1) auto
  show "owned (mem t) pd = owned (mem s) pd" by (simp add: owned_def tabs uf)
  have free: "kfrees s xs" using ok by (simp add: pgdir_ok_def)
  have "kfrees (s\<lparr>mem := mem t\<rparr>) xs"
  proof (rule kfrees_mem [OF free])
    fix a x assume x: "x \<in> set xs" "in_page x a"
    then have "x \<noteq> ?f" "x mod PGSIZE = 0" using f(2) free by (auto simp: kfrees_def kmem_inv_def kpage_def)
    then show "mem t a = mem s a" using same [OF x(2)] by simp
  qed
  then have "kfrees t xs" by (simp add: t_def stored_def)
  moreover have "kend t = kend s" by (simp add: t_def stored_def)
  ultimately show "uvm_ok t pd xs" using assms(1) p tb tabs unfolding uvm_ok_def pgdir_ok_def by simp
qed

lemma write_user_view:
  assumes "uvm_ok s pd xs" "va < KERNBASE" "present (pte (mem s) pd (vpn va))" "v < KERNBASE"
  shows "uview (mem (stored pd va b s)) pd v = (if v = va then map_option (\<lambda>(_, f). (b, f)) (uview (mem s) pd v) else uview (mem s) pd v)"
proof -
  let ?f = "frame (pte (mem s) pd (vpn va))" and ?g = "frame (pte (mem s) pd (vpn v))"
  have n: "vpn va < 524288" "vpn v < 524288" using assms(2,4) by (simp_all add: vpn_user)
  have p: "pte (mem (stored pd va b s)) pd (vpn v) = pte (mem s) pd (vpn v)" using write_user(2) [OF assms(1-3)] n(2) by simp
  have "mem (stored pd va b s) (?g + (v AND 0xFFF)) = (if v = va then b else mem s (?g + (v AND 0xFFF)))" if pr: "present (pte (mem s) pd (vpn v))"
  proof (cases "vpn v = vpn va")
    case True
    then show ?thesis using vpn_offset [OF True] by (auto simp: stored_def)
  next
    case False
    then have g: "?g \<noteq> ?f" using uvm_okD(5) [OF assms(1) n(2) pr n(1) assms(3)] by auto
    have a: "?g mod PGSIZE = 0" "?f mod PGSIZE = 0"
      using kpage_aligned [OF uvm_okD(1) [OF assms(1) n(2) pr]] kpage_aligned [OF uvm_okD(1) [OF assms(1) n(1) assms(3)]] .
    show ?thesis using stored_frame [OF a(2) in_page_offset [OF a(1)] a(1) g] False by auto
  qed
  then show ?thesis using p by (cases "v = va") (simp_all add: uview_def Let_def)
qed

lemma uwrite_run:
  fixes s :: "'z kvm_scheme"
  assumes "uvm_ok s q xs" "q = P2V (cr3 (vm s))" "\<forall>k<length bs. p + of_nat k < KERNBASE \<and> uview (mem s) q (p + of_nat k) \<noteq> None"
    "length bs < 2 ^ 32"
  shows "\<exists>m. uwrite p bs s = Done () (s\<lparr>mem := m\<rparr>) \<and> uvm_ok (s\<lparr>mem := m\<rparr>) q xs \<and> owned m q = owned (mem s) q \<and>
    (\<forall>v<KERNBASE. uview m q v = put_view p bs (uview (mem s) q) v) \<and>
    (\<forall>a. (\<forall>x\<in>uframes (mem s) q. \<not> in_page x a) \<longrightarrow> m a = mem s a)"
  using assms
proof (induction bs arbitrary: p s)
  case Nil
  then show ?case by (intro exI [of _ "mem s"]) (simp add: put_view_def)
next
  case (Cons b bs)
  have va: "p < KERNBASE" "uview (mem s) q p \<noteq> None" using Cons.prems(3) by force+
  then have pr: "present (pte (mem s) q (vpn p))" by (simp add: uview_def Let_def split: if_splits)
  let ?a = "frame (pte (mem s) q (vpn p)) + (p AND 0xFFF)"
  let ?t = "s\<lparr>mem := (mem s)(?a := b)\<rparr>"
  have r: "uwrite1 p b s = Done () ?t" using pr by (simp add: uwrite1_def translate_pte setmem_def flip: Cons.prems(2))
  have st: "stored q p b s = ?t" by (simp add: stored_def)
  note w = write_user(1,3,4) [OF Cons.prems(1) va(1) pr, where b = b, unfolded st] write_user_view [OF Cons.prems(1) va(1) pr, where b = b, unfolded st]
  have n: "vpn p < 524288" using va(1) by (simp add: vpn_user)
  have o: "frame (pte (mem s) q (vpn p)) \<in> uframes (mem s) q" "in_page (frame (pte (mem s) q (vpn p))) ?a"
    using n pr in_page_offset [OF kpage_aligned [OF uvm_okD(1) [OF Cons.prems(1) n pr]]] by (auto simp: uframes_def)
  have pre: "q = P2V (cr3 (vm ?t))" "length bs < 2 ^ 32" using Cons.prems(2,4) by simp_all
  have "\<forall>k<length bs. p + 1 + of_nat k < KERNBASE \<and> uview (mem ?t) q (p + 1 + of_nat k) \<noteq> None"
  proof (intro allI impI)
    fix k assume "k < length bs"
    then have k: "p + 1 + of_nat k < KERNBASE" "uview (mem s) q (p + 1 + of_nat k) \<noteq> None"
      using Cons.prems(3) [rule_format, of "Suc k"] by (simp_all add: add.assoc)
    then show "p + 1 + of_nat k < KERNBASE \<and> uview (mem ?t) q (p + 1 + of_nat k) \<noteq> None" using w(4) [OF k(1)] by auto
  qed
  from Cons.IH [OF w(1) pre(1) this pre(2)] obtain m where m: "uwrite (p + 1) bs ?t = Done () (?t\<lparr>mem := m\<rparr>)" "uvm_ok (?t\<lparr>mem := m\<rparr>) q xs"
      "owned m q = owned (mem ?t) q" "\<forall>v<KERNBASE. uview m q v = put_view (p + 1) bs (uview (mem ?t) q) v"
      "\<forall>a. (\<forall>x\<in>uframes (mem ?t) q. \<not> in_page x a) \<longrightarrow> m a = mem ?t a" by blast
  have "uview m q v = put_view p (b # bs) (uview (mem s) q) v" if v: "v < KERNBASE" for v
  proof (cases "v = p")
    case True
    have "\<not> unat (p - (p + 1)) < length bs" using Cons.prems(4) by simp
    then show ?thesis using m(4) v w(4) [OF v] True by (simp add: put_view_def)
  next
    case False
    have "v - p \<noteq> 0" using False by simp
    then have "unat (v - p - 1) = unat (v - p) - 1" "0 < unat (v - p)" by (simp_all add: unat_minus_one unat_gt_0)
    then have u: "unat (v - p) = Suc (unat (v - (p + 1)))" by (simp add: diff_diff_eq)
    then show ?thesis using m(4) v w(4) [OF v] False by (simp add: put_view_def)
  qed
  then show ?case using r m(1-3,5) w(2,3) o by (intro exI [of _ m]) auto
qed

section \<open>Releasing a child\<close>

text \<open>The pages of the process in slot \<open>i\<close>: its kernel stack, its page directory, and the tables and the user pages in it. They are
  what they should be when none of them is free and none is used twice. Below, the caller's address space \<open>q\<close> is another one, and the
  four bytes at \<open>p\<close> are in its user memory, as \<^verbatim>\<open>argptr\<close> has checked.\<close>

definition proc_pages :: "'z kmemst_scheme \<Rightarrow> nat \<Rightarrow> u32 set" where
  "proc_pages s i = insert (kstack (ptable s ! i)) (owned (mem s) (pgdir (ptable s ! i)))"

definition zombie_ok :: "'z kmemst_scheme \<Rightarrow> u32 list \<Rightarrow> nat \<Rightarrow> bool" where
  "zombie_ok s xs i \<longleftrightarrow> uvm_ok s (pgdir (ptable s ! i)) xs \<and> kpage (kend s) (kstack (ptable s ! i)) \<and>
     kstack (ptable s ! i) \<notin> set xs \<union> owned (mem s) (pgdir (ptable s ! i))"

definition caller_ok :: "'z kmemst_scheme \<Rightarrow> u32 list \<Rightarrow> nat \<Rightarrow> u32 \<Rightarrow> u32 \<Rightarrow> bool" where
  "caller_ok s xs i q p \<longleftrightarrow> uvm_ok s q xs \<and> owned (mem s) q \<inter> proc_pages s i = {} \<and>
     (\<forall>k<4. p + of_nat k < KERNBASE \<and> uview (mem s) q (p + of_nat k) \<noteq> None)"

lemma mem_only_deep: "mem_only s t \<Longrightarrow> cpu_ok (hw s) \<Longrightarrow> 0 < depth (hw s) \<Longrightarrow> t = s\<lparr>mem := mem t, kmem := kmem t\<rparr>"
  by (auto simp: mem_only_def)

text \<open>The two calls that give memory back, seen from the address space of the caller.\<close>

lemma release_pages:
  fixes s :: "'z kvm_scheme"
  assumes "cpu_ok (hw s)" "0 < depth (hw s)" "zombie_ok s xs i" "uvm_ok s q xs" "owned (mem s) q \<inter> proc_pages s i = {}"
  shows "\<exists>t ys. (\<forall>g :: ('z kvm_scheme, 'b) kmon. thenK (kfree (kstack (ptable s ! i))) (thenK (mod_proc i f) (thenK (freevm (pgdir (ptable s ! i))) g)) s = g t) \<and>
    t = s\<lparr>ptable := upd_slot i f (ptable s), mem := mem t, kmem := kmem t\<rparr> \<and> set ys = set xs \<union> proc_pages s i \<and> uvm_ok t q ys \<and>
    owned (mem t) q = owned (mem s) q \<and> uframes (mem t) q = uframes (mem s) q \<and> (\<forall>v<KERNBASE. uview (mem t) q v = uview (mem s) q v) \<and>
    (\<forall>a. (\<forall>x\<in>proc_pages s i. \<not> in_page x a) \<longrightarrow> mem t a = mem s a)"
proof -
  let ?ks = "kstack (ptable s ! i)" and ?pd = "pgdir (ptable s ! i)"
  have z: "uvm_ok s ?pd xs" "kpage (kend s) ?ks" "?ks \<notin> set xs \<union> owned (mem s) ?pd" using assms(3) by (simp_all add: zombie_ok_def)
  note c = free_one [OF z]
  let ?f = "freed ?ks s"
  let ?u = "?f\<lparr>ptable := upd_slot i f (ptable ?f)\<rparr>"
  have h: "hw ?f = hw s" "ptable ?f = ptable s" using assms(1,2) by (simp_all add: freed_def khw_def)
  have u: "uvm_ok ?u ?pd (?ks # xs)" using c(2) uvm_ok_cong [of ?u ?f] by simp
  obtain t ys where t: "freevm ?pd ?u = Done () t" "kfrees t ys" "mem_only ?u t" "set ys = set (?ks # xs) \<union> owned (mem ?u) ?pd"
      "\<forall>b. (\<forall>p\<in>owned (mem ?u) ?pd. \<not> in_page p b) \<longrightarrow> mem t b = mem ?u b"
    using freevm_run [OF u] by blast
  have run: "thenK (kfree ?ks) (thenK (mod_proc i f) (thenK (freevm ?pd) g)) s = g t" for g :: "('z kvm_scheme, 'b) kmon" using t(1) c(1) by (simp add: mod_proc_def)
  obtain m k where "t = ?u\<lparr>mem := m, kmem := k\<rparr>" using mem_only_deep [OF t(3)] assms(1,2) h by auto
  then have t': "t = s\<lparr>ptable := upd_slot i f (ptable s), mem := mem t, kmem := kmem t\<rparr>"
    using h by (simp add: freed_def)
  have keep: "mem t a = mem s a" if "\<forall>x\<in>proc_pages s i. \<not> in_page x a" for a
    using that t(5) c(3) freed_frame [OF kpage_aligned [OF z(2)], of a s] by (simp add: proc_pages_def)
  have pg: "x mod PGSIZE = 0" if "x \<in> proc_pages s i" for x
    using that ownedD(2) [OF _ z(1)] kpage_aligned [OF z(2)] unfolding proc_pages_def by blast
  have own: "mem t a = mem s a" if p: "p \<in> owned (mem s) q" "in_page p a" for p a
  proof (intro keep ballI)
    fix x assume x: "x \<in> proc_pages s i"
    then have "p \<noteq> x" using p(1) assms(5) by auto
    then show "\<not> in_page x a" by (rule pages_apart [OF ownedD(2) [OF p(1) assms(4)] pg [OF x] _ p(2)])
  qed
  have ys: "set ys = set xs \<union> proc_pages s i" using t(4) c(3) by (auto simp: proc_pages_def)
  have ends: "kend t = kend s" "set ys \<inter> owned (mem s) q = {}"
    by (subst t', simp) (use assms(5) ownedD(3) [OF _ assms(4)] ys in auto)
  have o: "uvm_ok t q ys" "owned (mem t) q = owned (mem s) q"
    "\<And>k. k < 1048576 \<Longrightarrow> pte (mem t) q k = pte (mem s) q k" "\<And>va. va < KERNBASE \<Longrightarrow> uview (mem t) q va = uview (mem s) q va"
    using own by (auto intro!: uvm_other [OF assms(4) t(2) ends])
  have "uframes (mem t) q = uframes (mem s) q" unfolding uframes_def using o(3) by (intro Collect_cong ex_cong1) auto
  then show ?thesis using run t' ys o(1,2,4) keep by blast
qed

text \<open>All of \<open>reap\<close>, as \<^verbatim>\<open>sys_wait2\<close> uses it.\<close>

lemma reap_frees:
  fixes s :: "'z kvm_scheme"
  assumes "calm s" "zombie_ok s xs i" "caller_ok s xs i q p" "q = P2V (cr3 (vm s))"
  shows "\<exists>t ys. reap (\<lambda>x. uwrite p (bytes32 (exit_status x))) i (s\<lparr>hw := enter PtableLock (hw s)\<rparr>) = Done (pid (ptable s ! i)) t \<and>
    t = s\<lparr>hw := settle (hw s), ptable := upd_slot i reaped (ptable s), mem := mem t, kmem := kmem t\<rparr> \<and>
    kfrees t ys \<and> set ys = set xs \<union> proc_pages s i \<and> uvm_ok t q ys \<and> owned (mem t) q = owned (mem s) q \<and>
    (\<forall>v<KERNBASE. uview (mem t) q v = put_view p (bytes32 (exit_status (ptable s ! i))) (uview (mem s) q) v) \<and>
    (\<forall>a. (\<forall>x\<in>proc_pages s i \<union> uframes (mem s) q. \<not> in_page x a) \<longrightarrow> mem t a = mem s a)"
proof -
  let ?s = "s\<lparr>hw := enter PtableLock (hw s)\<rparr>" and ?x = "ptable s ! i"
  let ?st = "bytes32 (exit_status ?x)"
  have h: "cpu_ok (hw s)" "depth (hw s) = 0" "\<And>l. lock_free l (hw s)" using calmD [OF assms(1)] by simp_all
  have ready: "kmem_ready ?s" using h by (simp add: kmem_ready_def)
  have deep: "cpu_ok (hw ?s)" "0 < depth (hw ?s)" using h by simp_all
  have pp: "proc_pages ?s i = proc_pages s i" by (simp add: proc_pages_def)
  have up: "uvm_ok s d zs \<Longrightarrow> uvm_ok ?s d zs" for d zs by (rule uvm_ok_upd [OF _ ready]) simp_all
  have z: "zombie_ok ?s xs i" "uvm_ok ?s q xs" "owned (mem ?s) q \<inter> proc_pages ?s i = {}"
    using assms(2,3) up unfolding pp by (auto simp: zombie_ok_def caller_ok_def)
  obtain t ys where t: "\<And>g :: ('z kvm_scheme, u32) kmon. thenK (kfree (kstack ?x)) (thenK (mod_proc i (kstack_update (\<lambda>_. 0))) (thenK (freevm (pgdir ?x)) g)) ?s = g t"
      "t = ?s\<lparr>ptable := upd_slot i (kstack_update (\<lambda>_. 0)) (ptable s), mem := mem t, kmem := kmem t\<rparr>" "set ys = set xs \<union> proc_pages s i"
      "uvm_ok t q ys" "owned (mem t) q = owned (mem s) q" "uframes (mem t) q = uframes (mem s) q"
      "\<forall>v<KERNBASE. uview (mem t) q v = uview (mem s) q v" "\<forall>a. (\<forall>x\<in>proc_pages s i. \<not> in_page x a) \<longrightarrow> mem t a = mem s a"
    using release_pages [OF deep z, of "kstack_update (\<lambda>_. 0)"] unfolding pp by auto
  let ?u = "?s\<lparr>ptable := upd_slot i reaped (ptable s), mem := mem t, kmem := kmem t\<rparr>"
  have th: "kend t = kend s" "hw t = hw ?s" "ptable t = upd_slot i (kstack_update (\<lambda>_. 0)) (ptable s)" by (subst t(2), simp)+
  then have u: "uvm_ok ?u q ys" using t(4) uvm_ok_cong [of ?u t] by simp
  have "q = P2V (cr3 (vm ?u))" "\<forall>k<length ?st. p + of_nat k < KERNBASE \<and> uview (mem ?u) q (p + of_nat k) \<noteq> None" "length ?st < 2 ^ 32"
    using assms(3,4) t(7) by (simp_all add: caller_ok_def bytes32_def)
  from uwrite_run [OF u this] obtain m where m: "uwrite p ?st ?u = Done () (?u\<lparr>mem := m\<rparr>)" "uvm_ok (?u\<lparr>mem := m\<rparr>) q ys"
      "owned m q = owned (mem ?u) q" "\<forall>v<KERNBASE. uview m q v = put_view p ?st (uview (mem ?u) q) v"
      "\<forall>a. (\<forall>x\<in>uframes (mem ?u) q. \<not> in_page x a) \<longrightarrow> m a = mem ?u a" by blast
  let ?v = "s\<lparr>hw := settle (hw s), ptable := upd_slot i reaped (ptable s), mem := m, kmem := kmem t\<rparr>"
  have "kmem_ready ?v" using h by (simp add: kmem_ready_def)
  then have v: "uvm_ok ?v q ys" by (rule uvm_ok_upd [OF m(2)]) simp_all
  have "t\<lparr>ptable := upd_slot i (\<lambda>y. y\<lparr>pid := 0, parent := None, pname := [], killed := False, state := UNUSED\<rparr>) (ptable t)\<rparr>
      = (?s\<lparr>ptable := upd_slot i (kstack_update (\<lambda>_. 0)) (ptable s), mem := mem t, kmem := kmem t\<rparr>)\<lparr>ptable := upd_slot i reaped (ptable s)\<rparr>"
    unfolding th(3) reaped_upd by (rule arg_cong [OF t(2)])
  also have "\<dots> = ?u" by simp
  finally have "reap (\<lambda>x. uwrite p (bytes32 (exit_status x))) i ?s = Done (pid ?x) ?v"
    using h m(1) t(1) by (simp add: reap_def mod_proc_def run_simps)
  moreover have "kfrees ?v ys" using v by (simp add: uvm_ok_def pgdir_ok_def)
  moreover have "put_view p ?st (uview (mem t) q) v = put_view p ?st (uview (mem s) q) v" if "v < KERNBASE" for v
    using t(7) that by (simp add: put_view_def)
  ultimately show ?thesis using v t(3,5,6,8) m(3-5) by (intro exI [of _ ?v] exI [of _ ys]) simp
qed

lemma wait_loop_zombie: "find_slot (zombie_child p) (ptable s) = Some i \<Longrightarrow> wait_loop after p s = reap after i s"
  by (simp add: wait_loop_def zombie_child_def [abs_def])

text \<open>C29. \<^verbatim>\<open>wait2\<close> as the system call uses it, with the address \<open>p\<close> in the user memory of the caller, whose address space \<open>q\<close> is
  the one in use. If a child is a zombie, the first one in the table is released: its slot is unused again; the free pages are
  those that were free, the child's kernel stack and every page of its address space; the child's exit status is in the
  four bytes at \<open>p\<close> and the caller's user memory is otherwise what it was; no other memory and nothing else of the kernel
  changes; the child's process number is returned. A process without children, or one that has been killed, gets -1; any
  other process sleeps until a child ends, still holding the table lock as it enters the scheduler, so that no child's
  exit can be missed.\<close>

theorem wait2_correct:
  fixes s :: "'z kvm_scheme"
  assumes "calm s" "me s = c" "q = P2V (cr3 (vm s))"
    "\<And>i. find_slot (zombie_child c) (ptable s) = Some i \<Longrightarrow> zombie_ok s xs i \<and> caller_ok s xs i q p"
  shows "case find_slot (zombie_child c) (ptable s) of
      Some i \<Rightarrow> \<exists>t ys. wait2 (\<lambda>st. uwrite p (bytes32 st)) s = Done (pid (ptable s ! i)) t \<and>
        t = s\<lparr>hw := settle (hw s), ptable := upd_slot i reaped (ptable s), mem := mem t, kmem := kmem t\<rparr> \<and>
        kfrees t ys \<and> set ys = set xs \<union> proc_pages s i \<and> uvm_ok t q ys \<and> owned (mem t) q = owned (mem s) q \<and>
        (\<forall>v<KERNBASE. uview (mem t) q v = put_view p (bytes32 (exit_status (ptable s ! i))) (uview (mem s) q) v) \<and>
        (\<forall>a. (\<forall>x\<in>proc_pages s i \<union> uframes (mem s) q. \<not> in_page x a) \<longrightarrow> mem t a = mem s a)
    | None \<Rightarrow> wait2 (\<lambda>st. uwrite p (bytes32 st)) s =
        (if (\<forall>x\<in>set (ptable s). parent x \<noteq> Some c) \<or> killed (ptable s ! c) then Done (-1) (s\<lparr>hw := settle (hw s)\<rparr>)
         else Sleeps (s\<lparr>hw := enter PtableLock (settle (hw s)), ptable := upd_slot c (asleep (Some (ProcChan c))) (ptable s)\<rparr>))"
proof -
  let ?s = "s\<lparr>hw := settle (hw s)\<rparr>" and ?w = "\<lambda>x. uwrite p (bytes32 (exit_status x)) :: ('z kvm_scheme, unit) kmon"
  have h: "cpu_ok (hw s)" "depth (hw s) = 0" "cur_proc (hw s) = Some c" "\<And>l. lock_free l (hw s)" using calmD [OF assms(1)] assms(2) by simp_all
  have c: "calm ?s" "me ?s = c" using assms(1,2) h by (simp_all add: hart_settled)
  have run: "wait2 (\<lambda>st. uwrite p (bytes32 st)) s = wait_loop ?w c (?s\<lparr>hw := enter PtableLock (hw ?s)\<rparr>)"
    using h by (simp add: wait2_def run_simps hart_settled)
  show ?thesis
  proof (cases "find_slot (zombie_child c) (ptable s)")
    case None
    then show ?thesis using wait_loop_run [OF c, of ?w] run by simp
  next
    case (Some i)
    have "kmem_ready ?s" using h by (simp add: kmem_ready_def)
    then have up: "uvm_ok s d zs \<Longrightarrow> uvm_ok ?s d zs" for d zs using uvm_ok_upd [of s d zs ?s] by simp
    then have z: "zombie_ok ?s xs i" "caller_ok ?s xs i q p" "q = P2V (cr3 (vm ?s))" "proc_pages ?s i = proc_pages s i"
      using assms(3,4) Some by (simp_all add: zombie_ok_def caller_ok_def proc_pages_def)
    show ?thesis using reap_frees [OF c(1) z(1-3)] Some unfolding run z(4) by (simp add: wait_loop_zombie)
  qed
qed

lemma find_slot_first: "i < length xs \<Longrightarrow> P (xs ! i) \<Longrightarrow> \<forall>j<i. \<not> P (xs ! j) \<Longrightarrow> find_slot P xs = Some i"
  by (simp add: find_slot_Some_iff)

lemma exited_self:
  assumes "p < length pt" "parent (pt ! p) \<noteq> Some p"
  shows "pid (exited p st ini pt ! p) = pid (pt ! p)" "parent (exited p st ini pt ! p) = parent (pt ! p)"
    "state (exited p st ini pt ! p) = ZOMBIE" "exit_status (exited p st ini pt ! p) = st"
  using assms by (simp_all add: exited_def Let_def zombie_def adopt_def)

text \<open>C4. What a process passes to \<^verbatim>\<open>exit2\<close> is what its parent gets from \<^verbatim>\<open>wait2\<close>: when \<open>p\<close>, a child of \<open>q\<close>, has ended with a status,
  and \<open>q\<close> later calls \<^verbatim>\<open>wait2\<close> while the slot of \<open>p\<close> is as the exit left it and no earlier slot has another zombie child of
  \<open>q\<close>, the call returns the process number of \<open>p\<close>, stores that status, and frees the slot.\<close>

theorem exit2_wait2:
  assumes "calm s" "me s = p" "parent (ptable s ! p) = Some q" "q \<noteq> p" "exit_finish p status s = Sleeps t"
    and "calm u" "me u = q" "length (ptable u) = length (ptable s)" "ptable u ! p = ptable t ! p" "\<forall>j<p. \<not> zombie_child q (ptable u ! j)"
    and "freeable p (u\<lparr>hw := settle (hw u)\<rparr>)" "\<And>v. put_st status v = Done () (v\<lparr>mem := w (mem v)\<rparr>)"
  shows "\<exists>m k. wait2 put_st u =
    Done (pid (ptable s ! p)) (u\<lparr>hw := settle (hw u), ptable := upd_slot p reaped (ptable u), mem := w m, kmem := k\<rparr>)"
proof -
  have p: "p < length (ptable s)" using calmD(4) [OF assms(1)] assms(2) by simp
  have "ptable t = exited p status (initproc s) (ptable s)" using assms(5) by (auto simp: exit_finish_run [OF assms(1,2)])
  then have z: "pid (ptable u ! p) = pid (ptable s ! p)" "zombie_child q (ptable u ! p)" "exit_status (ptable u ! p) = status"
    using exited_self [OF p] assms(3,4,9) by (simp_all add: zombie_child_def)
  let ?u = "u\<lparr>hw := settle (hw u)\<rparr>"
  have c: "calm ?u" "me ?u = q" using assms(6,7) calmD [OF assms(6)] by (simp_all add: hart_settled)
  have f: "find_slot (zombie_child q) (ptable ?u) = Some p" using z(2) assms(8,10) p by (intro find_slot_first) simp_all
  have "wait2 put_st u = wait_loop (\<lambda>x. put_st (exit_status x)) q (?u\<lparr>hw := enter PtableLock (settle (hw u))\<rparr>)"
    using calmD [OF assms(6)] assms(7) by (simp add: wait2_def run_simps hart_settled)
  then show ?thesis
    using wait_loop_run [OF c, of "\<lambda>x. put_st (exit_status x)" w] f z assms(11,12) by simp
qed

section \<open>Releasing an address space that maps nothing\<close>

definition empty_dir :: "u32 \<Rightarrow> memory \<Rightarrow> bool" where
  "empty_dir pd m \<longleftrightarrow> (\<forall>i<1024. load32 m (pd + 4 * of_nat i) AND PTE_P = 0)"

lemma empty_dirD: "empty_dir pd m \<Longrightarrow> load32 m (pd + 4 * PDX a) AND PTE_P = 0"
  unfolding empty_dir_def using PDX_less [of a] by (metis of_nat_unat ucast_id)

lemma next_dir_above:
  assumes "a < KERNBASE"
  shows "a < PGADDR (PDX a + 1) 0 0"
proof -
  have "unat (PDX a) = unat a div 2 ^ 22 mod 1024"
    by (simp add: PDX_def mask10 drop_bit_eq_div take_bit_eq_mod unat_and_mask unat_div unat_mod flip: take_bit_eq_mask)
  moreover have "unat a < 2 ^ 31" using assms by (simp add: KERNBASE_def word_less_nat_alt)
  ultimately have d: "unat (PDX a) = unat a div 2 ^ 22" "unat a div 2 ^ 22 < 512" by simp_all
  then have "unat (PGADDR (PDX a + 1) 0 0) = (unat a div 2 ^ 22 + 1) * 2 ^ 22"
    by (simp add: PGADDR_def push_bit_eq_mult unat_word_ariths)
  then show ?thesis unfolding word_less_nat_alt by (simp add: dividend_less_div_times)
qed

lemma dealloc_empty:
  fixes s :: "'z kmemst_scheme"
  assumes "empty_dir pd (mem s)" "n \<le> KERNBASE"
  shows "deallocuvm_loop pd n a s = Done () s"
  using assms
proof (induction pd n a rule: deallocuvm_loop.induct)
  case (1 pd n a)
  show ?case
  proof (cases "a < n")
    case True
    then have "a < PGADDR (PDX a + 1) 0 0" using 1(3) by (intro next_dir_above) simp
    then show ?thesis
      using True empty_dirD [OF 1(2), of a] 1(1) [OF True _ 1(2,3), of "PGADDR (PDX a + 1) 0 0 - PGSIZE"]
      by (subst deallocuvm_loop.simps) (simp add: walkpgdir_def Let_def peek32_def)
  qed (simp add: deallocuvm_loop.simps)
qed

lemma freevm_empty:
  assumes "pd \<noteq> 0" "empty_dir pd (mem s)"
  shows "freevm pd s = kfree pd s"
proof -
  have "forK [0..<n] (\<lambda>i. bindK (peek32 (pd + 4 * of_nat i)) (\<lambda>e. whenK (e AND PTE_P \<noteq> 0) (kfree (P2V (PTE_ADDR e))))) s = Done () s" if "n \<le> 1024" for n
    using that assms(2) by (induction n) (simp_all add: forK_append peek32_def empty_dir_def whenK_def)
  from this [of 1024] dealloc_empty [OF assms(2), of KERNBASE 0] show ?thesis
    using assms(1) by (simp add: freevm_def deallocuvm_def KERNBASE_def PGROUNDUP_def PGSIZE_def NPDENTRIES_def)
qed

section \<open>A parent and its child\<close>

text \<open>Slot 0 is the first process, slot 1 its child; the processor runs the process in slot \<open>p\<close>. Both hold a reference to the
  root directory, and the child's page directory at 0x80300000 is empty.\<close>

definition child0 :: proc where
  "child0 = proc0\<lparr>pid := 2, parent := Some 0, cwd := Some 0\<rparr>"

definition hart_of :: "nat \<Rightarrow> hart" where
  "hart_of p = hart0\<lparr>cpus := [cpu0\<lparr>cproc := Some p\<rparr>]\<rparr>"

definition family :: "nat \<Rightarrow> proc list \<Rightarrow> kvm" where
  "family p pt = \<lparr>hw = hart_of p, ptable = pt, initproc = Some 0, nextpid = 3,
     slocks = (\<lambda>_. \<lparr>sl_locked = 0, sl_name = [], sl_pid = 0\<rparr>),
     mem = (\<lambda>_. 0), kend = 0x80120000, kdata = 0x80110000, kmem = \<lparr>use_lock = True, freelist = 0x80200000\<rparr>,
     bio = bio0, lg = lg0\<lparr>lg_outstanding := 0, lg_lh := \<lparr>lh_n = 0, lh_block = replicate 30 0\<rparr>\<rparr>,
     fs = fs0\<lparr>inodes := (inodes fs0)[0 := (inodes fs0 ! 0)\<lparr>i_dev := 1, i_inum := 1, i_ref := 2\<rparr>]\<rparr>,
     cons = cons0, pipes = (\<lambda>_. pipe0), ftable = [], vm = \<lparr>kpgdir = 0, cr3 = 0, ts_addr = (\<lambda>_. 0)\<rparr>\<rparr>"

lemma hart_of_calm:
  assumes "p < n"
  shows "hcalm n (hart_of p)" "cur_proc (hart_of p) = Some p"
  using assms
  by (simp_all add: hart_of_def hcalm_def hart0_def cpu0_def cpu_ok_def depth_def lock_free_def this_cpu_def cur_proc_def)

lemma freeable_family:
  assumes "p < length pt" "i < length pt" "kstack (pt ! i) = 0x80301000" "pgdir (pt ! i) = 0x80300000"
  shows "freeable i ((family p pt)\<lparr>hw := settle (hart_of p)\<rparr>)"
proof -
  let ?s = "(family p pt)\<lparr>hw := enter PtableLock (settle (hart_of p))\<rparr>"
  let ?t = "freed 0x80301000 ?s"
  let ?u = "?t\<lparr>ptable := upd_slot i (kstack_update (\<lambda>_. 0)) (ptable ?t)\<rparr>"
  note h = calmD [of "family p pt"]
  have r: "kmem_ready ?s" "kmem_ready ?u" "kpage (kend ?s) 0x80301000" "kpage (kend ?u) 0x80300000"
    using h hart_of_calm [OF assms(1)]
    by (simp_all add: kmem_ready_def kpage_def family_def freed_def khw_def PGSIZE_def V2P_def KERNBASE_def PHYSTOP_def hart_settled)
  have "mem ?u (0x80300000 + of_nat k) = 0" if "k < 4096" for k
  proof -
    have "in_page 0x80300000 (0x80300000 + of_nat k)" using that by (intro in_page_word) (simp_all add: PGSIZE_def)
    then have "\<not> in_page 0x80301000 (0x80300000 + of_nat k)" by (rule pages_apart [rotated 3]) (simp_all add: PGSIZE_def)
    then show ?thesis using freed_frame [of "0x80301000" "0x80300000 + of_nat k" ?s] by (simp add: PGSIZE_def) (simp add: family_def)
  qed
  from this [of "4 * k" for k] this [of "4 * k + 1" for k] this [of "4 * k + 2" for k] this [of "4 * k + 3" for k]
  have "empty_dir 0x80300000 (mem ?u)" by (simp add: empty_dir_def load32_def word_of_bytes_def add.assoc)
  then show ?thesis using freevm_empty [of "0x80300000" ?u] kfree_run [OF r(1,3)] kfree_run [OF r(2,4)] assms
    by (simp add: freeable_def mod_proc_def) (simp add: family_def)
qed

lemma family_simps [simp]:
  "hw (family p pt) = hart_of p" "ptable (family p pt) = pt" "initproc (family p pt) = Some 0"
  by (simp_all add: family_def)

lemma child0_simps [simp]: "parent child0 = Some 0" "pid child0 = 2" "kstack child0 = 0x80301000" "pgdir child0 = 0x80300000"
  by (simp_all add: child0_def proc0_def)

lemma setmem_done: "setmem f u = Done () (u\<lparr>mem := f (mem u)\<rparr>)"
  by (simp add: setmem_def)

text \<open>The parent's user page 0 is in the frame 0x80205000, as in \<open>kmem4\<close>.\<close>

definition family4 :: kvm where
  "family4 = (family 0 [proc0, child0\<lparr>state := ZOMBIE, exit_status := 7\<rparr>])\<lparr>mem := mem kmem4,
     vm := \<lparr>kpgdir = 0, cr3 = 0x201000, ts_addr = (\<lambda>_. 0)\<rparr>\<rparr>"

lemma family4_mem: "mem family4 = mem kmem4" "kend family4 = 0x80120000" "ptable family4 = [proc0, child0\<lparr>state := ZOMBIE, exit_status := 7\<rparr>]"
  "hw family4 = hart_of 0"
  by (simp_all add: family4_def) (simp add: family_def)

lemma child_dir: "i < 1024 \<Longrightarrow> tbl (mem kmem4) 0x80300000 i = None"
  by (simp add: tbl_def pde_def kmem4_def kmem3_def load_store_first PGSIZE_def)

lemma child_pages: "n < 1048576 \<Longrightarrow> pte (mem kmem4) 0x80300000 n = 0" "owned (mem kmem4) 0x80300000 = {0x80300000}"
proof -
  show "n < 1048576 \<Longrightarrow> pte (mem kmem4) 0x80300000 n = 0" for n by (simp add: pte_def child_dir less_mult_imp_div_less)
  then show "owned (mem kmem4) 0x80300000 = {0x80300000}" by (auto simp: owned_def tables_def child_dir uframes_def)
qed

lemma parent_pages: "owned (mem kmem4) 0x80201000 \<subseteq> {0x80201000, 0x80204000, 0x80205000}"
  by (auto simp: owned_def tables_def kmem4_entries(1) uframes_def kmem4_pte frame_def PTE_ADDR_def P2V_def KERNBASE_def split: if_splits)

lemma family4_ok:
  "calm family4" "me family4 = 0" "zombie_ok family4 [0x80200000, 0x80202000, 0x80203000] 1" "caller_ok family4 [0x80200000, 0x80202000, 0x80203000] 1 0x80201000 0x10"
  "proc_pages family4 1 = {0x80300000, 0x80301000}"
proof -
  show c: "calm family4" "me family4 = 0" using hart_of_calm [of 0 "Suc (Suc 0)"] by (simp_all add: family4_mem)
  have k: "kfrees family4 [0x80200000, 0x80202000, 0x80203000]"
  proof -
    have e: "kmem family4 = kmem kmem4" "kend family4 = kend kmem4" by (simp_all add: family4_def family_def kmem4_def kmem3_def kmem0_def)
    have "kmem_inv kmem4 [0x80200000, 0x80202000, 0x80203000]" using kmem4_uvm(1) by (simp add: uvm_ok_def pgdir_ok_def kfrees_def)
    then show ?thesis using calmD [OF c(1)] by (simp add: kfrees_def kmem_ready_def kmem_inv_def e family4_mem(1))
  qed
  have u: "uvm_ok family4 0x80201000 [0x80200000, 0x80202000, 0x80203000]" 
    using kmem4_uvm(1) k by (simp add: uvm_ok_def pgdir_ok_def family4_mem) (simp add: kmem4_def kmem3_def kmem0_def)
  have d: "uvm_ok family4 0x80300000 [0x80200000, 0x80202000, 0x80203000]"
    using k by (simp add: uvm_ok_def pgdir_ok_def family4_mem child_dir child_pages(1) kpage_def PGSIZE_def V2P_def KERNBASE_def PHYSTOP_def)
  show p: "proc_pages family4 1 = {0x80300000, 0x80301000}" by (auto simp: proc_pages_def family4_mem child_pages)
  show "zombie_ok family4 [0x80200000, 0x80202000, 0x80203000] 1"
    using d by (simp add: zombie_ok_def family4_mem child_pages(2) kpage_def PGSIZE_def V2P_def KERNBASE_def PHYSTOP_def)
  have v: "vpn (0x10 + of_nat k) = 0" if "k < 4" for k
    using that by (auto simp: vpn_def unat_word_ariths unat_of_nat)
  have w: "0x10 + of_nat k < KERNBASE" if "k < 4" for k
    using that by (auto simp: KERNBASE_def word_less_nat_alt unat_word_ariths unat_of_nat)
  show "caller_ok family4 [0x80200000, 0x80202000, 0x80203000] 1 0x80201000 0x10"
    unfolding caller_ok_def p using u parent_pages v w
    by (auto simp: family4_mem uview_def Let_def kmem4_pte present_def PTE_P_def)
qed

theorem wait2_correct_witness:
  "\<exists>t ys. wait2 (\<lambda>st. uwrite 0x10 (bytes32 st)) family4 = Done 2 t \<and> ptable t = [proc0, reaped (child0\<lparr>state := ZOMBIE, exit_status := 7\<rparr>)] \<and>
     kfrees t ys \<and> set ys = {0x80200000, 0x80202000, 0x80203000, 0x80300000, 0x80301000} \<and> uview (mem t) 0x80201000 0x10 = Some (7, 7)"
proof -
  have f: "find_slot (zombie_child 0) (ptable family4) = Some 1" unfolding family4_mem by (rule find_slot_first) (simp_all add: zombie_child_def proc0_def)
  have q: "0x80201000 = P2V (cr3 (vm family4))" by (simp add: family4_def P2V_def KERNBASE_def)
  have x: "pid (ptable family4 ! 1) = 2" "exit_status (ptable family4 ! 1) = 7" by (simp_all add: family4_mem)
  obtain t ys where t: "wait2 (\<lambda>st. uwrite 0x10 (bytes32 st)) family4 = Done 2 t"
      "t = family4\<lparr>hw := settle (hw family4), ptable := upd_slot 1 reaped (ptable family4), mem := mem t, kmem := kmem t\<rparr>"
      "kfrees t ys" "set ys = set [0x80200000, 0x80202000, 0x80203000] \<union> proc_pages family4 1"
      "\<forall>v<KERNBASE. uview (mem t) 0x80201000 v = put_view 0x10 (bytes32 7) (uview (mem family4) 0x80201000) v"
    using wait2_correct [OF family4_ok(1,2) q, of "[0x80200000, 0x80202000, 0x80203000]" "0x10"] family4_ok(3,4) unfolding f x option.case by (simp) blast
  have "ptable t = upd_slot 1 reaped (ptable family4)" by (subst t(2)) simp
  moreover have "uview (mem kmem4) 0x80201000 0x10 = Some (mem kmem4 0x80205010, 7)"
    by (simp add: uview_def vpn_def kmem4_pte present_def PTE_P_def frame_def PTE_ADDR_def P2V_def KERNBASE_def PTE_FLAGS_def)
  ultimately show ?thesis using t(1,3,5) t(4) [unfolded family4_ok(5)]
    by (intro exI [of _ t] exI [of _ ys]) (auto simp: family4_mem upd_slot_def put_view_def bytes32_def byte_of_def KERNBASE_def)
qed

theorem exit2_wait2_witness:
  "\<exists>t m k. exit_finish 1 7 (family 1 [proc0, child0]) = (Sleeps t :: (int, unit kvm_scheme) outcome) \<and>
    wait2 (\<lambda>st. setmem (store32 0x1000 st)) (family 0 [proc0, ptable t ! 1]) =
    Done 2 ((family 0 [proc0, ptable t ! 1])\<lparr>hw := settle (hart_of 0),
      ptable := upd_slot 1 reaped [proc0, ptable t ! 1], mem := store32 0x1000 7 m, kmem := k\<rparr>)"
proof -
  let ?s = "family 1 [proc0, child0]"
  have c: "calm ?s" "me ?s = 1" using hart_of_calm [of 1 2] by (simp_all add: numeral_2_eq_2)
  obtain t where t: "exit_finish 1 7 ?s = (Sleeps t :: (int, unit kvm_scheme) outcome)" "ptable t = exited 1 7 (Some 0) [proc0, child0]"
    by (auto simp: exit_finish_run [OF c, simplified])
  let ?u = "family 0 [proc0, ptable t ! 1]"
  have d: "calm ?u" "me ?u = 0" using hart_of_calm [of 0 2] by (simp_all add: numeral_2_eq_2)
  have k: "kstack (ptable t ! 1) = 0x80301000" "pgdir (ptable t ! 1) = 0x80300000"
    by (simp_all add: t(2) exited_def Let_def zombie_def adopt_def wake_def)
  have "\<not> zombie_child 0 proc0" by (simp add: zombie_child_def proc0_def)
  then show ?thesis
    using exit2_wait2 [OF c _ _ t(1) d, of "\<lambda>st. setmem (store32 0x1000 st)" "store32 0x1000 7"] t(1)
      freeable_family [of 0 "[proc0, ptable t ! 1]" 1] k
    by (simp add: setmem_done)
qed

lemma exit_close_family:
  "\<exists>u. exit_close 1 ((family 1 [proc0, child0])\<lparr>hw := settle (hart_of 1)\<rparr>) = Done () u \<and> calm u \<and> me u = 1 \<and> ptable u = [proc0, child0\<lparr>cwd := None\<rparr>] \<and> initproc u = Some 0"
proof -
  have c: "cpu_ok (hart_of (Suc 0))" "depth (hart_of (Suc 0)) = 0" "cur_proc (hart_of (Suc 0)) = Some 1" "\<And>l. lock_free l (hart_of (Suc 0))"
    using hart_of_calm [of 1 2] by (simp_all add: hcalm_def)
  have h: "hcalm (Suc (Suc 0)) (hart_of (Suc 0))" using hart_of_calm [of 1 2] by (simp add: numeral_2_eq_2)
  show ?thesis using c h
    by (simp add: exit_close_def close_fd_def upt_rec NOFILE_def child0_def proc0_def run_simps begin_op_def begin_op_loop_def end_op_def
      iput_def family_def lg0_def fs0_def log_sizes get_inode_def mod_inode_def commit_def NINODE_def wake_def mod_proc_def upd_slot_def)
qed

theorem exit2_correct_witness:
  "\<exists>u t. exit_close 1 ((family 1 [proc0, child0])\<lparr>hw := settle (hart_of 1)\<rparr>) = Done () u \<and>
    exit2 7 (family 1 [proc0, child0]) = (Sleeps t :: (int, unit kvm_scheme) outcome) \<and> ptable t = exited 1 7 (Some 0) [proc0, child0\<lparr>cwd := None\<rparr>]"
proof -
  let ?s = "family 1 [proc0, child0]"
  have c: "calm ?s" "me ?s = 1" using hart_of_calm [of 1 2] by (simp_all add: numeral_2_eq_2)
  obtain u where u: "exit_close 1 (?s\<lparr>hw := settle (hart_of 1)\<rparr>) = Done () u" "calm u" "me u = 1"
    "ptable u = [proc0, child0\<lparr>cwd := None\<rparr>]" "initproc u = Some 0"
    using exit_close_family by blast
  then show ?thesis using exit2_correct [OF c, of 7] by auto
qed

end
