(* ===== verification/Xv6_Exec.thy ===== *)
theory Xv6_Exec
  imports Xv6_Process
begin

text \<open>
  Replacing the image of a process (\<^verbatim>\<open>exec.c\<close>) from an ELF file (\<^verbatim>\<open>elf.h\<close>). The headers are read out of the bytes
  of the file at the offsets of the C structures. The argument strings lie in the old image, which stays as it is until
  the new one is complete, so \<^verbatim>\<open>argv\<close> is passed by value; the error exits are split by whether the inode is still held.
\<close>

definition ELF_MAGIC :: u32 where "ELF_MAGIC = 0x464C457F"
definition ELF_PROG_LOAD :: u32 where "ELF_PROG_LOAD = 1"

record elfhdr =
  elf_magic :: u32
  elf_entry :: u32
  elf_phoff :: u32
  elf_phnum :: u16

record proghdr =
  ph_type :: u32
  ph_off :: u32
  ph_vaddr :: u32
  ph_filesz :: u32
  ph_memsz :: u32

definition elf_size :: u32 where "elf_size = 52"
definition ph_size :: u32 where "ph_size = 32"

definition get_elfhdr :: "u8 list \<Rightarrow> elfhdr" where
  "get_elfhdr bs = \<lparr>elf_magic = le32 bs 0, elf_entry = le32 bs 24, elf_phoff = le32 bs 28, elf_phnum = le16 bs 44\<rparr>"

definition get_proghdr :: "u8 list \<Rightarrow> proghdr" where
  "get_proghdr bs = \<lparr>ph_type = le32 bs 0, ph_off = le32 bs 4, ph_vaddr = le32 bs 8, ph_filesz = le32 bs 16, ph_memsz = le32 bs 20\<rparr>"

text \<open>Loading the segments: \<open>n\<close> headers remain, the next one at \<open>off\<close>; \<open>None\<close> is \<^verbatim>\<open>goto bad\<close>.\<close>

primrec load_segments :: "nat \<Rightarrow> nat \<Rightarrow> u32 \<Rightarrow> u32 \<Rightarrow> u32 \<Rightarrow> ('z kvm_scheme, u32 option) kmon" where
  "load_segments 0 ip pd off sz' = returnK (Some sz')"
| "load_segments (Suc n) ip pd off sz' =
     bindK (readi ip nodst off ph_size) (\<lambda>(r, bs).
     if word_of_int r \<noteq> ph_size then returnK None else
     (let ph = get_proghdr bs
      in if ph_type ph \<noteq> ELF_PROG_LOAD then load_segments n ip pd (off + ph_size) sz'
         else if ph_memsz ph < ph_filesz ph then returnK None
         else if ph_vaddr ph + ph_memsz ph < ph_vaddr ph then returnK None
         else
           bindK (allocuvm pd sz' (ph_vaddr ph + ph_memsz ph)) (\<lambda>sz''.
           if sz'' = 0 then returnK None
           else if ph_vaddr ph mod PGSIZE \<noteq> 0 then returnK None
           else
             bindK (loaduvm pd (ph_vaddr ph) ip (ph_off ph) (ph_filesz ph)) (\<lambda>e.
             if e < 0 then returnK None else load_segments n ip pd (off + ph_size) sz''))))"

text \<open>Pushing the argument strings; the result holds the stack pointer and the addresses pushed.\<close>

primrec push_args :: "u32 \<Rightarrow> u8 list list \<Rightarrow> nat \<Rightarrow> u32 \<Rightarrow> u32 list \<Rightarrow> ('z kvm_scheme, (u32 \<times> u32 list) option) kmon" where
  "push_args pd [] argc sp ustack = returnK (Some (sp, ustack))"
| "push_args pd (a # as) argc sp ustack =
     (if argc \<ge> MAXARG then returnK None
      else
        (let sp' = (sp - (of_nat (length a) + 1)) AND NOT 3
         in bindK (copyout pd sp' (a @ [0])) (\<lambda>e.
            if e < 0 then returnK None else push_args pd as (argc + 1) sp' (ustack @ [sp']))))"

definition last_elem :: "u8 list \<Rightarrow> u8 list" where
  "last_elem path = rev (takeWhile (\<lambda>c. c \<noteq> slash) (rev path))"

text \<open>The image above the segments: guard page, stack, arguments.\<close>

definition build_stack :: "u32 \<Rightarrow> u32 \<Rightarrow> u8 list list \<Rightarrow> ('z kvm_scheme, (u32 \<times> u32) option) kmon" where
  "build_stack pd sz0 argv =
     bindK (allocuvm pd (PGROUNDUP sz0) (PGROUNDUP sz0 + 2 * PGSIZE)) (\<lambda>sz'.
     if sz' = 0 then returnK None else
     thenK (clearpteu pd (sz' - 2 * PGSIZE)) (
     bindK (push_args pd argv 0 sz' []) (\<lambda>r.
     case r of None \<Rightarrow> returnK None | Some (sp, us) \<Rightarrow>
       (let argc = of_nat (length us);
            ustack = [0xFFFFFFFF, argc, sp - (argc + 1) * 4] @ us @ [0];
            sp' = sp - (3 + argc + 1) * 4
        in bindK (copyout pd sp' (concat (map bytes32 ustack))) (\<lambda>e.
           returnK (if e < 0 then None else Some (sz', sp')))))))"

text \<open>The two ways \<^verbatim>\<open>bad\<close> is reached: with the inode held, and without.\<close>

definition exec_bad :: "u32 \<Rightarrow> nat option \<Rightarrow> ('z kvm_scheme, int) kmon" where
  "exec_bad pd ip =
     thenK (whenK (pd \<noteq> 0) (freevm pd)) (
     thenK (case ip of Some i \<Rightarrow> thenK (iunlockput i) end_op | None \<Rightarrow> returnK ())
           (returnK (-1)))"

definition exec_commit :: "nat \<Rightarrow> u8 list \<Rightarrow> u32 \<Rightarrow> u32 \<Rightarrow> u32 \<Rightarrow> u32 \<Rightarrow> ('z kvm_scheme, int) kmon" where
  "exec_commit p path pd sz' entry sp =
     thenK (mod_proc p (pname_update (\<lambda>_. name16 (map (char_of \<circ> unat) (last_elem path))))) (
     bindK (getK (\<lambda>s. pgdir (ptable s ! p))) (\<lambda>oldpgdir.
     thenK (mod_proc p (\<lambda>x. x\<lparr>pgdir := pd, sz := sz', tf := map_option (\<lambda>t. t\<lparr>tf_eip := entry, tf_esp := sp\<rparr>) (tf x)\<rparr>)) (
     thenK (switchuvm p) (
     thenK (freevm oldpgdir) (returnK 0)))))"

definition exec :: "u8 list \<Rightarrow> u8 list list \<Rightarrow> ('z kvm_scheme, int) kmon" where
  "exec path argv =
     bindK curproc (\<lambda>p.
     thenK begin_op (
     bindK (namei path) (\<lambda>r.
     case r of
       None \<Rightarrow> thenK end_op (thenK (cprintf (''exec: fail'' @ [newline]) []) (returnK (-1)))
     | Some ip \<Rightarrow>
         thenK (ilock ip) (
         bindK (readi ip nodst 0 elf_size) (\<lambda>(n, bs).
         let elf = get_elfhdr bs
         in if word_of_int n \<noteq> elf_size then exec_bad 0 (Some ip)
            else if elf_magic elf \<noteq> ELF_MAGIC then exec_bad 0 (Some ip)
            else
              bindK setupkvm (\<lambda>pd.
              if pd = 0 then exec_bad 0 (Some ip) else
              bindK (load_segments (unat (elf_phnum elf)) ip pd (elf_phoff elf) 0) (\<lambda>r'.
              case r' of None \<Rightarrow> exec_bad pd (Some ip) | Some sz' \<Rightarrow>
                thenK (iunlockput ip) (
                thenK end_op (
                bindK (build_stack pd sz' argv) (\<lambda>r''.
                case r'' of None \<Rightarrow> exec_bad pd None
                | Some (sz'', sp) \<Rightarrow> exec_commit p path pd sz'' (elf_entry elf) sp))))))))))"

end
