(* ===== verification/Xv6_Syscall.thy ===== *)
theory Xv6_Syscall
  imports Xv6_Exec
begin

text \<open>
  Arguments of system calls (\<^verbatim>\<open>syscall.c\<close>): the checks that a user pointer lies inside the process. \<open>None\<close> is the
  return value -1, the value behind the pointer argument is the result otherwise.
\<close>

definition myproc_of :: "(proc \<Rightarrow> 'a) \<Rightarrow> ('z kproc_scheme, 'a) kmon" where
  "myproc_of f = bindK curproc (\<lambda>p. getK (\<lambda>s. f (ptable s ! p)))"

definition uread32 :: "u32 \<Rightarrow> ('z kvm_scheme, u32) kmon" where
  "uread32 a = bindK (uread_n 4 a) (\<lambda>bs. returnK (le32 bs 0))"

definition fetchint :: "u32 \<Rightarrow> ('z kvm_scheme, u32 option) kmon" where
  "fetchint addr =
     bindK (myproc_of sz) (\<lambda>n.
     if addr \<ge> n \<or> addr + 4 > n then returnK None
     else bindK (uread32 addr) (\<lambda>w. returnK (Some w)))"

text \<open>The bytes from \<open>a\<close> up to the first zero byte, among at most \<open>n\<close> bytes.\<close>

primrec scan_nul :: "nat \<Rightarrow> u32 \<Rightarrow> ('z kvm_scheme, u8 list option) kmon" where
  "scan_nul 0 a = returnK None"
| "scan_nul (Suc n) a =
     bindK (uread a) (\<lambda>b.
     if b = 0 then returnK (Some [])
     else bindK (scan_nul n (a + 1)) (\<lambda>r. returnK (map_option ((#) b) r)))"

definition fetchstr :: "u32 \<Rightarrow> ('z kvm_scheme, u8 list option) kmon" where
  "fetchstr addr =
     bindK (myproc_of sz) (\<lambda>n.
     if addr \<ge> n then returnK None else scan_nul (unat n - unat addr) addr)"

definition user_esp :: "proc \<Rightarrow> u32" where
  "user_esp p = (case tf p of Some t \<Rightarrow> tf_esp t | None \<Rightarrow> 0)"

definition argint :: "nat \<Rightarrow> ('z kvm_scheme, u32 option) kmon" where
  "argint n = bindK (myproc_of user_esp) (\<lambda>e. fetchint (e + 4 + 4 * of_nat n))"

definition argptr :: "nat \<Rightarrow> int \<Rightarrow> ('z kvm_scheme, u32 option) kmon" where
  "argptr n m =
     bindK curproc (\<lambda>p.
     bindK (argint n) (\<lambda>r.
     case r of None \<Rightarrow> returnK None | Some i \<Rightarrow>
       bindK (getK (\<lambda>s. sz (ptable s ! p))) (\<lambda>z.
       returnK (if m < 0 \<or> i \<ge> z \<or> i + word_of_int m > z then None else Some i))))"

definition argstr :: "nat \<Rightarrow> ('z kvm_scheme, u8 list option) kmon" where
  "argstr n = bindK (argint n) (\<lambda>r. case r of None \<Rightarrow> returnK None | Some a \<Rightarrow> fetchstr a)"

text \<open>A call that needs an argument and returns -1 without it.\<close>

definition needK :: "('s, 'a option) kmon \<Rightarrow> ('a \<Rightarrow> ('s, int) kmon) \<Rightarrow> ('s, int) kmon" where
  "needK m f = bindK m (\<lambda>r. case r of None \<Rightarrow> returnK (-1) | Some x \<Rightarrow> f x)"

section \<open>User memory\<close>

definition ubyte :: "'z kvm_scheme \<Rightarrow> u32 \<Rightarrow> u8 option" where
  "ubyte s va = map_option (mem s) (translate (mem s) (P2V (cr3 (vm s))) va)"

text \<open>Every byte below the size of the running process is mapped; the value of such a byte.\<close>

definition user_mapped :: "'z kvm_scheme \<Rightarrow> bool" where
  "user_mapped s \<longleftrightarrow> (\<forall>va. va < sz (ptable s ! me s) \<longrightarrow> ubyte s va \<noteq> None)"

definition umem :: "'z kvm_scheme \<Rightarrow> u32 \<Rightarrow> u8" where
  "umem s va = the (ubyte s va)"

lemma ubyte_hw [simp]: "ubyte (s\<lparr>hw := h\<rparr>) = ubyte s" "umem (s\<lparr>hw := h\<rparr>) = umem s"
  by (simp_all add: ubyte_def umem_def fun_eq_iff)

lemma user_mapped_hw [simp]: "cur_proc h = cur_proc (hw s) \<Longrightarrow> user_mapped (s\<lparr>hw := h\<rparr>) = user_mapped s"
  by (simp add: user_mapped_def)

lemma uread_run: "ubyte s va \<noteq> None \<Longrightarrow> uread va s = Done (umem s va) s"
  by (auto simp: uread_def ubyte_def umem_def split: option.splits)

lemma uread_n_run:
  "(\<And>i. i < n \<Longrightarrow> ubyte s (a + of_nat i) \<noteq> None) \<Longrightarrow> uread_n n a s = Done (map (\<lambda>i. umem s (a + of_nat i)) [0..<n]) s"
proof (induction n arbitrary: a)
  case (Suc n)
  have "ubyte s (a + 1 + of_nat i) \<noteq> None" if "i < n" for i using Suc.prems [of "Suc i"] that by (simp add: add.assoc)
  from Suc.IH [OF this] have "uread_n n (a + 1) s = Done (map (\<lambda>i. umem s (a + 1 + of_nat i)) [0..<n]) s" .
  moreover have "uread a s = Done (umem s a) s" using uread_run Suc.prems [of 0] by simp
  moreover have "map (\<lambda>i. umem s (a + of_nat i)) [0..<Suc n] = umem s a # map (\<lambda>i. umem s (a + 1 + of_nat i)) [0..<n]"
    by (simp add: upt_conv_Cons map_Suc_upt [symmetric] comp_def add.assoc del: upt_Suc)
  ultimately show ?case by simp
qed simp

lemma scan_nul_run:
  "(\<And>i. i < n \<Longrightarrow> ubyte s (a + of_nat i) \<noteq> None) \<Longrightarrow>
   scan_nul n a s = Done (let bs = takeWhile (\<lambda>b. b \<noteq> 0) (map (\<lambda>i. umem s (a + of_nat i)) [0..<n]) in if length bs < n then Some bs else None) s"
proof (induction n arbitrary: a)
  case (Suc n)
  have "ubyte s (a + 1 + of_nat i) \<noteq> None" if "i < n" for i using Suc.prems [of "Suc i"] that by (simp add: add.assoc)
  note IH = Suc.IH [OF this]
  have h: "uread a s = Done (umem s a) s" using uread_run Suc.prems [of 0] by simp
  have m: "map (\<lambda>i. umem s (a + of_nat i)) [0..<Suc n] = umem s a # map (\<lambda>i. umem s (a + 1 + of_nat i)) [0..<n]"
    by (simp add: upt_conv_Cons map_Suc_upt [symmetric] comp_def add.assoc del: upt_Suc)
  show ?case unfolding m using h IH by (simp add: Let_def)
qed simp

section \<open>The argument checks\<close>

lemma myproc_of_run [run_simps]:
  "cpu_ok (hw s) \<Longrightarrow> cur_proc (hw s) = Some p \<Longrightarrow> myproc_of f s = Done (f (ptable s ! p)) (s\<lparr>hw := settle (hw s)\<rparr>)"
  by (simp add: myproc_of_def run_simps)

text \<open>C30. \<^verbatim>\<open>fetchstr\<close> returns the bytes from the address up to the first zero byte if there is one below the size of the
  process, and fails otherwise: it never reads past the end of the process, and it changes nothing.\<close>

theorem fetchstr_correct:
  assumes "calm s" "user_mapped s" and n_def: "n = unat (sz (ptable s ! me s)) - unat a"
    and bs_def: "bs = takeWhile (\<lambda>b. b \<noteq> 0) (map (\<lambda>i. umem s (a + of_nat i)) [0..<n])"
  shows "fetchstr a s = Done (if length bs < n then Some bs else None) (s\<lparr>hw := settle (hw s)\<rparr>)"
proof (cases "a < sz (ptable s ! me s)")
  case True
  note c = calmD [OF assms(1)]
  have "ubyte (s\<lparr>hw := settle (hw s)\<rparr>) (a + of_nat i) \<noteq> None" if "i < n" for i
  proof -
    have lt: "unat a + i < unat (sz (ptable s ! me s))" using that by (simp add: n_def)
    moreover have "unat (a + of_nat i) = unat a + i"
      by (rule unat_offset) (rule less_trans [OF lt], simp)
    ultimately show ?thesis using assms(2) by (simp add: user_mapped_def word_less_nat_alt)
  qed
  from scan_nul_run [OF this] show ?thesis
    using True c by (simp add: fetchstr_def run_simps n_def [symmetric] bs_def [symmetric] not_le [symmetric] Let_def)
next
  case False
  then have "n = 0" by (simp add: n_def word_less_nat_alt)
  then show ?thesis using False calmD [OF assms(1)] by (simp add: fetchstr_def run_simps bs_def)
qed

lemma fetchint_run:
  assumes "calm s" "user_mapped s" "sz (ptable s ! me s) \<le> KERNBASE"
  shows "fetchint a s = Done (if a < sz (ptable s ! me s) \<and> a + 4 \<le> sz (ptable s ! me s)
    then Some (le32 (map (\<lambda>i. umem s (a + of_nat i)) [0..<4]) 0) else None) (s\<lparr>hw := settle (hw s)\<rparr>)"
proof (cases "a < sz (ptable s ! me s) \<and> a + 4 \<le> sz (ptable s ! me s)")
  case True
  have lt: "unat a < 2147483648" using True assms(3) by (simp add: word_less_nat_alt word_le_nat_alt KERNBASE_def)
  have "unat (a + 4) = unat a + 4" using unat_offset [of a 4] lt by simp
  then have le: "unat a + 4 \<le> unat (sz (ptable s ! me s))" using True by (simp add: word_le_nat_alt)
  have "ubyte (s\<lparr>hw := settle (hw s)\<rparr>) (a + of_nat i) \<noteq> None" if "i < 4" for i
  proof -
    have "unat (a + of_nat i) = unat a + i" by (rule unat_offset) (use lt that in simp)
    then show ?thesis using le that assms(2) by (simp add: user_mapped_def word_less_nat_alt)
  qed
  from uread_n_run [OF this] show ?thesis
    using True calmD [OF assms(1)] by (simp add: fetchint_def run_simps uread32_def not_less not_le)
next
  case False
  then show ?thesis using calmD [OF assms(1)] by (auto simp: fetchint_def run_simps not_less not_le)
qed

text \<open>C31. A pointer argument that passes the check of \<^verbatim>\<open>argptr\<close> is the address of a block of the requested size that lies inside
  the process: it does not reach the kernel's half of the address space and does not wrap around; a request for a
  negative number of bytes is refused. The call always returns and changes nothing.\<close>

theorem argptr_bounds:
  assumes "calm s" "user_mapped s" "sz (ptable s ! me s) \<le> KERNBASE" "m < 2 ^ 31"
  shows "\<exists>r. argptr n m s = Done r (s\<lparr>hw := settle (hw s)\<rparr>) \<and>
    (\<forall>i. r = Some i \<longrightarrow> 0 \<le> m \<and> unat i + nat m \<le> unat (sz (ptable s ! me s)) \<and> i < KERNBASE \<and>
       (\<forall>k<nat m. ubyte s (i + of_nat k) \<noteq> None))"
proof -
  let ?z = "sz (ptable s ! me s)" and ?s = "s\<lparr>hw := settle (hw s)\<rparr>"
  note c = calmD [OF assms(1)]
  have c': "calm ?s" using assms(1) by simp
  have "\<exists>r. argint n ?s = Done r ?s"
    using fetchint_run [of ?s "user_esp (ptable s ! me s) + 4 + 4 * of_nat n", OF c'] assms(2,3) c by (simp add: argint_def run_simps hart_settled)
  then obtain r where r: "argint n ?s = Done r ?s" by blast
  show ?thesis
  proof (cases r)
    case None
    then show ?thesis using r c by (simp add: argptr_def run_simps)
  next
    case (Some i)
    have inside: "0 \<le> m \<and> unat i + nat m \<le> unat ?z \<and> i < KERNBASE \<and> (\<forall>k<nat m. ubyte s (i + of_nat k) \<noteq> None)"
      if "\<not> (m < 0 \<or> ?z \<le> i \<or> ?z < i + word_of_int m)"
    proof -
      have m: "0 \<le> m" "i < ?z" "i + word_of_int m \<le> ?z" using that by (simp_all add: not_le not_less)
      have z: "unat ?z \<le> 2147483648" "unat i < unat ?z" "nat m < 2147483648"
        using assms(3,4) m by (simp_all add: word_le_nat_alt word_less_nat_alt KERNBASE_def)
      have w: "word_of_int m = (of_nat (nat m) :: u32)" using m(1) by (simp add: of_nat_nat)
      have e: "unat i + nat m \<le> unat ?z"
        using m(3) unat_offset [of i "nat m"] z unfolding w by (simp add: word_le_nat_alt)
      have "ubyte s (i + of_nat k) \<noteq> None" if "k < nat m" for k
        using unat_offset [of i k] that e z assms(2) by (simp add: user_mapped_def word_less_nat_alt)
      then show ?thesis using m e z by (simp add: word_less_nat_alt KERNBASE_def)
    qed
    have run: "argptr n m s = Done (if m < 0 \<or> ?z \<le> i \<or> ?z < i + word_of_int m then None else Some i) ?s"
      using r c Some by (simp add: argptr_def run_simps)
    show ?thesis
    proof (cases "m < 0 \<or> ?z \<le> i \<or> ?z < i + word_of_int m")
      case True
      then show ?thesis unfolding run by (simp only: if_True) simp
    next
      case False
      then show ?thesis unfolding run using inside [OF False] by (simp only: if_False) auto
    qed
  qed
qed

section \<open>A concrete process\<close>

text \<open>Memory whose bytes are 7 gives page tables that map every address; user addresses lie in the page at 0x87070000.\<close>

definition kvm0 :: "u32 \<Rightarrow> memory \<Rightarrow> kvm" where
  "kvm0 z m = \<lparr>hw = hart0, ptable = [proc0\<lparr>sz := z\<rparr>], initproc = Some 0, nextpid = 2,
     slocks = (\<lambda>_. \<lparr>sl_locked = 0, sl_name = [], sl_pid = 0\<rparr>),
     mem = m, kend = 0x80120000, kdata = 0x80110000, kmem = \<lparr>use_lock = True, freelist = 0x80200000\<rparr>,
     bio = bio0, lg = lg0, fs = fs0, cons = cons0, pipes = (\<lambda>_. pipe0), ftable = [],
     vm = \<lparr>kpgdir = 0, cr3 = 0, ts_addr = (\<lambda>_. 0)\<rparr>\<rparr>"

lemma kvm0_simps [simp]:
  "hw (kvm0 z m) = hart0" "ptable (kvm0 z m) = [proc0\<lparr>sz := z\<rparr>]" "mem (kvm0 z m) = m" "cr3 (vm (kvm0 z m)) = 0" "hcalm (Suc 0) hart0"
  by (simp_all add: kvm0_def hcalm_hart0)

definition seven :: memory where "seven = (\<lambda>_. 7)"

lemma seven_maps: "translate seven pd va = Some (0x87070000 + (va AND 0xFFF))"
proof -
  have "word_of_bytes 7 7 7 7 = 0x07070707" by code_simp
  moreover have "(0x07070707 :: u32) AND 1 = 1" "PTE_ADDR 0x07070707 = 0x07070000" by (simp_all add: PTE_ADDR_def)
  ultimately show ?thesis by (simp add: translate_def load32_def seven_def Let_def PTE_P_def P2V_def KERNBASE_def)
qed

theorem argptr_bounds_witness:
  "\<exists>r. argptr 0 4 (kvm0 0x08000000 seven) = Done r ((kvm0 0x08000000 seven)\<lparr>hw := settle hart0\<rparr>) \<and>
     (\<forall>i. r = Some i \<longrightarrow> unat i + 4 \<le> 0x08000000)"
proof -
  have "user_mapped (kvm0 0x08000000 seven)" by (simp add: user_mapped_def ubyte_def seven_maps)
  then show ?thesis using argptr_bounds [of "kvm0 0x08000000 seven" 4 0] by (auto simp: KERNBASE_def)
qed

theorem fetchstr_correct_witness:
  "fetchstr 0x14 (kvm0 0x18 seven) = Done None ((kvm0 0x18 seven)\<lparr>hw := settle hart0\<rparr>)"
proof -
  have "user_mapped (kvm0 0x18 seven)" by (simp add: user_mapped_def ubyte_def seven_maps)
  moreover have "umem (kvm0 0x18 seven) va = 7" for va by (simp add: umem_def ubyte_def seven_maps) (simp add: seven_def)
  ultimately show ?thesis using fetchstr_correct [of "kvm0 0x18 seven" 4 "0x14" "[7, 7, 7, 7]"] by (simp add: upt_rec)
qed

end
