(* ===== verification/Xv6_Sysfile.thy ===== *)
theory Xv6_Sysfile
  imports Xv6_Syscall Fcntl
begin

text \<open>
  The system calls of the file system (\<^verbatim>\<open>sysfile.c\<close>). A file descriptor is an index of \<^verbatim>\<open>ofile\<close>; results are the C
  return values. The fields of a \<^verbatim>\<open>struct stat\<close> are stored in user memory at their offsets once \<^verbatim>\<open>filestat\<close> has them.
\<close>

definition argfd :: "nat \<Rightarrow> ('z kvm_scheme, (nat \<times> nat) option) kmon" where
  "argfd n =
     bindK (argint n) (\<lambda>r.
     case r of None \<Rightarrow> returnK None | Some w \<Rightarrow>
       bindK (myproc_of ofile) (\<lambda>fs'.
       returnK (if sint w < 0 \<or> sint w \<ge> int NOFILE then None
                else map_option (\<lambda>f. (unat w, f)) (fs' ! unat w))))"

definition fdalloc :: "nat \<Rightarrow> ('z kvm_scheme, int) kmon" where
  "fdalloc f =
     bindK curproc (\<lambda>p.
     bindK (getK (\<lambda>s. find_slot (\<lambda>x. x = None) (ofile (ptable s ! p)))) (\<lambda>r.
     case r of
       None \<Rightarrow> returnK (-1)
     | Some fd \<Rightarrow> thenK (mod_proc p (ofile_update (\<lambda>o'. o'[fd := Some f]))) (returnK (int fd))))"

definition set_ofile :: "nat \<Rightarrow> nat option \<Rightarrow> ('z kvm_scheme, unit) kmon" where
  "set_ofile fd v = bindK curproc (\<lambda>p. mod_proc p (ofile_update (\<lambda>o'. o'[fd := v])))"

definition sys_dup :: "('z kvm_scheme, int) kmon" where
  "sys_dup =
     needK (argfd 0) (\<lambda>(_, f).
     bindK (fdalloc f) (\<lambda>fd.
     if fd < 0 then returnK (-1) else thenK (filedup f) (returnK fd)))"

definition sys_read :: "('z kvm_scheme, int) kmon" where
  "sys_read =
     needK (argfd 0) (\<lambda>(_, f).
     needK (argint 2) (\<lambda>n.
     needK (argptr 1 (sint n)) (\<lambda>p.
     bindK (fileread f (user_dst p) (sint n)) (\<lambda>(r, _). returnK r))))"

definition sys_write :: "('z kvm_scheme, int) kmon" where
  "sys_write =
     needK (argfd 0) (\<lambda>(_, f).
     needK (argint 2) (\<lambda>n.
     needK (argptr 1 (sint n)) (\<lambda>p.
     filewrite f (user_src p) (sint n))))"

definition sys_close :: "('z kvm_scheme, int) kmon" where
  "sys_close =
     needK (argfd 0) (\<lambda>(fd, f).
     thenK (set_ofile fd None) (thenK (fileclose f) (returnK 0)))"

definition bytes16 :: "u16 \<Rightarrow> u8 list" where
  "bytes16 w = [ucast w, ucast (drop_bit 8 w)]"

definition put_stat :: "u32 \<Rightarrow> stat \<Rightarrow> ('z kvm_scheme, unit) kmon" where
  "put_stat a st =
     thenK (uwrite (a + 4) (bytes32 (st_dev st))) (
     thenK (uwrite (a + 8) (bytes32 (st_ino st))) (
     thenK (uwrite a (bytes16 (st_type st))) (
     thenK (uwrite (a + 12) (bytes16 (st_nlink st)))
           (uwrite (a + 16) (bytes32 (st_size st))))))"

definition sys_fstat :: "('z kvm_scheme, int) kmon" where
  "sys_fstat =
     needK (argfd 0) (\<lambda>(_, f).
     needK (argptr 1 20) (\<lambda>a.
     bindK (filestat f) (\<lambda>r.
     case r of None \<Rightarrow> returnK (-1) | Some st \<Rightarrow> thenK (put_stat a st) (returnK 0))))"

text \<open>Link counts are C shorts.\<close>

definition link_bad :: "nat \<Rightarrow> ('z kvm_scheme, int) kmon" where
  "link_bad ip =
     thenK (ilock ip) (
     thenK (mod_inode ip (i_nlink_update (\<lambda>n. n - 1))) (
     thenK (iupdate ip) (
     thenK (iunlockput ip) (
     thenK end_op (returnK (-1))))))"

definition sys_link :: "('z kvm_scheme, int) kmon" where
  "sys_link =
     needK (argstr 0) (\<lambda>old.
     needK (argstr 1) (\<lambda>new.
     thenK begin_op (
     bindK (namei old) (\<lambda>r.
     case r of None \<Rightarrow> thenK end_op (returnK (-1)) | Some ip \<Rightarrow>
     thenK (ilock ip) (
     bindK (get_inode ip) (\<lambda>x.
     if i_type x = T_DIR then thenK (iunlockput ip) (thenK end_op (returnK (-1))) else
     thenK (mod_inode ip (i_nlink_update (\<lambda>n. n + 1))) (
     thenK (iupdate ip) (
     thenK (iunlock ip) (
     bindK (nameiparent new) (\<lambda>r'.
     case r' of None \<Rightarrow> link_bad ip | Some (dp, name) \<Rightarrow>
     thenK (ilock dp) (
     bindK (get_inode dp) (\<lambda>d.
     bindK (get_inode ip) (\<lambda>x'.
     bindK (if i_dev d \<noteq> i_dev x' then returnK (-1) else dirlink dp name (i_inum x')) (\<lambda>e.
     if e < 0 then thenK (iunlockput dp) (link_bad ip) else
     thenK (iunlockput dp) (
     thenK (iput ip) (
     thenK end_op (returnK 0)))))))))))))))))"

definition isdirempty :: "nat \<Rightarrow> ('z kcons_scheme, bool) kmon" where
  "isdirempty dp =
     bindK (get_inode dp) (\<lambda>d.
     bindK (searchK (filter (\<lambda>k. k \<ge> 32) (dir_offsets (i_size d))) (\<lambda>off.
       bindK (readi dp nodst (of_nat off) 16) (\<lambda>(r, de).
       if r \<noteq> 16 then panicK ''isdirempty: readi''
       else returnK (if de_inum de \<noteq> 0 then Some () else None)))) (\<lambda>e.
     returnK (e = None)))"

definition unlink_bad :: "nat \<Rightarrow> ('z kvm_scheme, int) kmon" where
  "unlink_bad dp = thenK (iunlockput dp) (thenK end_op (returnK (-1)))"

definition dot :: u8 where "dot = 46"

definition sys_unlink :: "('z kvm_scheme, int) kmon" where
  "sys_unlink =
     needK (argstr 0) (\<lambda>path.
     thenK begin_op (
     bindK (nameiparent path) (\<lambda>r.
     case r of None \<Rightarrow> thenK end_op (returnK (-1)) | Some (dp, name) \<Rightarrow>
     thenK (ilock dp) (
     if namecmp name [dot] = 0 \<or> namecmp name [dot, dot] = 0 then unlink_bad dp else
     bindK (dirlookup dp name) (\<lambda>l.
     case l of None \<Rightarrow> unlink_bad dp | Some (ip, off) \<Rightarrow>
     thenK (ilock ip) (
     bindK (get_inode ip) (\<lambda>x.
     if sint (i_nlink x) < 1 then panicK ''unlink: nlink < 1'' else
     bindK (if i_type x = T_DIR then isdirempty ip else returnK True) (\<lambda>e.
     if \<not> e then thenK (iunlockput ip) (unlink_bad dp) else
     bindK (writei dp (from_bytes (replicate 16 0)) off 16) (\<lambda>w.
     if w \<noteq> 16 then panicK ''unlink: writei'' else
     bindK (get_inode ip) (\<lambda>x'.
     thenK (whenK (i_type x' = T_DIR) (thenK (mod_inode dp (i_nlink_update (\<lambda>n. n - 1))) (iupdate dp))) (
     thenK (iunlockput dp) (
     thenK (mod_inode ip (i_nlink_update (\<lambda>n. n - 1))) (
     thenK (iupdate ip) (
     thenK (iunlockput ip) (
     thenK end_op (returnK 0))))))))))))))))"

definition create :: "u8 list \<Rightarrow> u16 \<Rightarrow> u16 \<Rightarrow> u16 \<Rightarrow> ('z kvm_scheme, nat option) kmon" where
  "create path ty major minor =
     bindK (nameiparent path) (\<lambda>r.
     case r of None \<Rightarrow> returnK None | Some (dp, name) \<Rightarrow>
     thenK (ilock dp) (
     bindK (dirlookup dp name) (\<lambda>l.
     case l of
       Some (ip, _) \<Rightarrow>
         thenK (iunlockput dp) (
         thenK (ilock ip) (
         bindK (get_inode ip) (\<lambda>x.
         if ty = T_FILE \<and> i_type x = T_FILE then returnK (Some ip)
         else thenK (iunlockput ip) (returnK None))))
     | None \<Rightarrow>
         bindK (get_inode dp) (\<lambda>d.
         bindK (ialloc (i_dev d) ty) (\<lambda>ip.
         thenK (ilock ip) (
         thenK (mod_inode ip (\<lambda>x. x\<lparr>i_major := major, i_minor := minor, i_nlink := 1\<rparr>)) (
         thenK (iupdate ip) (
         bindK (get_inode ip) (\<lambda>x.
         thenK (whenK (ty = T_DIR) (
           thenK (mod_inode dp (i_nlink_update (\<lambda>n. n + 1))) (
           thenK (iupdate dp) (
           bindK (dirlink ip [dot] (i_inum x)) (\<lambda>e.
           if e < 0 then panicK ''create dots'' else
           bindK (dirlink ip [dot, dot] (i_inum d)) (\<lambda>e'.
           if e' < 0 then panicK ''create dots'' else returnK ())))))) (
         bindK (dirlink dp name (i_inum x)) (\<lambda>e.
         if e < 0 then panicK ''create: dirlink'' else
         thenK (iunlockput dp) (returnK (Some ip)))))))))))))"

definition open_inode :: "u8 list \<Rightarrow> u32 \<Rightarrow> ('z kvm_scheme, nat option) kmon" where
  "open_inode path omode =
     (if omode AND O_CREATE \<noteq> 0 then create path T_FILE 0 0
      else
        bindK (namei path) (\<lambda>r.
        case r of None \<Rightarrow> returnK None | Some ip \<Rightarrow>
        thenK (ilock ip) (
        bindK (get_inode ip) (\<lambda>x.
        if i_type x = T_DIR \<and> omode \<noteq> O_RDONLY then thenK (iunlockput ip) (returnK None)
        else returnK (Some ip)))))"

definition sys_open :: "('z kvm_scheme, int) kmon" where
  "sys_open =
     needK (argstr 0) (\<lambda>path.
     needK (argint 1) (\<lambda>omode.
     thenK begin_op (
     bindK (open_inode path omode) (\<lambda>r.
     case r of None \<Rightarrow> thenK end_op (returnK (-1)) | Some ip \<Rightarrow>
     bindK filealloc (\<lambda>r'.
     case r' of None \<Rightarrow> thenK (iunlockput ip) (thenK end_op (returnK (-1))) | Some f \<Rightarrow>
     bindK (fdalloc f) (\<lambda>fd.
     if fd < 0 then thenK (fileclose f) (thenK (iunlockput ip) (thenK end_op (returnK (-1)))) else
     thenK (iunlock ip) (
     thenK end_op (
     thenK (mod_file f (\<lambda>x. x\<lparr>f_type := FD_INODE, f_ip := ip, f_off := 0, f_readable := (omode AND O_WRONLY = 0),
        f_writable := (omode AND O_WRONLY \<noteq> 0 \<or> omode AND O_RDWR \<noteq> 0)\<rparr>)) (returnK fd)))))))))"

definition made :: "('z kvm_scheme, nat option) kmon \<Rightarrow> ('z kvm_scheme, int) kmon" where
  "made m =
     bindK m (\<lambda>r.
     case r of None \<Rightarrow> thenK end_op (returnK (-1))
     | Some ip \<Rightarrow> thenK (iunlockput ip) (thenK end_op (returnK 0)))"

definition sys_mkdir :: "('z kvm_scheme, int) kmon" where
  "sys_mkdir =
     thenK begin_op (
     made (bindK (argstr 0) (\<lambda>r. case r of None \<Rightarrow> returnK None | Some path \<Rightarrow> create path T_DIR 0 0)))"

definition sys_mknod :: "('z kvm_scheme, int) kmon" where
  "sys_mknod =
     thenK begin_op (
     made (
       bindK (argstr 0) (\<lambda>r. case r of None \<Rightarrow> returnK None | Some path \<Rightarrow>
       bindK (argint 1) (\<lambda>a. case a of None \<Rightarrow> returnK None | Some major \<Rightarrow>
       bindK (argint 2) (\<lambda>b. case b of None \<Rightarrow> returnK None | Some minor \<Rightarrow>
       create path T_DEV (ucast major) (ucast minor))))))"

definition sys_chdir :: "('z kvm_scheme, int) kmon" where
  "sys_chdir =
     bindK curproc (\<lambda>p.
     thenK begin_op (
     bindK (bindK (argstr 0) (\<lambda>a. case a of None \<Rightarrow> returnK None | Some path \<Rightarrow> namei path)) (\<lambda>r.
     case r of None \<Rightarrow> thenK end_op (returnK (-1)) | Some ip \<Rightarrow>
     thenK (ilock ip) (
     bindK (get_inode ip) (\<lambda>x.
     if i_type x \<noteq> T_DIR then thenK (iunlockput ip) (thenK end_op (returnK (-1))) else
     thenK (iunlock ip) (
     bindK (getK (\<lambda>s. cwd (ptable s ! p))) (\<lambda>d.
     thenK (case d of Some i \<Rightarrow> iput i | None \<Rightarrow> panicK ''trap'') (
     thenK end_op (
     thenK (mod_proc p (cwd_update (\<lambda>_. Some ip))) (returnK 0))))))))))"

text \<open>The argument vector: at most \<^verbatim>\<open>MAXARG\<close> entries, the last of them null.\<close>

primrec fetch_argv :: "nat \<Rightarrow> u32 \<Rightarrow> ('z kvm_scheme, u8 list list option) kmon" where
  "fetch_argv 0 a = returnK None"
| "fetch_argv (Suc n) a =
     bindK (fetchint a) (\<lambda>r.
     case r of None \<Rightarrow> returnK None | Some uarg \<Rightarrow>
     if uarg = 0 then returnK (Some []) else
     bindK (fetchstr uarg) (\<lambda>r'.
     case r' of None \<Rightarrow> returnK None | Some str \<Rightarrow>
     bindK (fetch_argv n (a + 4)) (\<lambda>rest. returnK (map_option ((#) str) rest))))"

definition sys_exec :: "('z kvm_scheme, int) kmon" where
  "sys_exec =
     needK (argstr 0) (\<lambda>path.
     needK (argint 1) (\<lambda>uargv.
     needK (fetch_argv MAXARG uargv) (\<lambda>argv.
     exec path argv)))"

definition sys_pipe :: "('z kvm_scheme, int) kmon" where
  "sys_pipe =
     needK (argptr 0 8) (\<lambda>a.
     needK pipealloc (\<lambda>(rf, wf).
     bindK (fdalloc rf) (\<lambda>fd0.
     bindK (if fd0 < 0 then returnK (-1) else fdalloc wf) (\<lambda>fd1.
     if fd1 < 0 then
       thenK (whenK (fd0 \<ge> 0) (set_ofile (nat fd0) None)) (
       thenK (fileclose rf) (
       thenK (fileclose wf) (returnK (-1))))
     else
       thenK (uwrite a (bytes32 (word_of_int fd0))) (
       thenK (uwrite (a + 4) (bytes32 (word_of_int fd1))) (returnK 0))))))"

end
