(* ===== verification/Xv6_Trap.thy ===== *)
theory Xv6_Trap
  imports Xv6_Sysfile Xv6_Irq
begin

text \<open>
  System calls on processes (\<^verbatim>\<open>sysproc.c\<close>), the dispatch of system calls (\<^verbatim>\<open>syscall.c\<close>), and traps (\<^verbatim>\<open>trap.c\<close>). What
  the keyboard and the serial port have to offer when their interrupt is handled is part of the state, as are the
  registers of the local interrupt controller; the entry points of \<^verbatim>\<open>vectors.S\<close>, which a script generates, are an
  argument of \<^verbatim>\<open>tvinit\<close>. The disk is the one of \<^verbatim>\<open>memide.c\<close>, whose interrupt handler does nothing.
\<close>

section \<open>System calls on processes\<close>

definition sys_fork :: "('z kvm_scheme, int) kmon" where
  "sys_fork = bindK fork (\<lambda>r. returnK (sint r))"

definition sys_exit :: "('z kvm_scheme, int) kmon" where
  "sys_exit = exit"

definition sys_wait :: "('z kvm_scheme, int) kmon" where
  "sys_wait = bindK wait (\<lambda>r. returnK (sint r))"

definition sys_kill :: "('z kvm_scheme, int) kmon" where
  "sys_kill = needK (argint 0) kill"

definition sys_getpid :: "('z kvm_scheme, int) kmon" where
  "sys_getpid = bindK (myproc_of pid) (\<lambda>n. returnK (sint n))"

definition sys_freemem :: "('z kvm_scheme, int) kmon" where
  "sys_freemem = freemem"

definition sys_sbrk :: "('z kvm_scheme, int) kmon" where
  "sys_sbrk =
     needK (argint 0) (\<lambda>n.
     bindK (myproc_of sz) (\<lambda>addr.
     bindK (growproc (sint n)) (\<lambda>e.
     returnK (if e < 0 then -1 else sint addr))))"

text \<open>The loop of \<^verbatim>\<open>sys_sleep\<close>; \<open>n\<close> is compared as an unsigned number.\<close>

definition sys_sleep_loop :: "u32 \<Rightarrow> u32 \<Rightarrow> ('z kps_scheme, int) kmon" where
  "sys_sleep_loop ticks0 n =
     bindK (getK ticks) (\<lambda>t.
     if t - ticks0 < n then
       bindK (myproc_of killed) (\<lambda>k.
       if k then thenK (release TicksLock) (returnK (-1))
       else sleep (Some TicksChan) (Some TicksLock))
     else thenK (release TicksLock) (returnK 0))"

definition sys_sleep :: "('z kps_scheme, int) kmon" where
  "sys_sleep =
     needK (argint 0) (\<lambda>n.
     thenK (acquire TicksLock) (
     bindK (getK ticks) (\<lambda>ticks0. sys_sleep_loop ticks0 n)))"

definition sys_uptime :: "('z kps_scheme, int) kmon" where
  "sys_uptime =
     thenK (acquire TicksLock) (
     bindK (getK ticks) (\<lambda>xticks.
     thenK (release TicksLock) (returnK (sint xticks))))"

definition sys_exit2 :: "('z kvm_scheme, int) kmon" where
  "sys_exit2 = needK (argint 0) exit2"

definition sys_wait2 :: "('z kvm_scheme, int) kmon" where
  "sys_wait2 =
     needK (argptr 0 4) (\<lambda>p.
     bindK (wait2 (\<lambda>st. uwrite p (bytes32 st))) (\<lambda>r. returnK (sint r)))"

section \<open>Dispatch\<close>

text \<open>The table indexed by the numbers of \<^verbatim>\<open>syscall.h\<close>; entry 0 is null.\<close>

definition syscalls :: "('z kps_scheme, int) kmon option list" where
  "syscalls = None # map Some [sys_fork, sys_exit, sys_wait, sys_pipe, sys_read, sys_kill, sys_exec, sys_fstat, sys_chdir, sys_dup,
     sys_getpid, sys_sbrk, sys_sleep, sys_uptime, sys_open, sys_write, sys_mknod, sys_unlink, sys_link, sys_mkdir,
     sys_close, sys_freemem, sys_exit2, sys_wait2]"

definition set_eax :: "nat \<Rightarrow> u32 \<Rightarrow> ('z kps_scheme, unit) kmon" where
  "set_eax p v = mod_proc p (\<lambda>x. x\<lparr>tf := map_option (\<lambda>t. t\<lparr>tf_eax := v\<rparr>) (tf x)\<rparr>)"

definition user_eax :: "proc \<Rightarrow> u32" where
  "user_eax p = (case tf p of Some t \<Rightarrow> tf_eax t | None \<Rightarrow> 0)"

definition syscall_entry :: "u32 \<Rightarrow> ('z kps_scheme, int) kmon option" where
  "syscall_entry num =
     (if sint num > 0 \<and> unat num < length (syscalls :: ('z kps_scheme, int) kmon option list) then syscalls ! unat num else None)"

definition syscall :: "('z kps_scheme, unit) kmon" where
  "syscall =
     bindK curproc (\<lambda>p.
     bindK (getK (\<lambda>s. ptable s ! p)) (\<lambda>x.
     case syscall_entry (user_eax x) of
       Some f \<Rightarrow> bindK f (\<lambda>r. set_eax p (word_of_int r))
     | None \<Rightarrow>
         thenK (cprintf (''%d %s: unknown sys call %d'' @ [newline]) [Word (pid x), Str (Some (pname x)), Word (user_eax x)])
               (set_eax p (-1))))"

section \<open>Traps\<close>

definition STS_IG32 :: "4 word" where "STS_IG32 = 0xE"
definition STS_TG32 :: "4 word" where "STS_TG32 = 0xF"
definition LAPIC_EOI :: nat where "LAPIC_EOI = 0xB0 div 4"

record gatedesc =
  g_off_15_0 :: u16
  g_cs :: u16
  g_args :: "5 word"
  g_rsv1 :: "3 word"
  g_type :: "4 word"
  g_s :: bool
  g_dpl :: "2 word"
  g_p :: bool
  g_off_31_16 :: u16

definition SETGATE :: "bool \<Rightarrow> u16 \<Rightarrow> u32 \<Rightarrow> 2 word \<Rightarrow> gatedesc" where
  "SETGATE istrap sel off d = \<lparr>g_off_15_0 = ucast (off AND 0xFFFF), g_cs = sel, g_args = 0, g_rsv1 = 0,
     g_type = (if istrap then STS_TG32 else STS_IG32), g_s = False, g_dpl = d, g_p = True, g_off_31_16 = ucast (drop_bit 16 off)\<rparr>"

record ktrap = kps +
  idt :: "gatedesc list"
  lapic :: "(nat \<Rightarrow> u32) option"
  kbd_reads :: "(u8 \<times> u8) list"
  kbd_shift :: u32
  uart_reads :: "u8 list"
  cr2 :: u32

definition tvinit :: "(nat \<Rightarrow> u32) \<Rightarrow> ('z ktrap_scheme, unit) kmon" where
  "tvinit vectors =
     thenK (modK (\<lambda>s. s\<lparr>idt := map (\<lambda>i. SETGATE False (push_bit 3 (of_nat SEG_KCODE)) (vectors i) 0) [0..<256]\<rparr>)) (
     thenK (modK (\<lambda>s. s\<lparr>idt := (idt s)[unat T_SYSCALL := SETGATE True (push_bit 3 (of_nat SEG_KCODE)) (vectors (unat T_SYSCALL)) DPL_USER]\<rparr>))
           (initlock TicksLock ''time''))"

definition lapiceoi :: "('z ktrap_scheme, unit) kmon" where
  "lapiceoi = modK (\<lambda>s. s\<lparr>lapic := map_option (\<lambda>r. r(LAPIC_EOI := 0)) (lapic s)\<rparr>)"

definition ideintr :: "('z ktrap_scheme, unit) kmon" where
  "ideintr = returnK ()"

definition kbdintr :: "(nat \<Rightarrow> u32 list) \<Rightarrow> ('z ktrap_scheme, unit) kmon" where
  "kbdintr pcs =
     bindK (getK (\<lambda>s. kbd_chars (kbd_reads s) (kbd_shift s))) (\<lambda>(cs, sh).
     thenK (modK (\<lambda>s. s\<lparr>kbd_reads := [], kbd_shift := sh\<rparr>))
           (consoleintr pcs cs))"

definition uartintr :: "(nat \<Rightarrow> u32 list) \<Rightarrow> ('z ktrap_scheme, unit) kmon" where
  "uartintr pcs =
     bindK (getC uart) (\<lambda>u.
     bindK (getK uart_reads) (\<lambda>cs.
     if u then thenK (modK (\<lambda>s. s\<lparr>uart_reads := []\<rparr>)) (consoleintr pcs (map uint cs))
     else consoleintr pcs []))"

text \<open>End of the running process if it has been killed: at once in a system call, elsewhere only if the trap came from
  user mode.\<close>

definition exit_if_killed :: "('z ktrap_scheme, unit) kmon" where
  "exit_if_killed = bindK (myproc_of killed) (\<lambda>k. if k then exit else returnK ())"

definition from_user :: "trapframe \<Rightarrow> bool" where
  "from_user t \<longleftrightarrow> tf_cs t AND 3 = 3"

definition exit_user :: "trapframe \<Rightarrow> ('z ktrap_scheme, unit) kmon" where
  "exit_user t =
     bindK myproc (\<lambda>r.
     case r of None \<Rightarrow> returnK () | Some p \<Rightarrow>
     bindK (getK (\<lambda>s. killed (ptable s ! p))) (\<lambda>k.
     if k \<and> from_user t then exit else returnK ()))"

definition trap_syscall :: "trapframe \<Rightarrow> ('z ktrap_scheme, unit) kmon" where
  "trap_syscall t =
     thenK exit_if_killed (
     bindK curproc (\<lambda>p.
     thenK (mod_proc p (tf_update (\<lambda>_. Some t))) (
     thenK syscall exit_if_killed)))"

definition timer_tick :: "('z ktrap_scheme, unit) kmon" where
  "timer_tick =
     bindK cpuid (\<lambda>c.
     whenK (c = 0) (
       thenK (acquire TicksLock) (
       thenK (modK (\<lambda>s. s\<lparr>ticks := ticks s + 1\<rparr>)) (
       thenK (wakeup (Some TicksChan))
             (release TicksLock)))))"

definition trap_other :: "trapframe \<Rightarrow> ('z ktrap_scheme, unit) kmon" where
  "trap_other t =
     bindK myproc (\<lambda>r.
     bindK cpuid (\<lambda>c.
     bindK (getK cr2) (\<lambda>a.
     case r of
       None \<Rightarrow>
         thenK (cprintf (''unexpected trap %d from cpu %d eip %x (cr2=0x%x)'' @ [newline]) [Word (tf_trapno t), Word (of_nat c), Word (tf_eip t), Word a])
               (panicK ''trap'')
     | Some p \<Rightarrow>
         if tf_cs t AND 3 = 0 then
           thenK (cprintf (''unexpected trap %d from cpu %d eip %x (cr2=0x%x)'' @ [newline]) [Word (tf_trapno t), Word (of_nat c), Word (tf_eip t), Word a])
                 (panicK ''trap'')
         else
           bindK (getK (\<lambda>s. ptable s ! p)) (\<lambda>x.
           thenK (cprintf (''pid %d %s: trap %d err %d on cpu %d eip 0x%x addr 0x%x--kill proc'' @ [newline])
                    [Word (pid x), Str (Some (pname x)), Word (tf_trapno t), Word (tf_err t), Word (of_nat c), Word (tf_eip t), Word a])
                 (mod_proc p (killed_update (\<lambda>_. True)))))))"

definition trap_device :: "(nat \<Rightarrow> u32 list) \<Rightarrow> trapframe \<Rightarrow> ('z ktrap_scheme, unit) kmon" where
  "trap_device pcs t =
     (let n = tf_trapno t
      in if n = T_IRQ0 + IRQ_TIMER then thenK timer_tick lapiceoi
         else if n = T_IRQ0 + IRQ_IDE then thenK ideintr lapiceoi
         else if n = T_IRQ0 + IRQ_IDE + 1 then returnK ()
         else if n = T_IRQ0 + IRQ_KBD then thenK (kbdintr pcs) lapiceoi
         else if n = T_IRQ0 + IRQ_COM1 then thenK (uartintr pcs) lapiceoi
         else if n = T_IRQ0 + 7 \<or> n = T_IRQ0 + IRQ_SPURIOUS then
           bindK cpuid (\<lambda>c.
           thenK (cprintf (''cpu%d: spurious interrupt at %x:%x'' @ [newline]) [Word (of_nat c), Word (ucast (tf_cs t)), Word (tf_eip t)])
                 lapiceoi)
         else trap_other t)"

definition trap_yield :: "trapframe \<Rightarrow> ('z ktrap_scheme, unit) kmon" where
  "trap_yield t =
     bindK myproc (\<lambda>r.
     case r of None \<Rightarrow> returnK () | Some p \<Rightarrow>
     bindK (getK (\<lambda>s. state (ptable s ! p))) (\<lambda>st.
     whenK (st = RUNNING \<and> tf_trapno t = T_IRQ0 + IRQ_TIMER) yield))"

definition trap :: "(nat \<Rightarrow> u32 list) \<Rightarrow> trapframe \<Rightarrow> ('z ktrap_scheme, unit) kmon" where
  "trap pcs t =
     (if tf_trapno t = T_SYSCALL then trap_syscall t
      else
        thenK (trap_device pcs t) (
        thenK (exit_user t) (
        thenK (trap_yield t)
              (exit_user t))))"

text \<open>The rest of a trap that has yielded, when the process runs again.\<close>

definition trap_resume :: "trapframe \<Rightarrow> bool \<Rightarrow> ('z ktrap_scheme, unit) kmon" where
  "trap_resume t i = thenK (yield_resume i) (exit_user t)"

end
