(* ===== verification/Spec2Isabelle.thy ===== *)
theory Spec2Isabelle
  imports Assignment1 Crc32 Grep Sh_Run Printf Bootmain Xv6_Mp Xv6_Ide Xv6_Smp Xv6_Grow Xv6_Lifecycle Xv6_Trap
begin

text \<open>
  \<^bold>\<open>The program.\<close> The repository holds the exercises of an operating systems course. \<^verbatim>\<open>Asg01\<close> is a set of user-space C routines
  on words, lists and system calls. \<^verbatim>\<open>Asg02/xv6-2\<close> is the teaching kernel xv6 for the x86, with its user programs, extended by the
  system calls \<^verbatim>\<open>freemem\<close>, \<^verbatim>\<open>exit2\<close> and \<^verbatim>\<open>wait2\<close> and by the program \<^verbatim>\<open>crc32\<close>. The boot loader reads the kernel from the disk; the
  kernel finds the processors, sets up the page allocator and its page tables, and runs processes. A process enters the
  kernel through a trap; a system call goes through the argument checks to the file system (open files, pipes, inodes, log,
  buffer cache, disk) or to the process table (fork, exec, exit, wait, kill, sleep). Spin locks and sleep locks protect all of it.

  \<^bold>\<open>How C is translated.\<close> C integers are machine words (\<open>u8\<close>, \<open>u16\<close>, \<open>u32\<close>, \<open>u64\<close>) or integers where the code cannot overflow. A routine of
  the kernel is a function from a state to an \<open>outcome\<close> (theory \<open>Xv6_Base\<close>): \<open>Done\<close> with a result and a new state, \<open>Panics\<close> with the message
  of \<^verbatim>\<open>panic\<close>, \<open>Sleeps\<close> when the process gives up the CPU in \<^verbatim>\<open>sched\<close>, and \<open>Spins\<close> when it waits for ever. \<open>bindK\<close>, \<open>thenK\<close>, \<open>whenK\<close>,
  \<open>forK\<close> and \<open>searchK\<close> are sequence, conditional and bounded loops. Where the code goes on after a sleep, that continuation is a
  definition of its own. The state grows by record extension in the order in which components use each other: \<open>kcpu\<close>, \<open>kproc\<close>,
  \<open>kslock\<close>, \<open>kmemst\<close>, \<open>kbio\<close>, \<open>klog\<close>, \<open>kfs\<close>, \<open>kcons\<close>, \<open>kpipe\<close>, \<open>kfile\<close>, \<open>kvm\<close>, \<open>kps\<close>, \<open>ktrap\<close>; operations are polymorphic in the later
  fields, which is how they are seen to leave them alone. Where C leaves the behaviour undefined (a null dereference, an index out of an
  array) the model stops with \<open>Panics\<close> and a message that starts with \<^verbatim>\<open>undefined\<close>, or with \<open>None\<close>.

  \<^bold>\<open>User space.\<close>
  \<^item> \<open>Assignment1\<close>: \<^verbatim>\<open>assignment1.c\<close>. The digit sorts return the sorted digits; \<^verbatim>\<open>str_to_list\<close> builds exactly the string and leaks when an
    allocation fails late, for strings that its int counters can count; the digits \<^verbatim>\<open>convert\<close> prints denote the value. Locales \<open>digit_packing\<close> (bytes, nibbles), \<open>radix\<close> (2, 8, 16).
  \<^item> \<open>Crc32\<close>: \<^verbatim>\<open>crc32.c\<close>. The table-driven checksum is the bitwise CRC and detects every change of one byte.
  \<^item> \<open>Grep\<close>: \<^verbatim>\<open>grep.c\<close>. The matcher decides an inductive relation; the line loop prints the matching lines when reads are full, and a
    first read that ends inside the first line loses what it has read of it.
  \<^item> \<open>Sh\<close>, \<open>Sh_Run\<close>: \<^verbatim>\<open>sh.c\<close>. The parser ends and its words are those of the line; running a command makes exactly the calls of its tree.
  \<^item> \<open>Ulib\<close>, \<open>Printf\<close>, \<open>Fcntl\<close>: \<^verbatim>\<open>ulib.c\<close>, \<^verbatim>\<open>printf.c\<close>, \<^verbatim>\<open>fcntl.h\<close>. \<^verbatim>\<open>atoi\<close> reads back what \<^verbatim>\<open>printf\<close> writes.

  \<^bold>\<open>Start of the machine.\<close>
  \<^item> \<open>Ata\<close>, \<open>Bootmain\<close>: a drive behind its ports as a parameter with the contract \<open>ata_drive\<close> (transfers of one sector
    selected by its number, without errors), and \<^verbatim>\<open>bootmain.c\<close>, whose \<^verbatim>\<open>readseg\<close> loads the
    bytes asked for and bounds what else it overwrites. \<open>Ata\<close> also has a drive that meets the contract, for the examples.
  \<^item> \<open>Xv6_Mp\<close>: \<^verbatim>\<open>mp.c\<close>. The search for the tables ends and registers the processors in order; an unknown entry hangs it.
  \<^item> \<open>Xv6_Irq\<close>: \<^verbatim>\<open>ioapic.c\<close> and the numbers of \<^verbatim>\<open>traps.h\<close>.

  \<^bold>\<open>Processors, locks, processes.\<close>
  \<^item> \<open>Xv6_Mmu\<close>, \<open>Xv6_String\<close>: \<^verbatim>\<open>param.h\<close>, \<^verbatim>\<open>memlayout.h\<close>, \<^verbatim>\<open>mmu.h\<close>; \<^verbatim>\<open>string.c\<close> on a byte memory with 32-bit addresses that wrap.
  \<^item> \<open>Xv6_Spinlock\<close>, \<open>Xv6_Smp\<close>: \<^verbatim>\<open>spinlock.c\<close>, once as sequential operations with the locales \<open>mutex\<close> and \<open>checked_mutex\<close>, and once as a
    step relation over any number of CPUs, with mutual exclusion as an invariant and progress.
  \<^item> \<open>Xv6_Proc\<close>, \<open>Xv6_Process\<close>, \<open>Xv6_Lifecycle\<close>: \<^verbatim>\<open>proc.c\<close>. What \<^verbatim>\<open>exit2\<close> and \<^verbatim>\<open>wait2\<close> do on every branch, and that the
    status arrives. \<open>Xv6_Lifecycle\<close> rests on \<open>Xv6_Grow\<close> for the memory: \<^verbatim>\<open>wait2\<close> gives back the child's stack and every page of its address space,
    and changes the parent's user memory in the four bytes of the status only.
  \<^item> \<open>Xv6_Sleeplock\<close>: \<^verbatim>\<open>sleeplock.c\<close>, a second interpretation of \<open>mutex\<close>.
  \<^item> \<open>Xv6_Syscall\<close>, \<open>Xv6_Sysfile\<close>, \<open>Xv6_Trap\<close>, \<open>Xv6_Exec\<close>: \<^verbatim>\<open>syscall.c\<close>, \<^verbatim>\<open>sysfile.c\<close>, \<^verbatim>\<open>sysproc.c\<close> with \<^verbatim>\<open>trap.c\<close>, and \<^verbatim>\<open>exec.c\<close>. The checks on
    user pointers accept only memory of the process; \<open>Xv6_Sysfile\<close>, \<open>Xv6_Trap\<close> and \<open>Xv6_Exec\<close> are definitions only.

  \<^bold>\<open>Memory.\<close>
  \<^item> \<open>Xv6_Kalloc\<close>: \<^verbatim>\<open>kalloc.c\<close> with \<^verbatim>\<open>freemem\<close>. The free list is threaded through the memory; the locale \<open>page_allocator\<close> is its contract.
  \<^item> \<open>Xv6_Paging\<close>, \<open>Xv6_Vm\<close>: \<^verbatim>\<open>vm.c\<close>, with the walk of the MMU as a definition of its own.
  \<^item> \<open>Xv6_Pagetable\<close>, \<open>Xv6_Uvm\<close>, \<open>Xv6_Grow\<close>: what those operations do. A page directory in memory is abstracted to the function from
    page numbers to entries; \<open>pgdir_ok\<close> and \<open>uvm_ok\<close> say that its tables, its user pages and the free pages are pairwise disjoint. Under them
    \<^verbatim>\<open>mappages\<close> makes the MMU translate as asked, \<^verbatim>\<open>setupkvm\<close> builds the direct map, \<^verbatim>\<open>allocuvm\<close> adds cleared pages, \<^verbatim>\<open>copyuvm\<close> makes a
    separate equal copy, \<^verbatim>\<open>freevm\<close> frees every page once; each gives back everything it took when memory runs out.

  \<^bold>\<open>Files and devices.\<close>
  \<^item> \<open>Xv6_Bio\<close>, \<open>Xv6_Ide\<close>: \<^verbatim>\<open>memide.c\<close> and \<^verbatim>\<open>bio.c\<close>; \<^verbatim>\<open>ide.c\<close>. The cache returns current contents (locale \<open>block_store\<close>). The driver of a real
    drive refines the in-memory disk and serves its queue in order.
  \<^item> \<open>Xv6_Log\<close>: \<^verbatim>\<open>log.c\<close>. A commit stopped after any number of disk writes is recovered to the state before or after it. The body of a
    transaction (\<^verbatim>\<open>bread\<close>, \<^verbatim>\<open>log_write\<close>, \<^verbatim>\<open>brelse\<close>) is one more interpretation of \<open>block_store\<close>, with the log as its bound: all of its updates survive
    a crash or none. The log area is the one that \<^verbatim>\<open>log.size\<close> gives; the invariants leave one buffer of the cache free for the log's own blocks.
  \<^item> \<open>Xv6_Inode\<close>, \<open>Xv6_Fs\<close>, \<open>Xv6_File\<close>: \<^verbatim>\<open>fs.c\<close> and \<^verbatim>\<open>file.c\<close>, executable definitions without functional theorems of their own.
  \<^item> \<open>Xv6_Ring\<close>, \<open>Xv6_Pipe\<close>, \<open>Xv6_Console\<close>, \<open>Xv6_Line\<close>, \<open>Kbd\<close>: circular buffers (locale \<open>bounded_queue\<close>), \<^verbatim>\<open>pipe.c\<close>, \<^verbatim>\<open>console.c\<close> with the
    output half of \<^verbatim>\<open>uart.c\<close>, and \<^verbatim>\<open>kbd.c\<close>. Pipes are bounded queues across the wrap-around of their counters; the console implements
    a line discipline on committed and edited bytes.

  \<^bold>\<open>Loops and bounds.\<close> Loops are structural recursion, \<open>function\<close> with a measure, or \<open>partial_function (option)\<close> where the C loop may not end; then
  the theorem says that it ends. The only fuel is that of the mutually recursive parser: \<open>4 * length s + 4\<close>. Each level of a recursion that
  consumes no character goes through at most four functions; the theorem on the parser says that the fuel never runs out. The loops of \<^verbatim>\<open>vm.c\<close>
  step by pages, and the theorems on them cover every size the code accepts.

  \<^bold>\<open>Not modelled.\<close> The assembly files (\<^verbatim>\<open>bootasm.S\<close>, \<^verbatim>\<open>entry.S\<close>, \<^verbatim>\<open>entryother.S\<close>, \<^verbatim>\<open>swtch.S\<close>, \<^verbatim>\<open>trapasm.S\<close>, \<^verbatim>\<open>initcode.S\<close>, \<^verbatim>\<open>usys.S\<close>) and the
  generator \<^verbatim>\<open>vectors.pl\<close>: machine code is given no semantics; \<^verbatim>\<open>swtch\<close> is where a run of the model ends. The programming of the local
  interrupt controller, of the serial port and of the old controllers (\<^verbatim>\<open>lapic.c\<close>, \<^verbatim>\<open>uart.c\<close>, \<^verbatim>\<open>picirq.c\<close>), \<^verbatim>\<open>getcallerpcs\<close>, \<^verbatim>\<open>idtinit\<close> and the
  text that \<^verbatim>\<open>panic\<close> prints: input and output only. \<^verbatim>\<open>main.c\<close>: the order of the initialisers. \<^verbatim>\<open>umalloc.c\<close>: no modelled program depends on it.
  \<^verbatim>\<open>mkfs.c\<close>: a program of the build host. The small user programs, the test programs (\<^verbatim>\<open>usertests.c\<close>, \<^verbatim>\<open>forktest.c\<close>, \<^verbatim>\<open>stressfs.c\<close>), \<^verbatim>\<open>Asg01/main.c\<close>
  and the directory branch of \<^verbatim>\<open>crc32.c\<close>: sequences of calls and prints. Except in \<open>Xv6_Smp\<close>, a run of a kernel routine is the run of one CPU
  while the others hold still.
\<close>

end
